(* ===== verification/Proto.thy ===== *)
theory Proto
  imports Hytch_Prelude
begin

text \<open>
  The wire protocol of the client-to-daemon control channel: crates/proto/src/message.rs and
  crates/proto/src/codec.rs. A \<open>BytesMut\<close> is the list of the bytes it holds; the encoder
  appends to it and the decoder returns what is left of it. The capacity a \<open>BytesMut\<close>
  reserves is not modelled (it does not change the contents). Every error of the decoder has
  the kind \<open>InvalidData\<close>; its message text is the constructor and its arguments.
\<close>

section \<open>Messages\<close>

datatype RedrawMethod = Unspecified | NoRedraw | CtrlL | WinchRedraw

datatype Message =
    Push bytes
  | Attach (skip_ring: bool)
  | Detach
  | Winch u16 u16
  | Redraw RedrawMethod u16 u16
  | Kill u8

fun to_u8 :: "RedrawMethod \<Rightarrow> u8" where
  "to_u8 Unspecified = 0"
| "to_u8 NoRedraw = 1"
| "to_u8 CtrlL = 2"
| "to_u8 WinchRedraw = 3"

definition from_u8 :: "u8 \<Rightarrow> RedrawMethod option" where
  "from_u8 byte =
     (if byte = 0 then Some Unspecified
      else if byte = 1 then Some NoRedraw
      else if byte = 2 then Some CtrlL
      else if byte = 3 then Some WinchRedraw
      else None)"

lemma from_u8_to_u8 [simp]: "from_u8 (to_u8 m) = Some m"
  by (cases m) (simp_all add: from_u8_def)

lemma to_u8_from_u8: "from_u8 b = Some m \<Longrightarrow> to_u8 m = b"
  by (auto simp: from_u8_def split: if_splits)

section \<open>Encoding\<close>

definition DEFAULT_MAX_FRAME_LEN :: nat where "DEFAULT_MAX_FRAME_LEN = 64 * 1024"
definition HEADER_LEN :: nat where "HEADER_LEN = 5"

definition TYPE_PUSH :: u8 where "TYPE_PUSH = 0"
definition TYPE_ATTACH :: u8 where "TYPE_ATTACH = 1"
definition TYPE_DETACH :: u8 where "TYPE_DETACH = 2"
definition TYPE_WINCH :: u8 where "TYPE_WINCH = 3"
definition TYPE_REDRAW :: u8 where "TYPE_REDRAW = 4"
definition TYPE_KILL :: u8 where "TYPE_KILL = 5"

lemmas type_tags [model_defs] =
  TYPE_PUSH_def TYPE_ATTACH_def TYPE_DETACH_def TYPE_WINCH_def TYPE_REDRAW_def TYPE_KILL_def

record MessageCodec =
  max_frame_len :: nat

definition default_codec :: MessageCodec where
  "default_codec = \<lparr>max_frame_len = DEFAULT_MAX_FRAME_LEN\<rparr>"

definition new_codec :: "nat \<Rightarrow> MessageCodec" where
  "new_codec max_frame = \<lparr>max_frame_len = max_frame\<rparr>"

text \<open>\<open>len as u32\<close> keeps the low 32 bits of the length.\<close>

definition write_header :: "bytes \<Rightarrow> u8 \<Rightarrow> nat \<Rightarrow> bytes" where
  "write_header dst ty len = dst @ [ty] @ put_u32 (word_of_nat len)"

text \<open>The encoder never fails: the source returns \<open>Ok(())\<close> on every branch.\<close>

fun encode :: "Message \<Rightarrow> bytes \<Rightarrow> bytes" where
  "encode (Push payload) dst = write_header dst TYPE_PUSH (length payload) @ payload"
| "encode (Attach skip) dst = write_header dst TYPE_ATTACH 1 @ [if skip then 1 else 0]"
| "encode Detach dst = write_header dst TYPE_DETACH 0"
| "encode (Winch rows cols) dst =
     write_header dst TYPE_WINCH 4 @ put_u16 rows @ put_u16 cols"
| "encode (Redraw method rows cols) dst =
     write_header dst TYPE_REDRAW 5 @ [to_u8 method] @ put_u16 rows @ put_u16 cols"
| "encode (Kill signal) dst = write_header dst TYPE_KILL 1 @ [signal]"

section \<open>Decoding\<close>

datatype codec_error =
    FrameTooLong nat nat
  | BadPayloadLen nat nat
  | UnknownRedraw u8
  | UnknownType u8

definition require_len :: "bytes \<Rightarrow> nat \<Rightarrow> codec_error + unit" where
  "require_len payload expected =
     (if length payload \<noteq> expected then Inl (BadPayloadLen expected (length payload))
      else Inr ())"

definition decode_payload :: "u8 \<Rightarrow> bytes \<Rightarrow> codec_error + Message" where
  "decode_payload ty payload =
     (if ty = TYPE_PUSH then Inr (Push payload)
      else if ty = TYPE_ATTACH then
        (case require_len payload 1 of Inl e \<Rightarrow> Inl e
         | Inr _ \<Rightarrow> Inr (Attach (payload ! 0 \<noteq> 0)))
      else if ty = TYPE_DETACH then
        (case require_len payload 0 of Inl e \<Rightarrow> Inl e | Inr _ \<Rightarrow> Inr Detach)
      else if ty = TYPE_WINCH then
        (case require_len payload 4 of Inl e \<Rightarrow> Inl e
         | Inr _ \<Rightarrow> Inr (Winch (be16 (payload ! 0) (payload ! 1)) (be16 (payload ! 2) (payload ! 3))))
      else if ty = TYPE_REDRAW then
        (case require_len payload 5 of Inl e \<Rightarrow> Inl e
         | Inr _ \<Rightarrow>
             (case from_u8 (payload ! 0) of
                None \<Rightarrow> Inl (UnknownRedraw (payload ! 0))
              | Some method \<Rightarrow>
                  Inr (Redraw method (be16 (payload ! 1) (payload ! 2))
                                     (be16 (payload ! 3) (payload ! 4)))))
      else if ty = TYPE_KILL then
        (case require_len payload 1 of Inl e \<Rightarrow> Inl e | Inr _ \<Rightarrow> Inr (Kill (payload ! 0)))
      else Inl (UnknownType ty))"

text \<open>
  \<open>decode\<close> returns its result and what the buffer holds afterwards: unchanged while it waits
  for more bytes and when the claimed length is over the limit; without the frame otherwise,
  also when the payload is refused.
\<close>

definition decode :: "MessageCodec \<Rightarrow> bytes \<Rightarrow> (codec_error + Message option) \<times> bytes" where
  "decode c src =
     (if length src < HEADER_LEN then (Inr None, src)
      else
        let ty = src ! 0;
            len = unat (be32 (src ! 1) (src ! 2) (src ! 3) (src ! 4))
        in if len > max_frame_len c then (Inl (FrameTooLong len (max_frame_len c)), src)
           else if length src < HEADER_LEN + len then (Inr None, src)
           else
             let frame = take (HEADER_LEN + len) src;
                 rest = drop (HEADER_LEN + len) src
             in (case decode_payload ty (drop HEADER_LEN frame) of
                   Inl e \<Rightarrow> (Inl e, rest)
                 | Inr m \<Rightarrow> (Inr (Some m), rest)))"

section \<open>Shape of a frame\<close>

text \<open>The tag and the payload bytes of a message, as its frame carries them.\<close>

fun tag_of :: "Message \<Rightarrow> u8" where
  "tag_of (Push _) = TYPE_PUSH"
| "tag_of (Attach _) = TYPE_ATTACH"
| "tag_of Detach = TYPE_DETACH"
| "tag_of (Winch _ _) = TYPE_WINCH"
| "tag_of (Redraw _ _ _) = TYPE_REDRAW"
| "tag_of (Kill _) = TYPE_KILL"

fun payload_of :: "Message \<Rightarrow> bytes" where
  "payload_of (Push p) = p"
| "payload_of (Attach skip) = [if skip then 1 else 0]"
| "payload_of Detach = []"
| "payload_of (Winch r c) = put_u16 r @ put_u16 c"
| "payload_of (Redraw m r c) = to_u8 m # put_u16 r @ put_u16 c"
| "payload_of (Kill s) = [s]"

text \<open>The terminal input a message carries.\<close>

fun push_of :: "Message \<Rightarrow> bytes list" where
  "push_of (Push d) = [d]"
| "push_of _ = []"

definition frame :: "u8 \<Rightarrow> bytes \<Rightarrow> bytes" where
  "frame ty payload = ty # put_u32 (word_of_nat (length payload)) @ payload"

text \<open>A message the decoder accepts: its payload is within the limit and 32 bits.\<close>

definition encodable :: "MessageCodec \<Rightarrow> Message \<Rightarrow> bool" where
  "encodable c m \<longleftrightarrow> length (payload_of m) \<le> max_frame_len c \<and> length (payload_of m) < 2 ^ 32"

lemma length_frame [simp]: "length (frame ty p) = HEADER_LEN + length p"
  by (simp add: frame_def HEADER_LEN_def)

lemma encode_frame: "encode m dst = dst @ frame (tag_of m) (payload_of m)"
  by (cases m) (simp_all add: write_header_def frame_def numeral_eq_Suc)

lemma encode_append: "encode m dst = dst @ encode m []"
  by (simp add: encode_frame)

lemma decode_payload_of [simp]: "decode_payload (tag_of m) (payload_of m) = Inr m"
  by (cases m)
    (simp_all add: decode_payload_def require_len_def type_tags put_u16_def be16_put)

lemma require_len_Inr: "require_len p n = Inr u \<longleftrightarrow> length p = n"
  by (simp add: require_len_def)

lemma list_1_conv: "length xs = Suc 0 \<Longrightarrow> xs = [xs ! 0]"
  by (cases xs) auto

lemma list_4_conv: "length xs = 4 \<Longrightarrow> xs = [xs ! 0, xs ! 1, xs ! 2, xs ! 3]"
  by (rule nth_equalityI) (auto simp: less_Suc_eq numeral_eq_Suc)

lemma list_5_conv: "length xs = 5 \<Longrightarrow> xs = [xs ! 0, xs ! 1, xs ! 2, xs ! 3, xs ! 4]"
  by (rule nth_equalityI) (auto simp: less_Suc_eq numeral_eq_Suc)

section \<open>What the decoder does on a frame\<close>

lemma frame_header:
  assumes "length p < 2 ^ 32"
  shows "(frame ty p @ r) ! 0 = ty"
    and "unat (be32 ((frame ty p @ r) ! 1) ((frame ty p @ r) ! 2) ((frame ty p @ r) ! 3)
           ((frame ty p @ r) ! 4)) = length p"
  using assms by (simp_all add: frame_def put_u32_def be32_put)

lemma decode_frame:
  assumes "length p < 2 ^ 32"
  shows "decode c (frame ty p @ r) =
    (if length p > max_frame_len c
     then (Inl (FrameTooLong (length p) (max_frame_len c)), frame ty p @ r)
     else case decode_payload ty p of Inl e \<Rightarrow> (Inl e, r) | Inr m \<Rightarrow> (Inr (Some m), r))"
proof -
  have p: "drop HEADER_LEN (frame ty p) = p"
    by (simp add: frame_def HEADER_LEN_def put_u32_def)
  have r: "drop (HEADER_LEN + length p) (frame ty p @ r) = r"
    by (simp add: length_frame [where ty = ty and p = p, symmetric] del: length_frame)
  show ?thesis
    unfolding decode_def Let_def frame_header [OF assms] r by (simp add: p)
qed

lemma decode_encode_aux:
  "encodable c m \<Longrightarrow> decode c (encode m [] @ r) = (Inr (Some m), r)"
  by (simp add: encode_frame decode_frame encodable_def)

text \<open>A buffer with a complete header and enough bytes is a frame and the rest.\<close>

lemma five_bytes: "5 \<le> length src \<Longrightarrow>
    take 5 src = [src ! 0, src ! 1, src ! 2, src ! 3, src ! 4]"
  by (rule nth_equalityI) (auto simp: less_Suc_eq numeral_eq_Suc)

lemma complete_frame:
  assumes "HEADER_LEN \<le> length src"
    and "len = unat (be32 (src ! 1) (src ! 2) (src ! 3) (src ! 4))"
    and "HEADER_LEN + len \<le> length src"
  shows "src = frame (src ! 0) (take len (drop HEADER_LEN src)) @ drop (HEADER_LEN + len) src"
proof -
  let ?p = "take len (drop HEADER_LEN src)"
  have lp: "length ?p = len" using assms(3) by simp
  have "put_u32 (word_of_nat len) = [src ! 1, src ! 2, src ! 3, src ! 4]"
    by (simp add: assms(2) put_be32)
  then have "frame (src ! 0) ?p = take HEADER_LEN src @ ?p"
    using assms(1) five_bytes [of src] lp by (simp add: frame_def HEADER_LEN_def del: length_take length_drop)
  also have "\<dots> = take (HEADER_LEN + len) src" by (simp add: take_add)
  finally show ?thesis by simp
qed

lemma decode_payload_Inr:
  assumes "decode_payload ty p = Inr m"
  shows "ty = tag_of m \<and> length p = length (payload_of m) \<and> (m \<noteq> Attach True \<longrightarrow> p = payload_of m)"
  using assms
  by (auto simp: decode_payload_def require_len_def put_be16 to_u8_from_u8
      dest: list_1_conv list_4_conv list_5_conv split: if_splits option.splits sum.splits)

lemma decode_SomeD:
  assumes "decode c src = (Inr (Some m), r)"
  obtains p where "src = frame (tag_of m) p @ r" "decode_payload (tag_of m) p = Inr m"
    "length p \<le> max_frame_len c" "length p < 2 ^ 32"
proof -
  let ?len = "unat (be32 (src ! 1) (src ! 2) (src ! 3) (src ! 4))"
  let ?p = "take ?len (drop HEADER_LEN src)"
  from assms have h: "HEADER_LEN \<le> length src" "?len \<le> max_frame_len c"
    "HEADER_LEN + ?len \<le> length src" "r = drop (HEADER_LEN + ?len) src"
    "decode_payload (src ! 0) ?p = Inr m"
    by (auto simp: decode_def Let_def take_drop add.commute split: if_splits sum.splits)
  have "src ! 0 = tag_of m" using decode_payload_Inr [OF h(5)] by simp
  moreover have "src = frame (src ! 0) ?p @ r"
    using complete_frame [OF h(1) refl h(3)] h(4) by simp
  moreover have "length ?p = ?len" using h(3) by simp
  moreover have "?len < 2 ^ 32" using unsigned_less [of "be32 (src ! 1) (src ! 2) (src ! 3) (src ! 4)"] by simp
  ultimately show ?thesis using that h(2,5) by metis
qed

lemma decode_shrinks: "decode c src = (Inr (Some m), r) \<Longrightarrow> length r < length src"
  by (erule decode_SomeD) (simp add: HEADER_LEN_def)

lemma decode_NoneD:
  assumes "decode c src = (Inr None, r)"
  shows "r = src \<and> length src < HEADER_LEN + max_frame_len c"
  using assms by (auto simp: decode_def Let_def split: if_splits sum.splits)

lemma decode_prefix:
  assumes e: "encodable c m" and p: "strict_prefix b (encode m [])"
  shows "decode c b = (Inr None, b)"
proof -
  let ?f = "frame (tag_of m) (payload_of m)"
  have f: "encode m [] = ?f" by (simp add: encode_frame)
  from p obtain z where z: "?f = b @ z" "z \<noteq> []" by (auto simp: f strict_prefix_def prefix_def)
  have len: "length (payload_of m) < 2 ^ 32" "length (payload_of m) \<le> max_frame_len c"
    using e by (simp_all add: encodable_def)
  have lb: "length b < HEADER_LEN + length (payload_of m)"
    using z by (metis length_append length_frame length_greater_0_conv less_add_same_cancel1)
  show ?thesis
  proof (cases "length b < HEADER_LEN")
    case True
    then show ?thesis by (simp add: decode_def)
  next
    case False
    then have "(?f @ []) ! k = b ! k" if "k < 5" for k
      using that by (simp add: z(1) nth_append HEADER_LEN_def)
    then have "unat (be32 (b ! 1) (b ! 2) (b ! 3) (b ! 4)) = length (payload_of m)"
      using frame_header(2) [OF len(1), of "tag_of m" "[]"] by simp
    then show ?thesis using False lb len(2) by (simp add: decode_def Let_def)
  qed
qed

section \<open>Properties\<close>

text \<open>
  Property C1. Round trip: a message whose payload is within the decoder's frame limit comes
  back from its own frame, and exactly the bytes of that frame are consumed, whatever follows
  them in the buffer.
\<close>

theorem decode_encode:
  assumes "encodable c m"
  shows "decode c (encode m [] @ rest) = (Inr (Some m), rest)"
  using assms by (rule decode_encode_aux)

theorem decode_encode_witness:
  "decode default_codec (encode (Winch 24 80) [] @ [7, 7]) = (Inr (Some (Winch 24 80)), [7, 7])"
  by (rule decode_encode)
    (simp add: encodable_def default_codec_def DEFAULT_MAX_FRAME_LEN_def put_u16_def)

text \<open>
  Property C31. The decoder invents nothing: when it returns a message, the bytes it consumed
  are that message's own encoding (for \<open>Attach\<close> any non-zero flag byte reads as true, so
  there only the length is fixed), the message is within the limit, and what is left is the
  rest of the buffer.
\<close>

theorem decode_only_frames:
  assumes "decode c src = (Inr (Some m), rest)"
  shows "encodable c m
    \<and> (\<exists>consumed. src = consumed @ rest \<and> length consumed = length (encode m [])
       \<and> (m \<noteq> Attach True \<longrightarrow> consumed = encode m []))"
proof (intro conjI)
  obtain p where p: "src = frame (tag_of m) p @ rest" "decode_payload (tag_of m) p = Inr m"
    "length p \<le> max_frame_len c" "length p < 2 ^ 32"
    using assms by (rule decode_SomeD)
  then have q: "length p = length (payload_of m)" "m \<noteq> Attach True \<longrightarrow> p = payload_of m"
    using decode_payload_Inr [OF p(2)] by simp_all
  show "encodable c m" using p(3,4) by (simp add: encodable_def q(1))
  show "\<exists>consumed. src = consumed @ rest \<and> length consumed = length (encode m [])
       \<and> (m \<noteq> Attach True \<longrightarrow> consumed = encode m [])"
    using p(1) q by (auto simp: encode_frame)
qed

theorem decode_only_frames_witness:
  "encodable default_codec Detach
    \<and> (\<exists>consumed. ([2, 0, 0, 0, 0, 9] :: bytes) = consumed @ [9]
       \<and> length consumed = length (encode Detach [])
       \<and> (Detach \<noteq> Attach True \<longrightarrow> consumed = encode Detach []))"
proof (rule decode_only_frames)
  show "decode default_codec [2, 0, 0, 0, 0, 9] = (Inr (Some Detach), [9])"
    by (simp add: decode_def HEADER_LEN_def be32_def default_codec_def
        decode_payload_def require_len_def type_tags)
qed

text \<open>
  Bounded memory: a buffer the decoder asks to extend is left unchanged and holds
  less than a header and the largest allowed payload, whatever length a hostile or corrupt peer
  claims; so a reader that decodes after every read never accumulates more than one frame.
\<close>

theorem decode_waits_bounded:
  assumes "decode c src = (Inr None, src')"
  shows "src' = src \<and> length src < HEADER_LEN + max_frame_len c"
  using decode_NoneD [OF assms] by simp_all

theorem decode_waits_bounded_witness:
  "([0, 0, 0, 1, 0, 65] :: bytes) = [0, 0, 0, 1, 0, 65]
     \<and> length ([0, 0, 0, 1, 0, 65] :: bytes) < HEADER_LEN + max_frame_len default_codec"
proof (rule decode_waits_bounded)
  show "decode default_codec [0, 0, 0, 1, 0, 65] = (Inr None, [0, 0, 0, 1, 0, 65])"
    by (simp add: decode_def HEADER_LEN_def be32_def default_codec_def DEFAULT_MAX_FRAME_LEN_def)
qed

text \<open>
  A frame over the limit is refused as soon as its header is there, before any of
  its payload arrives and without consuming anything: the buffer may hold any part of the frame
  of an over-long push that includes the five header bytes.
\<close>

theorem decode_refuses_oversize:
  assumes "max_frame_len c < length payload" and "length payload < 2 ^ 32" and "HEADER_LEN \<le> n"
  shows "decode c (take n (encode (Push payload) [])) =
    (Inl (FrameTooLong (length payload) (max_frame_len c)), take n (encode (Push payload) []))"
proof -
  let ?b = "take n (encode (Push payload) [])"
  have f: "encode (Push payload) [] = frame TYPE_PUSH payload @ []" by (simp add: encode_frame)
  have "?b ! k = (frame TYPE_PUSH payload @ []) ! k" if "k < 5" for k
    using that assms(3) by (simp add: f HEADER_LEN_def del: encode.simps)
  then have "unat (be32 (?b ! 1) (?b ! 2) (?b ! 3) (?b ! 4)) = length payload"
    using frame_header(2) [OF assms(2), of TYPE_PUSH "[]"] by simp
  moreover have "\<not> length ?b < HEADER_LEN" using assms(3) by (simp add: f del: encode.simps)
  ultimately show ?thesis using assms(1) by (simp add: decode_def Let_def)
qed

theorem decode_refuses_oversize_witness:
  "decode \<lparr>max_frame_len = 1\<rparr> (take 5 (encode (Push [65, 66]) [])) =
    (Inl (FrameTooLong 2 1), take 5 (encode (Push [65, 66]) []))"
  using decode_refuses_oversize [of "\<lparr>max_frame_len = 1\<rparr>" "[65, 66]" 5]
  by (simp add: HEADER_LEN_def)

end
