(* ===== verification/Framing.thy ===== *)
theory Framing
  imports Proto
begin

text \<open>
  The control channel as a stream. A reader appends what arrives to its buffer and decodes until
  the decoder asks for more: that is how the codec's own test feeds it
  (\<open>decode_returns_none_on_partial_frame\<close> in crates/proto/src/tests.rs) and how the daemon's
  reader uses it. The theory shows that how the bytes are split into reads does not matter.
\<close>

section \<open>Draining a buffer, feeding a stream of reads\<close>

text \<open>
  The messages in a buffer, the error that ended decoding (if one did) and what is left.
\<close>

function drain :: "MessageCodec \<Rightarrow> bytes \<Rightarrow> Message list \<times> codec_error option \<times> bytes" where
  "drain c src =
     (case decode c src of
        (Inl e, rest) \<Rightarrow> ([], Some e, rest)
      | (Inr None, rest) \<Rightarrow> ([], None, rest)
      | (Inr (Some m), rest) \<Rightarrow>
          (let (ms, err, r) = drain c rest in (m # ms, err, r)))"
  by pat_completeness auto
termination
  by (relation "measure (\<lambda>(c, src). length src)") (auto dest: decode_shrinks [OF sym])

declare drain.simps [simp del]

text \<open>A sequence of reads: each is appended to what the last left undecoded; an error ends it.\<close>

fun feed :: "MessageCodec \<Rightarrow> bytes \<Rightarrow> bytes list \<Rightarrow> Message list \<times> codec_error option \<times> bytes" where
  "feed c buf [] = ([], None, buf)"
| "feed c buf (r # rs) =
     (case drain c (buf @ r) of
        (ms, Some e, b) \<Rightarrow> (ms, Some e, b)
      | (ms, None, b) \<Rightarrow> (let (ms', err, b') = feed c b rs in (ms @ ms', err, b')))"

section \<open>The interface: a prefix-safe framing\<close>

text \<open>
  What the stream argument needs of a codec: a frame decodes to its message whatever follows, a
  proper prefix of a frame asks for more and changes nothing, and frames are not empty. The
  reader is given by the equations it satisfies.
\<close>

locale framing =
  fixes enc :: "'m \<Rightarrow> 'b list"
    and dec :: "'b list \<Rightarrow> ('e + 'm option) \<times> 'b list"
    and ok :: "'m \<Rightarrow> bool"
    and dr :: "'b list \<Rightarrow> 'm list \<times> 'e option \<times> 'b list"
    and fd :: "'b list \<Rightarrow> 'b list list \<Rightarrow> 'm list \<times> 'e option \<times> 'b list"
  assumes dec_enc: "ok m \<Longrightarrow> dec (enc m @ r) = (Inr (Some m), r)"
    and dec_prefix: "ok m \<Longrightarrow> strict_prefix b (enc m) \<Longrightarrow> dec b = (Inr None, b)"
    and enc_nonempty: "enc m \<noteq> []"
    and dec_nil: "dec [] = (Inr None, [])"
    and dr_unfold: "dr b = (case dec b of
        (Inl e, rest) \<Rightarrow> ([], Some e, rest)
      | (Inr None, rest) \<Rightarrow> ([], None, rest)
      | (Inr (Some m), rest) \<Rightarrow> (let (ms, err, r) = dr rest in (m # ms, err, r)))"
    and fd_nil: "fd b [] = ([], None, b)"
    and fd_cons: "fd b (r # rs) = (case dr (b @ r) of
        (ms, Some e, b') \<Rightarrow> (ms, Some e, b')
      | (ms, None, b') \<Rightarrow> (let (ms', err, b'') = fd b' rs in (ms @ ms', err, b'')))"
begin

definition wire :: "'m list \<Rightarrow> 'b list" where
  "wire ms = concat (map enc ms)"

lemma wire_simps [simp]: "wire [] = []" "wire (m # ms) = enc m @ wire ms"
  by (simp_all add: wire_def)

text \<open>Any prefix of a wire is some whole frames and a proper prefix of the next.\<close>

lemma prefix_of_wire:
  assumes "b @ z = wire ms"
  shows "\<exists>k t. k \<le> length ms \<and> b = wire (take k ms) @ t \<and> t @ z = wire (drop k ms) \<and>
    (t = [] \<or> (k < length ms \<and> strict_prefix t (enc (ms ! k))))"
  using assms
proof (induction ms arbitrary: b)
  case Nil
  then show ?case by (intro exI [of _ 0] exI [of _ "[]"]) simp
next
  case (Cons m ms)
  show ?case
  proof (cases "strict_prefix b (enc m)")
    case True
    then show ?thesis using Cons.prems
      by (intro exI [of _ 0] exI [of _ b]) simp
  next
    case False
    have "prefix b (enc m) \<or> prefix (enc m) b"
      using Cons.prems by (metis prefix_same_cases prefixI wire_simps(2))
    then have "prefix (enc m) b" using False by (auto simp: strict_prefix_def)
    then obtain b' where b: "b = enc m @ b'" by (auto simp: prefix_def)
    then have "b' @ z = wire ms" using Cons.prems by simp
    from Cons.IH [OF this] obtain k t where
      "k \<le> length ms" "b' = wire (take k ms) @ t" "t @ z = wire (drop k ms)"
      "t = [] \<or> (k < length ms \<and> strict_prefix t (enc (ms ! k)))" by blast
    then show ?thesis by (intro exI [of _ "Suc k"] exI [of _ t]) (simp add: b)
  qed
qed

lemma dr_wire_tail:
  assumes "\<forall>m \<in> set ms. ok m" and "dec t = (Inr None, t)"
  shows "dr (wire ms @ t) = (ms, None, t)"
  using assms(1)
proof (induction ms)
  case Nil
  then show ?case by (subst dr_unfold) (simp add: assms(2))
next
  case (Cons m ms)
  then show ?case by (subst dr_unfold) (simp add: dec_enc)
qed

text \<open>
  One read: with \<open>b\<close> a prefix of what is still to come, the buffer drains to the whole frames
  in it and keeps the incomplete one.
\<close>

lemma dr_prefix:
  assumes ok: "\<forall>m \<in> set ms. ok m" and b: "b @ z = wire ms"
  shows "\<exists>k t. dr b = (take k ms, None, t) \<and> t @ z = wire (drop k ms) \<and> dec t = (Inr None, t)
    \<and> b = wire (take k ms) @ t \<and> (k < length ms \<longrightarrow> strict_prefix t (enc (ms ! k)))"
proof -
  obtain k t where k: "b = wire (take k ms) @ t" "t @ z = wire (drop k ms)"
    "t = [] \<or> (k < length ms \<and> strict_prefix t (enc (ms ! k)))"
    using prefix_of_wire [OF b] by blast
  have t: "dec t = (Inr None, t)"
    using k(3) ok dec_nil dec_prefix by (metis nth_mem)
  have "\<forall>m \<in> set (take k ms). ok m" using ok by (meson in_set_takeD)
  from dr_wire_tail [OF this t] have "dr b = (take k ms, None, t)" by (simp add: k(1))
  moreover have "k < length ms \<longrightarrow> strict_prefix t (enc (ms ! k))"
    using k(3) enc_nonempty by (metis Nil_prefix strict_prefix_def)
  ultimately show ?thesis using k t by blast
qed

lemma fd_wire:
  assumes "\<forall>m \<in> set ms. ok m" and "b @ concat rs = wire ms" and "dec b = (Inr None, b)"
  shows "fd b rs = (ms, None, [])"
  using assms
proof (induction rs arbitrary: b ms)
  case Nil
  have "ms = []"
  proof (cases ms)
    case (Cons m ms')
    with Nil.prems have "dec b = (Inr (Some m), wire ms')" by (simp add: dec_enc)
    with Nil.prems(3) show ?thesis by simp
  qed
  with Nil.prems show ?case by (simp add: fd_nil)
next
  case (Cons r rs)
  have w: "(b @ r) @ concat rs = wire ms" using Cons.prems(2) by simp
  obtain k t where k: "dr (b @ r) = (take k ms, None, t)" "t @ concat rs = wire (drop k ms)"
    "dec t = (Inr None, t)"
    using dr_prefix [OF Cons.prems(1) w] by blast
  have "\<forall>m \<in> set (drop k ms). ok m" using Cons.prems(1) by (meson in_set_dropD)
  from Cons.IH [OF this k(2,3)] show ?case by (simp add: fd_cons k(1))
qed

text \<open>However the wire is cut into reads, the reader sees exactly the messages sent.\<close>

lemma fd_any_split:
  "\<forall>m \<in> set ms. ok m \<Longrightarrow> concat rs = wire ms \<Longrightarrow> fd [] rs = (ms, None, [])"
  by (rule fd_wire) (simp_all add: dec_nil)

text \<open>A cut-off stream yields a prefix of the messages and no error.\<close>

lemma dr_cut:
  assumes "\<forall>m \<in> set ms. ok m" and "b @ z = wire ms"
  shows "\<exists>k t. dr b = (take k ms, None, t) \<and> b = wire (take k ms) @ t
    \<and> (k < length ms \<longrightarrow> strict_prefix t (enc (ms ! k)))"
  using dr_prefix [OF assms] by blast

end

section \<open>The codec is such a framing\<close>

interpretation ctl: framing "\<lambda>m. encode m []" "decode c" "encodable c" "drain c" "feed c"
  for c :: MessageCodec
proof unfold_locales
  fix m :: Message
  show "encode m [] \<noteq> []" by (simp add: encode_frame frame_def)
  show "decode c [] = (Inr None, [])" by (simp add: decode_def HEADER_LEN_def)
next
  fix b show "drain c b = (case decode c b of
        (Inl e, rest) \<Rightarrow> ([], Some e, rest)
      | (Inr None, rest) \<Rightarrow> ([], None, rest)
      | (Inr (Some m), rest) \<Rightarrow> (let (ms, err, r) = drain c rest in (m # ms, err, r)))"
    by (rule drain.simps)
qed (auto simp: decode_encode_aux intro: decode_prefix)

lemma wire_encode: "ctl.wire ms = concat (map (\<lambda>m. encode m []) ms)"
  by (rule ctl.wire_def)

section \<open>Properties\<close>

text \<open>
  Property C2. Reassembly: whatever way the frames of a sequence of messages are cut into reads
  (many per read, one byte at a time, boundaries inside headers), the reader obtains exactly
  those messages, in order, without an error and with nothing left over.
\<close>

theorem feed_reassembles:
  assumes "\<forall>m \<in> set ms. encodable c m"
    and "concat reads = concat (map (\<lambda>m. encode m []) ms)"
  shows "feed c [] reads = (ms, None, [])"
  by (rule ctl.fd_any_split) (use assms in \<open>simp_all add: wire_encode\<close>)

theorem feed_reassembles_witness:
  "feed default_codec [] [[2, 0], [0, 0, 0, 5, 0, 0], [0, 1], [], [15]] = ([Detach, Kill 15], None, [])"
  by (rule feed_reassembles)
    (simp_all add: encodable_def default_codec_def DEFAULT_MAX_FRAME_LEN_def write_header_def
      put_u32_def type_tags)

text \<open>
  A connection cut anywhere, also inside a frame, yields the messages whose frames
  arrived whole and nothing else: no error and no misparse of the incomplete frame, which is
  kept as a proper prefix of the next message's frame.
\<close>

theorem drain_cut_stream:
  assumes "\<forall>m \<in> set ms. encodable c m"
    and "prefix b (concat (map (\<lambda>m. encode m []) ms))"
  shows "\<exists>k t. drain c b = (take k ms, None, t)
    \<and> b = concat (map (\<lambda>m. encode m []) (take k ms)) @ t
    \<and> (k < length ms \<longrightarrow> strict_prefix t (encode (ms ! k) []))"
proof -
  obtain z where "b @ z = ctl.wire ms" using assms(2) by (auto simp: wire_encode prefix_def)
  with assms(1) have "\<exists>k t. drain c b = (take k ms, None, t) \<and> b = ctl.wire (take k ms) @ t
    \<and> (k < length ms \<longrightarrow> strict_prefix t (encode (ms ! k) []))" by (rule ctl.dr_cut)
  then show ?thesis by (simp only: wire_encode)
qed

theorem drain_cut_stream_witness:
  "\<exists>k t. drain default_codec [2, 0, 0, 0, 0, 5, 0, 0] = (take k [Detach, Kill 15], None, t)
    \<and> [2, 0, 0, 0, 0, 5, 0, 0] = concat (map (\<lambda>m. encode m []) (take k [Detach, Kill 15])) @ t
    \<and> (k < length [Detach, Kill 15] \<longrightarrow> strict_prefix t (encode ([Detach, Kill 15] ! k) []))"
  by (rule drain_cut_stream)
    (simp_all add: encodable_def default_codec_def DEFAULT_MAX_FRAME_LEN_def write_header_def
      put_u32_def type_tags)

end
