(* ===== verification/Unix_Path.thy ===== *)
theory Unix_Path
  imports Hytch_Prelude
begin

text \<open>
  The part of Rust's standard library the sources use on strings and paths: \<open>str::split\<close>,
  decimal printing and \<open>str::parse::<u64>\<close>, and \<open>std::path::Path\<close> on Unix
  (\<open>components\<close>, \<open>file_name\<close>, \<open>parent\<close>, \<open>join\<close>). A path is its byte string. \<open>Path\<close>
  compares by components, so \<open>components p = components q\<close> is Rust's \<open>p == q\<close>.
\<close>

section \<open>Splitting a string\<close>

fun split_on :: "'a \<Rightarrow> 'a list \<Rightarrow> 'a list list" where
  "split_on c [] = [[]]"
| "split_on c (x # xs) =
     (if x = c then [] # split_on c xs
      else (x # hd (split_on c xs)) # tl (split_on c xs))"

lemma split_on_not_Nil [simp]: "split_on c xs \<noteq> []"
  by (cases xs) auto

lemma split_on_id [simp]: "c \<notin> set xs \<Longrightarrow> split_on c xs = [xs]"
  by (induction xs) auto

lemma split_on_append [simp]: "split_on c (xs @ c # ys) = split_on c xs @ split_on c ys"
proof (induction xs)
  case (Cons x xs)
  then show ?case by (cases "split_on c xs") auto
qed simp

lemma split_on_no_sep: "s \<in> set (split_on c xs) \<Longrightarrow> c \<notin> set s"
proof (induction xs arbitrary: s)
  case (Cons x xs)
  then show ?case by (cases "split_on c xs") (auto split: if_splits)
qed simp

section \<open>Decimal numbers\<close>

definition digit_char :: "nat \<Rightarrow> char" where
  "digit_char d = char_of (48 + d)"

fun dec_string :: "nat \<Rightarrow> string" where
  "dec_string n =
     (if n < 10 then [digit_char n] else dec_string (n div 10) @ [digit_char (n mod 10)])"

declare dec_string.simps [simp del]

definition digit_val :: "char \<Rightarrow> nat option" where
  "digit_val ch = (let k = of_char ch in if 48 \<le> k \<and> k \<le> (57 :: nat) then Some (k - 48) else None)"

text \<open>\<open>parse_digits\<close> accumulates from the left and stops at the first byte that is no digit.\<close>

fun parse_digits :: "nat \<Rightarrow> string \<Rightarrow> nat option" where
  "parse_digits acc [] = Some acc"
| "parse_digits acc (ch # s) =
     (case digit_val ch of None \<Rightarrow> None | Some d \<Rightarrow> parse_digits (10 * acc + d) s)"

text \<open>
  \<open>str::parse::<u64>()\<close> and its siblings: an optional leading plus sign, at least one digit,
  digits only, and the value in range; \<open>None\<close> stands for \<open>Err\<close>.
\<close>

definition parse_uint :: "nat \<Rightarrow> string \<Rightarrow> nat option" where
  "parse_uint bits s =
     (let ds = (case s of c # t \<Rightarrow> if c = CHR ''+'' then t else s | [] \<Rightarrow> []) in
      if ds = [] then None
      else case parse_digits 0 ds of
             None \<Rightarrow> None
           | Some n \<Rightarrow> if n < 2 ^ bits then Some n else None)"

lemma digit_val_char [simp]: "d < 10 \<Longrightarrow> digit_val (digit_char d) = Some d"
  by (simp add: digit_val_def digit_char_def Let_def)

lemma digit_char_not_plus: "d < 10 \<Longrightarrow> digit_char d \<noteq> CHR ''+''"
proof
  assume d: "d < 10" and "digit_char d = CHR ''+''"
  then have "digit_val (CHR ''+'') = Some d" by (metis digit_val_char)
  then show False by (simp add: digit_val_def Let_def)
qed

lemma dec_string_not_Nil [simp]: "dec_string n \<noteq> []"
  by (subst dec_string.simps) simp

lemma parse_digits_append:
  "parse_digits acc (xs @ ys) =
    (case parse_digits acc xs of None \<Rightarrow> None | Some a \<Rightarrow> parse_digits a ys)"
  by (induction xs arbitrary: acc) (auto split: option.splits)

lemma parse_dec_string [simp]: "parse_digits 0 (dec_string n) = Some n"
proof (induction n rule: dec_string.induct)
  case (1 n)
  show ?case
  proof (cases "n < 10")
    case True
    then show ?thesis by (subst dec_string.simps) simp
  next
    case False
    with 1 show ?thesis by (subst dec_string.simps) (simp add: parse_digits_append)
  qed
qed

lemma hd_dec_string: "\<exists>d < 10. hd (dec_string n) = digit_char d"
proof (induction n rule: dec_string.induct)
  case (1 n)
  show ?case
  proof (cases "n < 10")
    case True
    then show ?thesis by (subst dec_string.simps) auto
  next
    case False
    with 1 show ?thesis by (subst dec_string.simps) simp
  qed
qed

lemma parse_uint_dec:
  assumes "n < 2 ^ bits"
  shows "parse_uint bits (dec_string n) = Some n"
proof -
  obtain ch t where ct: "dec_string n = ch # t" by (cases "dec_string n") simp_all
  have "ch \<noteq> CHR ''+''" using hd_dec_string [of n] digit_char_not_plus ct by auto
  then show ?thesis using assms parse_dec_string [of n] by (simp add: parse_uint_def ct)
qed

lemma dec_string_inj: "dec_string m = dec_string n \<Longrightarrow> m = n"
  by (metis option.inject parse_dec_string)

section \<open>Components of a path\<close>

datatype component = RootDir | CurDir | ParentDir | Normal string

abbreviation sep :: char where "sep \<equiv> CHR ''/''"

definition has_root :: "string \<Rightarrow> bool" where
  "has_root p = (case p of c # _ \<Rightarrow> c = sep | [] \<Rightarrow> False)"

text \<open>A leading \<open>.\<close> component is the one \<open>.\<close> that counts.\<close>

definition include_cur_dir :: "string \<Rightarrow> bool" where
  "include_cur_dir p =
     (case p of
        [] \<Rightarrow> False
      | [c] \<Rightarrow> c = CHR ''.''
      | c # d # _ \<Rightarrow> c = CHR ''.'' \<and> d = sep)"

definition start_len :: "string \<Rightarrow> nat" where
  "start_len p = (if has_root p then 1 else 0) + (if include_cur_dir p then 1 else 0)"

definition parse_single_component :: "string \<Rightarrow> component option" where
  "parse_single_component seg =
     (if seg = ''.'' then None
      else if seg = ''..'' then Some ParentDir
      else if seg = [] then None
      else Some (Normal seg))"

definition seg_comps :: "string list \<Rightarrow> component list" where
  "seg_comps segs = concat (map (\<lambda>s. case parse_single_component s of None \<Rightarrow> [] | Some c \<Rightarrow> [c]) segs)"

definition body_comps :: "string \<Rightarrow> component list" where
  "body_comps b = seg_comps (split_on sep b)"

definition components :: "string \<Rightarrow> component list" where
  "components p =
     (if has_root p then [RootDir] else []) @ (if include_cur_dir p then [CurDir] else []) @
     body_comps (drop (start_len p) p)"

section \<open>The last component, the parent, joining\<close>

text \<open>The bytes after the last separator, and those before it.\<close>

definition last_seg :: "string \<Rightarrow> string" where
  "last_seg b = rev (takeWhile (\<lambda>c. c \<noteq> sep) (rev b))"

definition before_last :: "string \<Rightarrow> string" where
  "before_last b = take (length b - length (last_seg b) - 1) b"

lemma last_seg_no_sep: "sep \<notin> set (last_seg b)"
  by (auto simp: last_seg_def dest: set_takeWhileD)

lemma last_seg_whole: "sep \<notin> set b \<Longrightarrow> last_seg b = b"
  unfolding last_seg_def by (subst takeWhile_eq_all_conv [THEN iffD2]) auto

lemma before_last_whole: "sep \<notin> set b \<Longrightarrow> before_last b = []"
  by (simp add: before_last_def last_seg_whole)

lemma last_seg_split: "sep \<in> set b \<Longrightarrow> b = before_last b @ sep # last_seg b"
proof -
  assume "sep \<in> set b"
  then obtain xs ys where b: "b = xs @ sep # ys" "sep \<notin> set ys"
    by (metis split_list_last)
  then have "last_seg b = ys"
    unfolding last_seg_def by (simp add: takeWhile_append)
  with b show "b = before_last b @ sep # last_seg b" by (simp add: before_last_def)
qed

lemma length_before_last: "b \<noteq> [] \<Longrightarrow> length (before_last b) < length b"
  by (cases b) (auto simp: before_last_def)

text \<open>
  \<open>next_back_body\<close> is \<open>Components::next_back\<close> while it is in the body: it drops empty and
  \<open>.\<close> components and returns the last other one. \<open>trim_right\<close> is what \<open>as_path\<close> does.
\<close>

function next_back_body :: "string \<Rightarrow> string \<times> component option" where
  "next_back_body b =
     (if b = [] then ([], None)
      else case parse_single_component (last_seg b) of
             Some c \<Rightarrow> (before_last b, Some c)
           | None \<Rightarrow> next_back_body (before_last b))"
  by pat_completeness auto
termination
  by (relation "measure length") (auto dest: length_before_last)

function trim_right :: "string \<Rightarrow> string" where
  "trim_right b =
     (if b = [] then []
      else case parse_single_component (last_seg b) of
             Some _ \<Rightarrow> b
           | None \<Rightarrow> trim_right (before_last b))"
  by pat_completeness auto
termination
  by (relation "measure length") (auto dest: length_before_last)

declare next_back_body.simps [simp del] trim_right.simps [simp del]

definition path_parent :: "string \<Rightarrow> string option" where
  "path_parent p =
     (case next_back_body (drop (start_len p) p) of
        (rest, Some _) \<Rightarrow> Some (take (start_len p) p @ trim_right rest)
      | (_, None) \<Rightarrow> if has_root p then None else if include_cur_dir p then Some [] else None)"

definition path_file_name :: "string \<Rightarrow> string option" where
  "path_file_name p =
     (case next_back_body (drop (start_len p) p) of
        (_, Some (Normal n)) \<Rightarrow> Some n
      | _ \<Rightarrow> None)"

definition path_join :: "string \<Rightarrow> string \<Rightarrow> string" where
  "path_join d p =
     (if has_root p then p
      else if d \<noteq> [] \<and> last d \<noteq> sep then d @ sep # p
      else d @ p)"

section \<open>Components of composed paths\<close>

lemma seg_comps_simps [simp]:
  "seg_comps [] = []"
  "seg_comps (s # ss) =
    (case parse_single_component s of None \<Rightarrow> [] | Some c \<Rightarrow> [c]) @ seg_comps ss"
  by (simp_all add: seg_comps_def)

lemma seg_comps_append [simp]: "seg_comps (xs @ ys) = seg_comps xs @ seg_comps ys"
  by (simp add: seg_comps_def)

lemma parse_empty [simp]: "parse_single_component [] = None"
  by (simp add: parse_single_component_def)

lemma body_comps_Nil [simp]: "body_comps [] = []"
  by (simp add: body_comps_def)

lemma body_comps_append [simp]: "body_comps (x @ sep # y) = body_comps x @ body_comps y"
  by (simp add: body_comps_def)

lemma body_comps_sep [simp]: "body_comps (sep # y) = body_comps y"
  using body_comps_append [of "[]" y] by simp

lemma body_comps_seg: "sep \<notin> set s \<Longrightarrow>
    body_comps s = (case parse_single_component s of None \<Rightarrow> [] | Some c \<Rightarrow> [c])"
  by (simp add: body_comps_def)

lemma body_comps_last:
  "body_comps b = body_comps (before_last b) @ body_comps (last_seg b)"
proof (cases "sep \<in> set b")
  case True
  then show ?thesis using body_comps_append [of "before_last b" "last_seg b"] last_seg_split by simp
qed (simp add: last_seg_whole before_last_whole)

lemma body_comps_last_seg:
  "body_comps (last_seg b) = (case parse_single_component (last_seg b) of None \<Rightarrow> [] | Some c \<Rightarrow> [c])"
  by (simp add: body_comps_seg last_seg_no_sep)

text \<open>Cut points: a body is cut only at a separator.\<close>

definition cut_at_sep :: "string \<Rightarrow> string \<Rightarrow> bool" where
  "cut_at_sep r b \<longleftrightarrow> (\<exists>z. b = r @ z \<and> (r = [] \<or> z = [] \<or> hd z = sep))"

lemma cut_at_sep_refl [simp]: "cut_at_sep b b"
  by (auto simp: cut_at_sep_def)

lemma cut_at_sep_Nil [simp]: "cut_at_sep [] b"
  by (simp add: cut_at_sep_def)

lemma cut_before_last: "cut_at_sep (before_last b) b"
proof (cases "sep \<in> set b")
  case True
  then show ?thesis using last_seg_split [of b] unfolding cut_at_sep_def by (metis list.sel(1))
qed (simp add: before_last_whole)

lemma cut_at_sep_trans: "cut_at_sep r s \<Longrightarrow> cut_at_sep s b \<Longrightarrow> cut_at_sep r b"
  unfolding cut_at_sep_def by (metis append.assoc append_Nil hd_append2 append_is_Nil_conv)

lemma next_back_body_Some:
  "next_back_body b = (rest, Some c) \<Longrightarrow>
    body_comps b = body_comps rest @ [c] \<and> cut_at_sep rest b \<and>
    (\<exists>s. sep \<notin> set s \<and> parse_single_component s = Some c)"
proof (induction b rule: next_back_body.induct)
  case (1 b)
  show ?case
  proof (cases "parse_single_component (last_seg b)")
    case None
    then show ?thesis using 1 cut_before_last [of b] body_comps_last [of b] body_comps_last_seg [of b]
      by (auto simp: next_back_body.simps [of b] split: if_splits intro: cut_at_sep_trans)
  next
    case (Some d)
    then show ?thesis using 1(2) cut_before_last [of b] body_comps_last [of b]
        body_comps_last_seg [of b] last_seg_no_sep [of b]
      by (auto simp: next_back_body.simps [of b] split: if_splits)
  qed
qed

lemma next_back_body_None: "next_back_body b = (rest, None) \<Longrightarrow> body_comps b = []"
proof (induction b rule: next_back_body.induct)
  case (1 b)
  then show ?case using body_comps_last [of b] body_comps_last_seg [of b]
    by (auto simp: next_back_body.simps [of b] split: if_splits option.splits)
qed

lemma trim_right_props:
  "body_comps (trim_right b) = body_comps b \<and> cut_at_sep (trim_right b) b"
proof (induction b rule: trim_right.induct)
  case (1 b)
  then show ?case using body_comps_last [of b] body_comps_last_seg [of b] cut_before_last [of b]
    by (auto simp: trim_right.simps [of b] split: option.splits intro: cut_at_sep_trans)
qed

lemma start_same:
  assumes "d \<noteq> []" and "z = [] \<or> hd z = sep \<or> last d = sep"
  shows "has_root (d @ z) = has_root d" "include_cur_dir (d @ z) = include_cur_dir d"
    "start_len (d @ z) = start_len d"
proof -
  obtain x d' where d: "d = x # d'" using assms(1) by (cases d) auto
  show r: "has_root (d @ z) = has_root d" by (simp add: d has_root_def)
  show i: "include_cur_dir (d @ z) = include_cur_dir d"
    using assms(2) by (cases d'; cases z) (auto simp: d include_cur_dir_def)
  show "start_len (d @ z) = start_len d" by (simp add: start_len_def r i)
qed

lemma start_len_le: "start_len p \<le> length p"
  by (cases p) (auto simp: start_len_def has_root_def include_cur_dir_def split: list.splits)

lemma has_root_no_cur: "has_root p \<Longrightarrow> \<not> include_cur_dir p"
  by (auto simp: has_root_def include_cur_dir_def split: list.splits)

lemma components_cut:
  assumes "d \<noteq> []" and "z = [] \<or> hd z = sep \<or> last d = sep"
  shows "components (d @ z) =
    (if has_root d then [RootDir] else []) @ (if include_cur_dir d then [CurDir] else []) @
    body_comps (drop (start_len d) d @ z)"
  using start_same [OF assms] start_len_le [of d] by (simp add: components_def)

text \<open>Joining a single normal component appends it.\<close>

lemma components_join:
  assumes n: "sep \<notin> set n" "parse_single_component n = Some (Normal n)"
  shows "components (path_join d n) = components d @ [Normal n]"
proof -
  have nn: "n \<noteq> []" "n \<noteq> ''.''" using n(2) by (auto simp: parse_single_component_def split: if_splits)
  have nr: "\<not> has_root n" using n(1) by (auto simp: has_root_def split: list.splits)
  have ni: "\<not> include_cur_dir n" using n(1) nn by (auto simp: include_cur_dir_def split: list.splits)
  have bn: "body_comps n = [Normal n]" using n by (simp add: body_comps_seg)
  consider "d = []" | "d \<noteq> []" "last d \<noteq> sep" | "d \<noteq> []" "last d = sep" by blast
  then show ?thesis
  proof cases
    case 1
    then show ?thesis using nr ni bn
      by (simp add: path_join_def components_def start_len_def)
        (simp add: has_root_def include_cur_dir_def)
  next
    case 2
    then have "path_join d n = d @ sep # n" using nr by (simp add: path_join_def)
    then show ?thesis using 2 components_cut [of d "sep # n"] bn by (simp add: components_def)
  next
    case 3
    then have j: "path_join d n = d @ n" using nr by (simp add: path_join_def)
    have "body_comps (drop (start_len d) d @ n) = body_comps (drop (start_len d) d) @ [Normal n]"
    proof (cases "drop (start_len d) d = []")
      case False
      then obtain b where "drop (start_len d) d = b @ [sep]"
        using 3 by (metis append_butlast_last_id last_drop drop_eq_Nil not_le)
      then show ?thesis using bn by (simp only: append.assoc append.simps body_comps_append body_comps_Nil append_Nil2)
    qed (simp add: bn)
    then show ?thesis using 3 j components_cut [of d n] by (simp add: components_def)
  qed
qed

text \<open>Parent and file name together are the whole path.\<close>

lemma parent_file_name:
  assumes "path_parent p = Some d" and "path_file_name p = Some n"
  shows "components p = components d @ [Normal n]"
    and "sep \<notin> set n" and "parse_single_component n = Some (Normal n)"
proof -
  let ?k = "start_len p"
  obtain rest where nb: "next_back_body (drop ?k p) = (rest, Some (Normal n))"
    using assms(2) by (auto simp: path_file_name_def split: prod.splits option.splits component.splits)
  from next_back_body_Some [OF nb]
  have bc: "body_comps (drop ?k p) = body_comps rest @ [Normal n]" "cut_at_sep rest (drop ?k p)"
    and s: "\<exists>s. sep \<notin> set s \<and> parse_single_component s = Some (Normal n)" by blast+
  from s show "sep \<notin> set n" "parse_single_component n = Some (Normal n)"
    by (auto simp: parse_single_component_def split: if_splits)
  have d: "d = take ?k p @ trim_right rest" using assms(1) nb by (simp add: path_parent_def)
  obtain z where z: "drop ?k p = trim_right rest @ z"
    "trim_right rest = [] \<or> z = [] \<or> hd z = sep"
    using trim_right_props [of rest] bc(2) cut_at_sep_trans unfolding cut_at_sep_def by blast
  have p: "p = d @ z" using append_take_drop_id [of ?k p] by (simp add: d z(1))
  have "has_root d = has_root p \<and> include_cur_dir d = include_cur_dir p \<and> start_len d = ?k"
  proof (cases "d = []")
    case True
    then have "?k = 0 \<or> p = []" by (simp add: d)
    then have "?k = 0" using start_len_le [of p] by auto
    then show ?thesis using True by (auto simp: start_len_def has_root_def include_cur_dir_def split: if_splits)
  next
    case False
    show ?thesis
    proof (cases "trim_right rest = []")
      case True
      then have "d = take ?k p" by (simp add: d)
      then have "?k \<noteq> 0" using False by auto
      then have k1: "?k = 1" "has_root p \<or> include_cur_dir p"
        using has_root_no_cur [of p] by (auto simp: start_len_def split: if_splits)
      then show ?thesis using \<open>d = take ?k p\<close>
        by (cases p) (auto simp: start_len_def has_root_def include_cur_dir_def split: list.splits)
    next
      case nt: False
      then have "z = [] \<or> hd z = sep \<or> last d = sep" using z(2) by blast
      from start_same [OF False this] show ?thesis by (simp add: p)
    qed
  qed
  then show "components p = components d @ [Normal n]"
    using bc(1) trim_right_props [of rest] start_len_le [of p]
    by (simp add: components_def d)
qed

lemma file_name_bounds: "path_file_name p = Some n \<Longrightarrow> path_parent p \<noteq> None"
  by (auto simp: path_file_name_def path_parent_def split: prod.splits option.splits)

end
