(* ===== verification/Session.thy ===== *)
theory Session
  imports Unix_Path
begin

text \<open>
  Session naming (crates/session/src/lib.rs) and the log path derived from a socket path
  (crates/cli/src/paths.rs): how a session name becomes a socket path, the ancestry chain in
  \<open>HYTCH_SESSION\<close> and the \<open>AF_UNIX\<close> length workaround. Paths are UTF-8 strings here (they
  come from command-line arguments and \<open>$HOME\<close>), so \<open>to_string_lossy\<close> is the identity.
\<close>

section \<open>Where sockets live\<close>

definition SESSION_ENVVAR :: string where "SESSION_ENVVAR = ''HYTCH_SESSION''"

definition usable_home :: "string option \<Rightarrow> string option" where
  "usable_home h =
     (case h of None \<Rightarrow> None | Some s \<Rightarrow> if s \<noteq> [] \<and> s \<noteq> ''/'' then Some s else None)"

definition resolve_session_dir :: "string option \<Rightarrow> string option \<Rightarrow> string \<Rightarrow> u32 \<Rightarrow> string" where
  "resolve_session_dir env_home passwd_home prog_basename uid =
     (case (case usable_home env_home of Some h \<Rightarrow> Some h | None \<Rightarrow> usable_home passwd_home) of
        Some home \<Rightarrow> home @ ''/.cache/'' @ prog_basename
      | None \<Rightarrow> ''/tmp/.'' @ prog_basename @ ''-'' @ dec_string (unat uid))"

definition resolve_socket_path :: "string \<Rightarrow> string \<Rightarrow> string" where
  "resolve_socket_path name session_dir =
     (if sep \<in> set name then name else path_join session_dir name)"

definition is_valid_bare_name :: "string \<Rightarrow> bool" where
  "is_valid_bare_name name \<longleftrightarrow>
     name \<noteq> [] \<and> name \<noteq> ''.'' \<and> name \<noteq> ''..'' \<and> sep \<notin> set name"

text \<open>The log of a session lies beside its socket (\<open>paths::log_path_for\<close>).\<close>

definition log_path_for :: "string \<Rightarrow> string" where
  "log_path_for socket_path = socket_path @ ''.log''"

section \<open>The ancestry chain\<close>

definition nonempty :: "string option \<Rightarrow> string option" where
  "nonempty c = (case c of None \<Rightarrow> None | Some s \<Rightarrow> if s \<noteq> [] then Some s else None)"

definition extend_ancestry :: "string option \<Rightarrow> string \<Rightarrow> string" where
  "extend_ancestry current new_socket_path =
     (case nonempty current of
        Some chain \<Rightarrow> chain @ '':'' @ new_socket_path
      | None \<Rightarrow> new_socket_path)"

definition ancestry_contains :: "string option \<Rightarrow> string \<Rightarrow> bool" where
  "ancestry_contains chain target =
     (case nonempty chain of
        Some c \<Rightarrow> list_ex (\<lambda>segment. segment = target) (split_on (CHR '':'') c)
      | None \<Rightarrow> False)"

fun join_strings :: "string \<Rightarrow> string list \<Rightarrow> string" where
  "join_strings sp [] = []"
| "join_strings sp [s] = s"
| "join_strings sp (s # ss) = s @ sp @ join_strings sp ss"

definition short_name :: "string \<Rightarrow> string" where
  "short_name chain =
     join_strings '' > ''
       (map (\<lambda>path. case path_file_name path of Some n \<Rightarrow> n | None \<Rightarrow> path)
          (split_on (CHR '':'') chain))"

section \<open>The length limit of a socket address\<close>

definition MAX_SOCKET_PATH_LEN :: nat where "MAX_SOCKET_PATH_LEN = 107"

definition shorten_for_unix_socket :: "string \<Rightarrow> (string \<times> string) option" where
  "shorten_for_unix_socket path =
     (if length path \<le> MAX_SOCKET_PATH_LEN then None
      else case path_parent path of
             None \<Rightarrow> None
           | Some parent \<Rightarrow>
               (case path_file_name path of
                  None \<Rightarrow> None
                | Some name \<Rightarrow> Some (parent, name)))"

section \<open>Lemmas\<close>

lemmas session_defs [model_defs] =
  usable_home_def resolve_session_dir_def resolve_socket_path_def is_valid_bare_name_def
  log_path_for_def nonempty_def extend_ancestry_def ancestry_contains_def short_name_def
  shorten_for_unix_socket_def

lemma nonempty_Some [simp]: "nonempty (Some s) = (if s = [] then None else Some s)"
  by (simp add: nonempty_def)

lemma nonempty_None [simp]: "nonempty None = None"
  by (simp add: nonempty_def)

lemma valid_name_component:
  "is_valid_bare_name n \<Longrightarrow> sep \<notin> set n \<and> parse_single_component n = Some (Normal n)"
  by (simp add: is_valid_bare_name_def parse_single_component_def)

lemma resolve_valid:
  "is_valid_bare_name n \<Longrightarrow> components (resolve_socket_path n d) = components d @ [Normal n]"
  using valid_name_component [of n] by (simp add: resolve_socket_path_def components_join)

lemma ancestry_contains_Some:
  "ancestry_contains (Some c) t \<longleftrightarrow> c \<noteq> [] \<and> t \<in> set (split_on (CHR '':'') c)"
  by (auto simp: ancestry_contains_def list_ex_iff)

lemma ancestry_contains_extend:
  assumes "CHR '':'' \<notin> set p" and "p \<noteq> []"
  shows "ancestry_contains (Some (extend_ancestry chain p)) q \<longleftrightarrow> q = p \<or> ancestry_contains chain q"
  using assms
  by (cases chain) (auto simp: extend_ancestry_def ancestry_contains_Some ancestry_contains_def)

lemma ancestry_no_colon: "ancestry_contains chain q \<Longrightarrow> CHR '':'' \<notin> set q"
  by (cases chain) (auto simp: ancestry_contains_Some dest: split_on_no_sep, simp add: ancestry_contains_def)

section \<open>Nested sessions\<close>

text \<open>
  The chain a child sees after daemons with sockets \<open>ps\<close> were started each inside the last:
  every daemon extends the value it inherits.
\<close>

fun nested_chain :: "string option \<Rightarrow> string list \<Rightarrow> string option" where
  "nested_chain c [] = c"
| "nested_chain c (p # ps) = nested_chain (Some (extend_ancestry c p)) ps"

lemma nested_chain_contains:
  assumes "\<forall>p \<in> set ps. p \<noteq> [] \<and> CHR '':'' \<notin> set p"
  shows "ancestry_contains (nested_chain c ps) q \<longleftrightarrow> q \<in> set ps \<or> ancestry_contains c q"
  using assms
proof (induction ps arbitrary: c)
  case (Cons p ps)
  then have "ancestry_contains (Some (extend_ancestry c p)) q \<longleftrightarrow> q = p \<or> ancestry_contains c q"
    by (simp add: ancestry_contains_extend)
  with Cons show ?case by auto
qed simp

lemma join_log:
  assumes "n \<noteq> []"
  shows "path_join d (n @ e) = path_join d n @ e"
proof -
  have "has_root (n @ e) = has_root n" using assms by (cases n) (simp_all add: has_root_def)
  then show ?thesis by (simp add: path_join_def)
qed

lemma valid_log_name: "is_valid_bare_name n \<Longrightarrow> is_valid_bare_name (n @ ''.log'')"
  by (auto simp: is_valid_bare_name_def)

section \<open>Properties\<close>

text \<open>
  A valid bare name is a fresh entry of the session directory: its socket path has
  the directory's components and then the name itself, so it never escapes or names the
  directory, and different valid names never share a socket.
\<close>

theorem bare_name_is_entry:
  assumes "is_valid_bare_name name"
  shows "components (resolve_socket_path name dir) = components dir @ [Normal name]
    \<and> (is_valid_bare_name other \<longrightarrow>
        components (resolve_socket_path other dir) = components (resolve_socket_path name dir) \<longrightarrow>
        other = name)"
  using assms by (simp_all add: resolve_valid)

theorem bare_name_is_entry_witness:
  "components (resolve_socket_path ''work'' ''/home/x//'') = components ''/home/x//'' @ [Normal ''work'']
   \<and> components (resolve_socket_path ''..'' ''/home/x'') = components ''/home/x'' @ [ParentDir]"
proof
  show "components (resolve_socket_path ''work'' ''/home/x//'') =
      components ''/home/x//'' @ [Normal ''work'']"
    using bare_name_is_entry [of "''work''" "''/home/x//''"] by (simp add: is_valid_bare_name_def)
  show "components (resolve_socket_path ''..'' ''/home/x'') = components ''/home/x'' @ [ParentDir]"
    by code_simp
qed

text \<open>
  The \<open>AF_UNIX\<close> workaround names the same file: when a path is too long for a
  socket address, changing into the returned directory and using the returned relative name
  leads to the same path (same components), the name is one plain component, and a path that
  fits is never touched.
\<close>

theorem shorten_same_file:
  assumes "shorten_for_unix_socket path = Some (dir, name)"
  shows "components (path_join dir name) = components path
    \<and> sep \<notin> set name \<and> 107 < length path"
proof (intro conjI)
  have h: "\<not> length path \<le> 107" "path_parent path = Some dir" "path_file_name path = Some name"
    using assms
    by (auto simp: shorten_for_unix_socket_def MAX_SOCKET_PATH_LEN_def split: if_splits option.splits)
  show "components (path_join dir name) = components path"
    using parent_file_name [OF h(2,3)] components_join by simp
  show "sep \<notin> set name" using parent_file_name(2) [OF h(2,3)] .
  show "107 < length path" using h(1) by simp
qed

theorem shorten_same_file_witness:
  "components (path_join (''/'' @ replicate 110 (CHR ''x'')) ''work'')
     = components (''/'' @ replicate 110 (CHR ''x'') @ ''//work/.'')
   \<and> sep \<notin> set ''work'' \<and> 107 < length (''/'' @ replicate 110 (CHR ''x'') @ ''//work/.'')"
proof (rule shorten_same_file)
  show "shorten_for_unix_socket (''/'' @ replicate 110 (CHR ''x'') @ ''//work/.'') =
      Some (''/'' @ replicate 110 (CHR ''x''), ''work'')"
    by code_simp
qed

text \<open>
  Property C39. The self-attach guard on paths without a colon: after any nesting of daemons the
  chain contains exactly the sockets of the sessions one is inside of, wherever in the chain,
  so direct self-attach and indirect loops are both caught and nothing else is refused.
\<close>

theorem ancestry_guard_exact:
  assumes "\<forall>p \<in> set ps. p \<noteq> [] \<and> CHR '':'' \<notin> set p"
  shows "ancestry_contains (nested_chain None ps) target \<longleftrightarrow> target \<in> set ps"
  using nested_chain_contains [OF assms, of None target] by (simp add: ancestry_contains_def)

theorem ancestry_guard_exact_witness:
  "ancestry_contains (nested_chain None [''/s/a'', ''/s/ab'']) ''/s/a''
     \<longleftrightarrow> ''/s/a'' \<in> set [''/s/a'', ''/s/ab'']"
  by (rule ancestry_guard_exact) simp

text \<open>
  The guard cannot see a socket path that holds a colon: the chain is split at
  colons, so no such path is ever one of its segments, also when the session one is inside of
  has just put it there. Colons are allowed in session names.
\<close>

theorem ancestry_guard_misses_colon:
  assumes "CHR '':'' \<in> set target"
  shows "\<not> ancestry_contains (Some (extend_ancestry chain target)) target"
  using assms ancestry_no_colon by blast

theorem ancestry_guard_misses_colon_witness:
  "is_valid_bare_name ''a:b''
   \<and> \<not> ancestry_contains (Some (extend_ancestry None (resolve_socket_path ''a:b'' ''/s'')))
        (resolve_socket_path ''a:b'' ''/s'')"
proof
  show "is_valid_bare_name ''a:b''" by (simp add: is_valid_bare_name_def)
  show "\<not> ancestry_contains (Some (extend_ancestry None (resolve_socket_path ''a:b'' ''/s'')))
        (resolve_socket_path ''a:b'' ''/s'')"
    by (rule ancestry_guard_misses_colon) (simp add: resolve_socket_path_def path_join_def has_root_def)
qed

text \<open>
  The log of a session and the socket of the session named after it with
  \<open>.log\<close> appended are the same path, and the longer name is valid whenever the shorter is.
\<close>

theorem log_is_a_socket_path:
  assumes "is_valid_bare_name name"
  shows "is_valid_bare_name (name @ ''.log'')
    \<and> resolve_socket_path (name @ ''.log'') dir = log_path_for (resolve_socket_path name dir)"
  using assms valid_log_name join_log [of name dir "''.log''"]
  by (simp_all add: resolve_socket_path_def log_path_for_def is_valid_bare_name_def)

theorem log_is_a_socket_path_witness:
  "is_valid_bare_name (''work'' @ ''.log'')
   \<and> resolve_socket_path (''work'' @ ''.log'') ''/s'' = log_path_for (resolve_socket_path ''work'' ''/s'')"
  by (rule log_is_a_socket_path) (simp add: is_valid_bare_name_def)

end
