(* ===== verification/Ring_Buffer.thy ===== *)
theory Ring_Buffer
  imports Hytch_Prelude
begin

text \<open>
  The scrollback ring buffer, crates/daemon/src/ring_buffer.rs: the structure, its operations
  with every slice access that could panic, and the proof that it is the list of the last
  \<open>capacity\<close> bytes appended. Indices are natural numbers: \<open>ring_index_bounds\<close> shows that no sum
  the code forms exceeds twice the capacity, which a \<open>usize\<close> holds.
\<close>

section \<open>The structure and its operations\<close>

fun is_power_of_two :: "nat \<Rightarrow> bool" where
  "is_power_of_two n = (if n \<le> 1 then n = 1 else if even n then is_power_of_two (n div 2) else False)"

declare is_power_of_two.simps [simp del]

record RingBuffer =
  buf :: bytes
  head :: nat
  len :: nat

definition new_ring :: "nat \<Rightarrow> RingBuffer option" where
  "new_ring capacity =
     (if is_power_of_two capacity
      then Some \<lparr>buf = replicate capacity 0, head = 0, len = 0\<rparr> else None)"

definition capacity :: "RingBuffer \<Rightarrow> nat" where
  "capacity r = length (buf r)"

definition ring_len :: "RingBuffer \<Rightarrow> nat" where
  "ring_len r = len r"

definition ring_is_empty :: "RingBuffer \<Rightarrow> bool" where
  "ring_is_empty r \<longleftrightarrow> len r = 0"

definition ring_append :: "RingBuffer \<Rightarrow> bytes \<Rightarrow> RingBuffer option" where
  "ring_append r dat =
     (if dat = [] then Some r
      else
        let cap = capacity r;
            mask = cap - 1;
            d = (if length dat \<ge> cap then drop (length dat - cap) dat else dat);
            write_pos = (head r + len r) AND mask;
            first_len = min (cap - write_pos) (length d)
        in case copy_from_slice (buf r) write_pos (write_pos + first_len) (take first_len d) of
             None \<Rightarrow> None
           | Some b1 \<Rightarrow>
               (case (if first_len < length d
                      then copy_from_slice b1 0 (length (drop first_len d)) (drop first_len d)
                      else Some b1) of
                  None \<Rightarrow> None
                | Some b2 \<Rightarrow>
                    (let new_total = len r + length d
                     in if new_total > cap
                        then Some (r\<lparr>buf := b2, head := (write_pos + length d) AND mask, len := cap\<rparr>)
                        else Some (r\<lparr>buf := b2, len := new_total\<rparr>))))"

definition snapshot :: "RingBuffer \<Rightarrow> bytes option" where
  "snapshot r =
     (let mask = capacity r - 1
      in those (map (\<lambda>i. index (buf r) ((head r + i) AND mask)) [0..<len r]))"

section \<open>Invariant and contents\<close>

definition ring_wf :: "RingBuffer \<Rightarrow> bool" where
  "ring_wf r \<longleftrightarrow> is_power_of_two (capacity r) \<and> head r < capacity r \<and> len r \<le> capacity r"

definition contents :: "RingBuffer \<Rightarrow> bytes" where
  "contents r = map (\<lambda>i. buf r ! ((head r + i) mod capacity r)) [0..<len r]"

lemma length_contents [simp]: "length (contents r) = len r"
  by (simp add: contents_def)

lemma is_power_of_two_iff: "is_power_of_two n \<longleftrightarrow> (\<exists>k. n = 2 ^ k)"
proof (induction n rule: is_power_of_two.induct)
  case (1 n)
  show ?case
  proof
    assume "is_power_of_two n"
    then consider "n = 1" | "1 < n" "even n" "is_power_of_two (n div 2)"
      by (auto simp: is_power_of_two.simps [of n] split: if_splits)
    then show "\<exists>k. n = 2 ^ k"
    proof cases
      case 1
      then show ?thesis by (intro exI [of _ 0]) simp
    next
      case 2
      then obtain k where "n div 2 = 2 ^ k" using "1.IH" by auto
      with 2 show ?thesis by (intro exI [of _ "Suc k"]) auto
    qed
  next
    assume "\<exists>k. n = 2 ^ k"
    then obtain k where k: "n = 2 ^ k" by blast
    show "is_power_of_two n"
    proof (cases k)
      case 0
      then show ?thesis by (simp add: k is_power_of_two.simps [of "Suc 0"])
    next
      case (Suc j)
      have "1 < n" unfolding k Suc by (rule one_less_power) simp_all
      moreover have "even n" "n div 2 = 2 ^ j" by (simp_all add: k Suc)
      ultimately show ?thesis using "1.IH" by (auto simp: is_power_of_two.simps [of n])
    qed
  qed
qed

lemma and_mask_mod: "is_power_of_two c \<Longrightarrow> (n AND (c - 1)) = n mod c"
  for n c :: nat
  by (auto simp: is_power_of_two_iff take_bit_eq_mod [symmetric] take_bit_eq_mask mask_eq_exp_minus_1)

lemma power_pos: "is_power_of_two c \<Longrightarrow> 0 < c"
  by (auto simp: is_power_of_two_iff)

lemma snapshot_contents:
  assumes "ring_wf r"
  shows "snapshot r = Some (contents r)"
proof -
  have c: "is_power_of_two (capacity r)" "len r \<le> capacity r" using assms by (simp_all add: ring_wf_def)
  have "index (buf r) ((head r + i) AND (capacity r - 1)) =
      Some (buf r ! ((head r + i) mod capacity r))" if "i \<in> set [0..<len r]" for i
    unfolding and_mask_mod [OF c(1)] using power_pos [OF c(1)]
    by (simp add: index_def capacity_def)
  then show ?thesis unfolding snapshot_def contents_def Let_def by (rule those_map_Some)
qed

section \<open>Writing around the end of the array\<close>

text \<open>The two slice copies together: the array with \<open>d\<close> written from \<open>w\<close> on, modulo its size.\<close>

definition wrap_write :: "'a list \<Rightarrow> nat \<Rightarrow> 'a list \<Rightarrow> 'a list" where
  "wrap_write b w d =
     (let n = min (length b - w) (length d);
          b1 = take w b @ take n d @ drop (w + n) b
      in if n < length d then drop n d @ drop (length d - n) b1 else b1)"

lemma length_wrap_write [simp]:
  "w < length b \<Longrightarrow> length d \<le> length b \<Longrightarrow> length (wrap_write b w d) = length b"
  by (auto simp: wrap_write_def Let_def)

lemma mod_once: "w < c \<Longrightarrow> i < c \<Longrightarrow> (w + i) mod c = (if w + i < c then w + i else w + i - c)"
  for w i c :: nat
  by (simp add: mod_if)

lemma nth_wrap_write:
  assumes "w < length b" and "length d \<le> length b" and "i < length b"
  shows "wrap_write b w d ! ((w + i) mod length b) =
    (if i < length d then d ! i else b ! ((w + i) mod length b))"
proof (cases "length d \<le> length b - w")
  case True
  then have "wrap_write b w d = take w b @ d @ drop (w + length d) b"
    by (simp add: wrap_write_def)
  then show ?thesis using assms True
    by (auto simp: mod_once nth_append)
next
  case False
  let ?n = "length b - w"
  have "wrap_write b w d = drop ?n d @ drop (length d - ?n) (take w b @ take ?n d)"
    using False assms by (simp add: wrap_write_def Let_def)
  then show ?thesis using assms False
    by (auto simp: mod_once nth_append)
qed

section \<open>Appending keeps the tail\<close>

text \<open>\<open>ring_append\<close> never panics on a well-formed ring; this is what it computes.\<close>

definition kept :: "nat \<Rightarrow> bytes \<Rightarrow> bytes" where
  "kept cap dat = (if length dat \<ge> cap then drop (length dat - cap) dat else dat)"

definition appended :: "RingBuffer \<Rightarrow> bytes \<Rightarrow> RingBuffer" where
  "appended r d =
     (let cap = capacity r; w = (head r + len r) mod cap; b = wrap_write (buf r) w d in
      if len r + length d > cap
      then r\<lparr>buf := b, head := (w + length d) mod cap, len := cap\<rparr>
      else r\<lparr>buf := b, len := len r + length d\<rparr>)"

lemma length_kept: "length (kept cap dat) = min cap (length dat)"
  by (auto simp: kept_def)

lemma copies_wrap_write:
  assumes "w < length b" and "length d \<le> length b"
    and f: "f = min (length b - w) (length d)"
  shows "(case copy_from_slice b w (w + f) (take f d) of
        None \<Rightarrow> None
      | Some b1 \<Rightarrow> if f < length d
          then copy_from_slice b1 0 (length (drop f d)) (drop f d) else Some b1)
    = Some (wrap_write b w d)"
proof -
  have l: "length (take f d) = f" using f by simp
  have "copy_from_slice b w (w + f) (take f d) = Some (take w b @ take f d @ drop (w + f) b)"
    using assms copy_from_slice_ok [of w "take f d" b] by (simp only: l) simp
  then show ?thesis using assms
    by (auto simp: copy_from_slice_def wrap_write_def Let_def)
qed

lemma ring_append_appended:
  assumes wf: "ring_wf r" and ne: "dat \<noteq> []"
  shows "ring_append r dat = Some (appended r (kept (capacity r) dat))"
proof -
  let ?c = "capacity r" and ?d = "kept (capacity r) dat"
  let ?w = "(head r + len r) mod ?c"
  let ?f = "min (?c - ?w) (length ?d)"
  have p: "is_power_of_two ?c" using wf by (simp add: ring_wf_def)
  have w: "?w < length (buf r)" "length ?d \<le> length (buf r)"
    using power_pos [OF p] by (simp_all add: capacity_def length_kept)
  have split: "(case x of None \<Rightarrow> None | Some b1 \<Rightarrow> (case g b1 of None \<Rightarrow> None | Some b2 \<Rightarrow> h b2)) =
      (case (case x of None \<Rightarrow> None | Some b1 \<Rightarrow> g b1) of None \<Rightarrow> None | Some b2 \<Rightarrow> h b2)"
    for x g and h :: "bytes \<Rightarrow> RingBuffer option"
    by (cases x) simp_all
  have "(case copy_from_slice (buf r) ?w (?w + ?f) (take ?f ?d) of
        None \<Rightarrow> None
      | Some b1 \<Rightarrow> if ?f < length ?d
          then copy_from_slice b1 0 (length (drop ?f ?d)) (drop ?f ?d) else Some b1)
    = Some (wrap_write (buf r) ?w ?d)"
    by (rule copies_wrap_write [OF w]) (simp add: capacity_def)
  then show ?thesis
    unfolding ring_append_def Let_def and_mask_mod [OF p] kept_def [symmetric] split
    using ne by (simp add: appended_def Let_def)
qed

text \<open>The byte at distance \<open>i\<close> from the write position, before and after.\<close>

lemma shift_old:
  "l \<le> c \<Longrightarrow> ((h + l) mod c + (c - l + i)) mod c = (h + i) mod c" for h l c i :: nat
proof -
  assume "l \<le> c"
  then have "h + l + (c - l + i) = h + i + c" by simp
  then show ?thesis by (metis mod_add_left_eq mod_add_self2)
qed

lemma at_old:
  assumes "ring_wf r" and "i < len r"
  shows "contents r ! i = buf r ! (((head r + len r) mod capacity r + (capacity r - len r + i)) mod capacity r)"
  using assms shift_old [of "len r" "capacity r" "head r" i] by (simp add: contents_def ring_wf_def)

lemma mod_sub_self: "c \<le> x \<Longrightarrow> (w + (x - c)) mod c = (w + x) mod c" for w x c :: nat
  by (simp add: le_mod_geq)

lemma contents_appended:
  assumes wf: "ring_wf r" and d: "length d \<le> capacity r"
  shows "contents (appended r d) = lastn (capacity r) (contents r @ d)"
proof -
  let ?c = "capacity r" and ?w = "(head r + len r) mod capacity r"
  let ?b = "wrap_write (buf r) ?w d"
  have p: "0 < ?c" "len r \<le> ?c" using wf by (auto simp: ring_wf_def power_pos)
  have lb: "length (buf r) = ?c" by (simp add: capacity_def)
  have nb: "?b ! ((?w + i) mod ?c) = (if i < length d then d ! i else buf r ! ((?w + i) mod ?c))"
    if "i < ?c" for i
    using nth_wrap_write [of ?w "buf r" d i] that d p(1) by (simp add: lb)
  have lw: "length ?b = ?c" using d p(1) by (simp add: lb)
  show ?thesis
  proof (cases "len r + length d > ?c")
    case True
    have "contents (appended r d) ! i = lastn ?c (contents r @ d) ! i" if i: "i < ?c" for i
    proof -
      let ?k = "if length d + i < ?c then length d + i else length d + i - ?c"
      have "((?w + length d) mod ?c + i) mod ?c = (?w + (length d + i)) mod ?c"
        by (simp add: mod_add_left_eq add.assoc)
      also have "\<dots> = (?w + ?k) mod ?c"
        using mod_sub_self [of ?c "length d + i" ?w] by simp
      finally have "contents (appended r d) ! i = ?b ! ((?w + ?k) mod ?c)"
        using True i lw by (simp add: contents_def appended_def Let_def capacity_def)
      then show ?thesis
        using nb [of ?k] at_old [OF wf, of "len r + length d - ?c + i"] True i d p
        by (auto simp: lastn_def nth_append add.commute)
    qed
    then show ?thesis using True p
      by (intro nth_equalityI) (auto simp: appended_def Let_def)
  next
    case False
    have "contents (appended r d) ! i = (contents r @ d) ! i" if i: "i < len r + length d" for i
    proof -
      have c: "contents (appended r d) ! i = ?b ! ((head r + i) mod ?c)"
        using False i lw by (simp add: contents_def appended_def Let_def capacity_def)
      show ?thesis
      proof (cases "i < len r")
        case True
        have "(?w + (?c - len r + i)) mod ?c = (head r + i) mod ?c"
          using shift_old [OF p(2)] .
        then show ?thesis
          using nb [of "?c - len r + i"] at_old [OF wf True] True False p c
          by (auto simp: nth_append)
      next
        case ge: False
        have "(head r + i) mod ?c = (?w + (i - len r)) mod ?c"
          using ge by (metis add.assoc le_add_diff_inverse mod_add_left_eq not_less)
        then show ?thesis using nb [of "i - len r"] ge i False c
          by (auto simp: nth_append)
      qed
    qed
    then have "contents (appended r d) = contents r @ d" using False
      by (intro nth_equalityI) (auto simp: appended_def Let_def)
    then show ?thesis using False by simp
  qed
qed

lemma capacity_appended [simp]:
  "ring_wf r \<Longrightarrow> length d \<le> capacity r \<Longrightarrow> capacity (appended r d) = capacity r"
  using power_pos [of "capacity r"] by (simp add: appended_def capacity_def Let_def ring_wf_def)

lemma wf_appended [wf_rules]:
  "ring_wf r \<Longrightarrow> length d \<le> capacity r \<Longrightarrow> ring_wf (appended r d)"
  using capacity_appended [of r d]
  by (auto simp: ring_wf_def appended_def Let_def power_pos)

lemma lastn_kept: "lastn cap (xs @ kept cap dat) = lastn cap (xs @ dat)"
  by (cases "cap \<le> length dat") (simp_all add: kept_def lastn_append_long lastn_def)

text \<open>The operation's contract: no panic, the invariant and the capacity kept, the tail kept.\<close>

lemma ring_append_ok:
  assumes wf: "ring_wf r"
  obtains r' where "ring_append r dat = Some r'" "ring_wf r'" "capacity r' = capacity r"
    "contents r' = lastn (capacity r) (contents r @ dat)"
proof (cases "dat = []")
  case True
  then show ?thesis using that [of r] wf
    by (simp add: ring_append_def ring_wf_def)
next
  case False
  let ?d = "kept (capacity r) dat"
  have "length ?d \<le> capacity r" by (simp add: length_kept)
  then show ?thesis
    using that [of "appended r ?d"] ring_append_appended [OF wf False] wf
    by (simp add: wf_appended contents_appended lastn_kept)
qed

lemma new_ring_ok:
  "new_ring c = Some r \<longleftrightarrow> is_power_of_two c \<and> r = \<lparr>buf = replicate c 0, head = 0, len = 0\<rparr>"
  by (auto simp: new_ring_def)

lemma new_ring_wf: "new_ring c = Some r \<Longrightarrow> ring_wf r \<and> capacity r = c \<and> contents r = []"
  by (auto simp: new_ring_ok ring_wf_def capacity_def contents_def power_pos)

section \<open>The scrollback interface\<close>

text \<open>
  What the fanout needs of its scrollback: appending and taking a snapshot never panic on a
  valid buffer, and the snapshot is always the last \<open>cap\<close> bytes.
\<close>

locale scrollback =
  fixes app :: "'r \<Rightarrow> 'b list \<Rightarrow> 'r option"
    and snap :: "'r \<Rightarrow> 'b list option"
    and cap :: "'r \<Rightarrow> nat"
    and inv :: "'r \<Rightarrow> bool"
  assumes snap_total: "inv r \<Longrightarrow> \<exists>s. snap r = Some s"
    and app_law: "inv r \<Longrightarrow> snap r = Some s \<Longrightarrow>
      \<exists>r'. app r d = Some r' \<and> inv r' \<and> cap r' = cap r \<and> snap r' = Some (lastn (cap r) (s @ d))"
begin

lemma app_all:
  assumes "inv r" and "snap r = Some s" and "length s \<le> cap r"
  shows "\<exists>r'. fold_opt app r ds = Some r' \<and> inv r' \<and> cap r' = cap r \<and>
    snap r' = Some (lastn (cap r) (s @ concat ds))"
  using assms
proof (induction ds arbitrary: r s)
  case (Cons d ds)
  obtain r' where r': "app r d = Some r'" "inv r'" "cap r' = cap r"
    "snap r' = Some (lastn (cap r) (s @ d))"
    using app_law [OF Cons.prems(1,2)] by blast
  from Cons.IH [OF r'(2,4)] show ?case by (simp add: r'(1,3))
qed simp

end

interpretation rb: scrollback ring_append snapshot capacity ring_wf
proof unfold_locales
  fix r :: RingBuffer and s d
  assume wf: "ring_wf r" and s: "snapshot r = Some s"
  obtain r' where "ring_append r d = Some r'" "ring_wf r'" "capacity r' = capacity r"
    "contents r' = lastn (capacity r) (contents r @ d)"
    using wf by (rule ring_append_ok)
  then show "\<exists>r'. ring_append r d = Some r' \<and> ring_wf r' \<and> capacity r' = capacity r \<and>
      snapshot r' = Some (lastn (capacity r) (s @ d))"
    using s wf by (auto simp: snapshot_contents)
qed (simp add: snapshot_contents)

section \<open>Properties\<close>

text \<open>
  Property C12. Scrollback: after any sequence of appends to a new ring of a power-of-two
  capacity nothing panics and the snapshot is exactly the last \<open>capacity\<close> bytes of everything
  appended, oldest first (all of it while it fits).
\<close>

theorem ring_keeps_tail:
  assumes "new_ring c = Some r"
  shows "\<exists>r'. fold_opt ring_append r chunks = Some r' \<and> ring_wf r' \<and> capacity r' = c
    \<and> snapshot r' = Some (lastn c (concat chunks))"
proof -
  have r: "ring_wf r" "capacity r = c" "snapshot r = Some []"
    using new_ring_wf [OF assms] by (simp_all add: snapshot_contents)
  from rb.app_all [OF r(1,3)] r(2) show ?thesis by auto
qed

theorem ring_keeps_tail_witness:
  "\<exists>r'. fold_opt ring_append \<lparr>buf = [0, 0, 0, 0], head = 0, len = 0\<rparr> [[1, 2, 3], [4, 5, 6]] = Some r'
    \<and> ring_wf r' \<and> capacity r' = 4 \<and> snapshot r' = Some (lastn 4 (concat [[1, 2, 3], [4, 5, 6]]))"
proof (rule ring_keeps_tail)
  show "new_ring 4 = Some \<lparr>buf = [0, 0, 0, 0], head = 0, len = 0\<rparr>"
    by code_simp
qed

text \<open>
  One append, with its memory-safety obligations: on a well-formed ring no slice
  access of either \<open>copy_from_slice\<close> is out of range (no panic), the ring stays well formed with
  the same capacity, and the new snapshot is the old one extended by the data and cut to the
  last \<open>capacity\<close> bytes.
\<close>

theorem ring_append_refines:
  assumes "ring_wf r"
  shows "\<exists>r' old. snapshot r = Some old \<and> ring_append r dat = Some r' \<and> ring_wf r'
    \<and> capacity r' = capacity r \<and> snapshot r' = Some (lastn (capacity r) (old @ dat))"
proof -
  obtain old where "snapshot r = Some old" using rb.snap_total [OF assms] by blast
  with rb.app_law [OF assms this, of dat] show ?thesis by blast
qed

theorem ring_append_refines_witness:
  "\<exists>r' old. snapshot \<lparr>buf = [7, 8], head = 1, len = 2\<rparr> = Some old
    \<and> ring_append \<lparr>buf = [7, 8], head = 1, len = 2\<rparr> [9] = Some r' \<and> ring_wf r'
    \<and> capacity r' = capacity \<lparr>buf = [7, 8], head = 1, len = 2\<rparr>
    \<and> snapshot r' = Some (lastn (capacity \<lparr>buf = [7, 8], head = 1, len = 2\<rparr>) (old @ [9]))"
  by (rule ring_append_refines) code_simp

text \<open>
  Index arithmetic stays within \<open>usize\<close>: on a well-formed ring whose capacity is at
  most \<open>2 ^ 63\<close> (a \<open>Box<[u8]>\<close> is never larger) each sum the code forms is below \<open>2 ^ 64\<close>, and the
  mask is the remainder by the capacity, so no index is out of range.
\<close>

theorem ring_index_bounds:
  assumes "ring_wf r" and "capacity r \<le> 2 ^ 63" and "length d \<le> capacity r"
  shows "head r + len r < 2 ^ 64
    \<and> len r + length d \<le> 2 ^ 64
    \<and> ((head r + len r) AND (capacity r - 1)) + length d < 2 ^ 64
    \<and> ((head r + i) AND (capacity r - 1)) < capacity r"
proof (intro conjI)
  have w: "0 < capacity r" "head r < capacity r" "len r \<le> capacity r"
    "is_power_of_two (capacity r)"
    using assms(1) by (auto simp: ring_wf_def power_pos)
  have m: "(n AND (capacity r - 1)) < capacity r" for n
    unfolding and_mask_mod [OF w(4)] using w(1) by simp
  show "head r + len r < 2 ^ 64" "len r + length d \<le> 2 ^ 64" using w assms(2,3) by simp_all
  show "((head r + len r) AND (capacity r - 1)) + length d < 2 ^ 64"
    using m [of "head r + len r"] assms(2,3) by simp
  show "((head r + i) AND (capacity r - 1)) < capacity r" by (rule m)
qed

theorem ring_index_bounds_witness:
  "head \<lparr>buf = [7, 8], head = 1, len = 2\<rparr> + len \<lparr>buf = [7, 8], head = 1, len = 2\<rparr> < 2 ^ 64
   \<and> len \<lparr>buf = [7, 8], head = 1, len = 2\<rparr> + length ([9] :: bytes) \<le> 2 ^ 64
   \<and> ((head \<lparr>buf = [7, 8], head = 1, len = 2\<rparr> + len \<lparr>buf = [7, 8], head = 1, len = 2\<rparr>)
        AND (capacity \<lparr>buf = [7, 8], head = 1, len = 2\<rparr> - 1)) + length ([9] :: bytes) < 2 ^ 64
   \<and> ((head \<lparr>buf = [7, 8], head = 1, len = 2\<rparr> + 1)
        AND (capacity \<lparr>buf = [7, 8], head = 1, len = 2\<rparr> - 1)) < capacity \<lparr>buf = [7, 8], head = 1, len = 2\<rparr>"
proof (rule ring_index_bounds)
  show "ring_wf \<lparr>buf = [7, 8], head = 1, len = 2\<rparr>" by code_simp
qed (simp_all add: capacity_def)

end
