(* ===== verification/Fanout.thy ===== *)
theory Fanout
  imports Ring_Buffer
begin

text \<open>
  Output fanout, crates/daemon/src/fanout.rs. The scrollback ring is the model of \<open>Ring_Buffer\<close>;
  tokio's broadcast channel is not part of the repository, so its operations are a parameter
  (\<open>bcast\<close>) and what the code relies on is the locale \<open>broadcast\<close>, which states the documented
  behaviour of \<open>tokio::sync::broadcast\<close>. Both operations of the fanout hold the ring's mutex from
  start to end, so each is one atomic step here; a panic while holding it is \<open>None\<close>.
\<close>

section \<open>The broadcast channel as a parameter\<close>

datatype recv_result = Got bytes | Lagged nat | Closed | Waiting

record ('ch, 'rx) bcast =
  bc_channel :: "nat \<Rightarrow> 'ch"
  bc_send :: "'ch \<Rightarrow> bytes \<Rightarrow> 'ch"
  bc_subscribe :: "'ch \<Rightarrow> 'rx \<times> 'ch"
  bc_recv :: "'ch \<Rightarrow> 'rx \<Rightarrow> recv_result \<times> 'rx"

text \<open>
  The documented behaviour, for receivers obtained from the channel (\<open>live\<close>): a subscriber sees
  the messages sent after it subscribed, in order; up to \<open>bcap\<close> of them are kept (at least the
  requested capacity); a receiver more than that behind gets \<open>Lagged\<close> with the number it missed
  and continues with the oldest message kept.
\<close>

locale broadcast =
  fixes B :: "('ch, 'rx) bcast"
    and live :: "'ch \<Rightarrow> 'rx \<Rightarrow> bool"
    and backlog :: "'ch \<Rightarrow> 'rx \<Rightarrow> bytes list"
    and bcap :: "'ch \<Rightarrow> nat"
  assumes channel_cap: "n \<le> bcap (bc_channel B n)"
    and subscribe: "bc_subscribe B ch = (q, ch') \<Longrightarrow>
      live ch' q \<and> backlog ch' q = [] \<and> bcap ch' = bcap ch"
    and subscribe_other: "bc_subscribe B ch = (q, ch') \<Longrightarrow> live ch p \<Longrightarrow>
      live ch' p \<and> backlog ch' p = backlog ch p"
    and send: "live ch q \<Longrightarrow>
      live (bc_send B ch m) q \<and> backlog (bc_send B ch m) q = backlog ch q @ [m]"
    and send_cap: "bcap (bc_send B ch m) = bcap ch"
    and recv_empty: "live ch q \<Longrightarrow> backlog ch q = [] \<Longrightarrow> bc_recv B ch q = (Waiting, q)"
    and recv_got: "live ch q \<Longrightarrow> backlog ch q = m # ms \<Longrightarrow> length (backlog ch q) \<le> bcap ch \<Longrightarrow>
      \<exists>q'. bc_recv B ch q = (Got m, q') \<and> live ch q' \<and> backlog ch q' = ms"
    and recv_lag: "live ch q \<Longrightarrow> bcap ch < length (backlog ch q) \<Longrightarrow>
      \<exists>q'. bc_recv B ch q = (Lagged (length (backlog ch q) - bcap ch), q') \<and> live ch q'
        \<and> backlog ch q' = lastn (bcap ch) (backlog ch q)"

section \<open>The fanout\<close>

record 'ch Fanout =
  ring :: RingBuffer
  tx :: 'ch

definition fan_new :: "('ch, 'rx) bcast \<Rightarrow> nat \<Rightarrow> nat \<Rightarrow> 'ch Fanout option" where
  "fan_new B scrollback_capacity broadcast_capacity =
     (let tx0 = bc_channel B broadcast_capacity in
      case new_ring scrollback_capacity of
        None \<Rightarrow> None
      | Some r \<Rightarrow> Some \<lparr>ring = r, tx = tx0\<rparr>)"

definition fan_push :: "('ch, 'rx) bcast \<Rightarrow> 'ch Fanout \<Rightarrow> bytes \<Rightarrow> 'ch Fanout option" where
  "fan_push B f dat =
     (case ring_append (ring f) dat of
        None \<Rightarrow> None
      | Some r \<Rightarrow> Some \<lparr>ring = r, tx = bc_send B (tx f) dat\<rparr>)"

definition fan_attach ::
    "('ch, 'rx) bcast \<Rightarrow> 'ch Fanout \<Rightarrow> ((bytes \<times> 'rx) \<times> 'ch Fanout) option" where
  "fan_attach B f =
     (let (rx, tx') = bc_subscribe B (tx f) in
      case snapshot (ring f) of
        None \<Rightarrow> None
      | Some s \<Rightarrow> Some ((s, rx), f\<lparr>tx := tx'\<rparr>))"

section \<open>A watching client\<close>

text \<open>
  One attached client and the output of the pty, interleaved in any order: \<open>Output\<close> is a push
  by the daemon loop, \<open>Deliver\<close> a receive of the client, which gives up when it lags (as
  \<open>handle_client\<close> does).
\<close>

datatype fevent = Output bytes | Deliver

record ('ch, 'rx) watch =
  fan :: "'ch Fanout"
  wrx :: 'rx
  seen :: "bytes list"
  gave_up :: bool

fun watch_step :: "('ch, 'rx) bcast \<Rightarrow> ('ch, 'rx) watch \<Rightarrow> fevent \<Rightarrow> ('ch, 'rx) watch option" where
  "watch_step B w (Output d) =
     (case fan_push B (fan w) d of None \<Rightarrow> None | Some f \<Rightarrow> Some (w\<lparr>fan := f\<rparr>))"
| "watch_step B w Deliver =
     (if gave_up w then Some w
      else case bc_recv B (tx (fan w)) (wrx w) of
             (Got m, q) \<Rightarrow> Some (w\<lparr>wrx := q, seen := seen w @ [m]\<rparr>)
           | (Waiting, q) \<Rightarrow> Some (w\<lparr>wrx := q\<rparr>)
           | (_, q) \<Rightarrow> Some (w\<lparr>wrx := q, gave_up := True\<rparr>))"

fun outputs :: "fevent list \<Rightarrow> bytes list" where
  "outputs [] = []"
| "outputs (Output d # es) = d # outputs es"
| "outputs (Deliver # es) = outputs es"

section \<open>Lemmas\<close>

definition fan_wf :: "'ch Fanout \<Rightarrow> bool" where
  "fan_wf f \<longleftrightarrow> ring_wf (ring f)"

text \<open>Scrollback through the fanout: the ring part of a push and of a run of pushes.\<close>

lemma fan_push_ring:
  assumes "fan_wf f"
  obtains f' where "fan_push B f d = Some f'" "fan_wf f'" "tx f' = bc_send B (tx f) d"
    "capacity (ring f') = capacity (ring f)"
    "contents (ring f') = lastn (capacity (ring f)) (contents (ring f) @ d)"
proof -
  have "ring_wf (ring f)" using assms by (simp add: fan_wf_def)
  then obtain r' where "ring_append (ring f) d = Some r'" "ring_wf r'"
    "capacity r' = capacity (ring f)" "contents r' = lastn (capacity (ring f)) (contents (ring f) @ d)"
    by (rule ring_append_ok)
  then show ?thesis using that [of "\<lparr>ring = r', tx = bc_send B (tx f) d\<rparr>"]
    by (simp add: fan_push_def fan_wf_def)
qed

lemma fan_pushes_ring:
  assumes "fan_wf f" and "length (contents (ring f)) \<le> capacity (ring f)"
    and "fold_opt (fan_push B) f ds = Some f'"
  shows "fan_wf f' \<and> capacity (ring f') = capacity (ring f) \<and>
    contents (ring f') = lastn (capacity (ring f)) (contents (ring f) @ concat ds)"
  using assms
proof (induction ds arbitrary: f)
  case (Cons d ds)
  obtain g where g: "fan_push B f d = Some g" "fan_wf g" "tx g = bc_send B (tx f) d"
    "capacity (ring g) = capacity (ring f)"
    "contents (ring g) = lastn (capacity (ring f)) (contents (ring f) @ d)"
    using Cons.prems(1) by (rule fan_push_ring)
  have "fold_opt (fan_push B) g ds = Some f'" using Cons.prems(3) g(1) by simp
  from Cons.IH [OF g(2) _ this] show ?case by (simp add: g(4,5))
qed simp

lemma fan_pushes_total: "fan_wf f \<Longrightarrow> \<exists>f'. fold_opt (fan_push B) f ds = Some f'"
proof (induction ds arbitrary: f)
  case (Cons d ds)
  obtain g where "fan_push B f d = Some g" "fan_wf g" using Cons.prems by (rule fan_push_ring)
  then show ?case using Cons.IH by simp
qed simp

lemma fan_new_wf:
  assumes "fan_new B sc bc = Some f"
  shows "fan_wf f \<and> capacity (ring f) = sc \<and> contents (ring f) = [] \<and> tx f = bc_channel B bc"
  using assms new_ring_wf by (fastforce simp: fan_new_def fan_wf_def split: option.splits)

lemma fan_attach_ok:
  "fan_wf f \<Longrightarrow> bc_subscribe B (tx f) = (q, ch) \<Longrightarrow>
    fan_attach B f = Some ((contents (ring f), q), f\<lparr>tx := ch\<rparr>)"
  by (simp add: fan_attach_def snapshot_contents fan_wf_def)

context broadcast
begin

text \<open>The invariant of a watching client: what it has seen and what waits for it is everything.\<close>

definition watch_inv :: "nat \<Rightarrow> bytes list \<Rightarrow> ('ch, 'rx) watch \<Rightarrow> bool" where
  "watch_inv cap outs w \<longleftrightarrow> fan_wf (fan w) \<and> live (tx (fan w)) (wrx w) \<and> bcap (tx (fan w)) = cap \<and>
     (if gave_up w then prefix (seen w) outs \<and> cap < length outs
      else seen w @ backlog (tx (fan w)) (wrx w) = outs)"

lemma watch_output:
  assumes "watch_inv cap outs w"
  shows "\<exists>w'. watch_step B w (Output d) = Some w' \<and> watch_inv cap (outs @ [d]) w'"
proof -
  have "fan_wf (fan w)" using assms by (simp add: watch_inv_def)
  then obtain g where g: "fan_push B (fan w) d = Some g" "fan_wf g"
    "tx g = bc_send B (tx (fan w)) d"
    by (rule fan_push_ring)
  have "live (tx (fan w)) (wrx w)" using assms by (simp add: watch_inv_def)
  from send [OF this, of d] show ?thesis
    using assms g by (auto simp: watch_inv_def send_cap)
qed

lemma watch_deliver:
  assumes w: "watch_inv cap outs w"
  shows "\<exists>w'. watch_step B w Deliver = Some w' \<and> watch_inv cap outs w'"
proof (cases "gave_up w")
  case True
  then show ?thesis using w by simp
next
  case False
  let ?ch = "tx (fan w)" and ?b = "backlog (tx (fan w)) (wrx w)"
  have l: "live ?ch (wrx w)" "bcap ?ch = cap" "seen w @ ?b = outs"
    using w False by (simp_all add: watch_inv_def)
  consider "?b = []" | m ms where "?b = m # ms" "length ?b \<le> bcap ?ch" | "bcap ?ch < length ?b"
    by (metis list.exhaust not_less)
  then show ?thesis
  proof cases
    case 1
    then show ?thesis using w False recv_empty [OF l(1)] by (auto simp: watch_inv_def)
  next
    case 2
    obtain q where "bc_recv B ?ch (wrx w) = (Got m, q)" "live ?ch q" "backlog ?ch q = ms"
      using recv_got [OF l(1) 2] by blast
    then show ?thesis using w False 2 by (auto simp: watch_inv_def)
  next
    case 3
    obtain q where "bc_recv B ?ch (wrx w) = (Lagged (length ?b - bcap ?ch), q)" "live ?ch q"
      using recv_lag [OF l(1) 3] by blast
    moreover have "cap < length outs" using 3 l(2,3) by auto
    ultimately show ?thesis using w False l(3) by (auto simp: watch_inv_def)
  qed
qed

lemma watch_run:
  assumes "watch_inv cap outs w"
  shows "\<exists>w'. fold_opt (watch_step B) w es = Some w' \<and> watch_inv cap (outs @ outputs es) w'"
  using assms
proof (induction es arbitrary: outs w)
  case (Cons e es)
  show ?case
  proof (cases e)
    case (Output d)
    obtain w' where "watch_step B w (Output d) = Some w'" "watch_inv cap (outs @ [d]) w'"
      using watch_output [OF Cons.prems] by blast
    then show ?thesis using Cons.IH [of "outs @ [d]" w'] Output by simp
  next
    case Deliver
    obtain w' where "watch_step B w Deliver = Some w'" "watch_inv cap outs w'"
      using watch_deliver [OF Cons.prems] by blast
    then show ?thesis using Cons.IH [of outs w'] Deliver by simp
  qed
qed simp

lemma waiting_caught_up:
  assumes "live ch q" and "fst (bc_recv B ch q) = Waiting"
  shows "backlog ch q = []"
proof (cases "backlog ch q")
  case (Cons m ms)
  show ?thesis
  proof (cases "length (backlog ch q) \<le> bcap ch")
    case True
    then show ?thesis using recv_got [OF assms(1) Cons] assms(2) by auto
  next
    case False
    then show ?thesis using recv_lag [OF assms(1)] assms(2) by auto
  qed
qed

lemma send_caps: "fold_opt (fan_push B) f ds = Some f' \<Longrightarrow> bcap (tx f') = bcap (tx f)"
proof (induction ds arbitrary: f)
  case (Cons d ds)
  from Cons.prems obtain g where g: "fan_push B f d = Some g" "fold_opt (fan_push B) g ds = Some f'"
    by (simp split: option.splits)
  have "bcap (tx g) = bcap (tx f)" using g(1) by (auto simp: fan_push_def send_cap split: option.splits)
  then show ?case using Cons.IH [OF g(2)] by simp
qed simp

lemma attach_watch:
  assumes "fan_new B sc bc = Some f0" and "fold_opt (fan_push B) f0 before = Some f1"
    and "fan_attach B f1 = Some ((s, q), f2)"
  shows "s = lastn sc (concat before) \<and>
    watch_inv (bcap (tx f0)) [] \<lparr>fan = f2, wrx = q, seen = [], gave_up = False\<rparr> \<and> bc \<le> bcap (tx f0)"
proof -
  have n: "fan_wf f0" "capacity (ring f0) = sc" "contents (ring f0) = []" "tx f0 = bc_channel B bc"
    using fan_new_wf [OF assms(1)] by simp_all
  have p: "fan_wf f1" "contents (ring f1) = lastn sc (concat before)" "bcap (tx f1) = bcap (tx f0)"
    using fan_pushes_ring [OF n(1) _ assms(2)] n send_caps [OF assms(2)] by simp_all
  obtain ch where ch: "bc_subscribe B (tx f1) = (q, ch)" "f2 = f1\<lparr>tx := ch\<rparr>" "s = contents (ring f1)"
    using assms(3) p(1) by (auto simp: fan_attach_def fan_wf_def snapshot_contents split: prod.splits)
  from subscribe [OF ch(1)] show ?thesis
    using p ch n(4) channel_cap by (simp add: watch_inv_def fan_wf_def)
qed

end

section \<open>A channel with the documented behaviour\<close>

text \<open>
  The history of all messages, and receivers as positions in it: the reference semantics that
  tokio's documentation describes. It instantiates the parameter in witnesses.
\<close>

record hist_chan =
  hist :: "bytes list"
  kept_cap :: nat

definition hist_recv :: "hist_chan \<Rightarrow> nat \<Rightarrow> recv_result \<times> nat" where
  "hist_recv ch q =
     (let n = length (hist ch) in
      if n \<le> q then (Waiting, q)
      else if n - q \<le> kept_cap ch then (Got (hist ch ! q), Suc q)
      else (Lagged (n - q - kept_cap ch), n - kept_cap ch))"

definition hist_bcast :: "(hist_chan, nat) bcast" where
  "hist_bcast =
     \<lparr>bc_channel = (\<lambda>n. \<lparr>hist = [], kept_cap = n\<rparr>),
      bc_send = (\<lambda>ch m. ch\<lparr>hist := hist ch @ [m]\<rparr>),
      bc_subscribe = (\<lambda>ch. (length (hist ch), ch)),
      bc_recv = hist_recv\<rparr>"

interpretation hb: broadcast hist_bcast "\<lambda>ch q. q \<le> length (hist ch)" "\<lambda>ch q. drop q (hist ch)" kept_cap
proof unfold_locales
  fix ch :: hist_chan and q :: nat and m ms
  assume "q \<le> length (hist ch)" and d: "drop q (hist ch) = m # ms"
    and "length (drop q (hist ch)) \<le> kept_cap ch"
  then have "length (hist ch) - q \<le> kept_cap ch" by (metis length_drop)
  moreover from d have "q < length (hist ch)" by (metis drop_all list.distinct(1) not_less)
  moreover with d have "hist ch ! q = m" "drop (Suc q) (hist ch) = ms"
    by (metis Cons_nth_drop_Suc list.inject)+
  ultimately show "\<exists>q'. bc_recv hist_bcast ch q = (Got m, q') \<and> q' \<le> length (hist ch)
      \<and> drop q' (hist ch) = ms"
    by (simp add: hist_bcast_def hist_recv_def Let_def)
qed (auto simp: hist_bcast_def hist_recv_def Let_def lastn_def)

section \<open>Properties\<close>

text \<open>
  Attach sees every byte exactly once: whatever was pushed before and however pushes
  and deliveries interleave afterwards, nothing panics; the snapshot is the last scrollback of
  what was pushed before; the chunks delivered are a prefix of those pushed after, in order,
  without gap or duplicate; all of them are delivered once the client has caught up (its next
  receive would wait), and a client gives up only if more chunks than the channel's capacity
  were pushed.
\<close>

theorem attach_exactly_once:
  assumes "broadcast B live backlog bcap"
    and "fan_new B sc bc = Some f0" and "fold_opt (fan_push B) f0 before = Some f1"
    and "fan_attach B f1 = Some ((s, q), f2)"
  shows "\<exists>w. fold_opt (watch_step B) \<lparr>fan = f2, wrx = q, seen = [], gave_up = False\<rparr> es = Some w
    \<and> s = lastn sc (concat before)
    \<and> prefix (seen w) (outputs es)
    \<and> (\<not> gave_up w \<and> fst (bc_recv B (tx (fan w)) (wrx w)) = Waiting \<longrightarrow> seen w = outputs es)
    \<and> (gave_up w \<longrightarrow> bc < length (outputs es))"
proof -
  note a = broadcast.attach_watch [OF assms]
  obtain w where w: "fold_opt (watch_step B) \<lparr>fan = f2, wrx = q, seen = [], gave_up = False\<rparr> es = Some w"
    "broadcast.watch_inv live backlog bcap (bcap (tx f0)) (outputs es) w"
    using broadcast.watch_run [OF assms(1), of "bcap (tx f0)" "[]" _ es] a by auto
  have "prefix (seen w) (outputs es)"
    using w(2) by (auto simp: broadcast.watch_inv_def [OF assms(1)] intro: prefixI [OF sym]
        split: if_splits)
  moreover have "\<not> gave_up w \<and> fst (bc_recv B (tx (fan w)) (wrx w)) = Waiting \<longrightarrow> seen w = outputs es"
    using w(2) broadcast.waiting_caught_up [OF assms(1)]
    by (auto simp: broadcast.watch_inv_def [OF assms(1)])
  moreover have "gave_up w \<longrightarrow> bc < length (outputs es)"
    using w(2) a by (auto simp: broadcast.watch_inv_def [OF assms(1)])
  ultimately show ?thesis using w(1) a by blast
qed

theorem attach_exactly_once_witness:
  "\<exists>w. fold_opt (watch_step hist_bcast)
        \<lparr>fan = \<lparr>ring = \<lparr>buf = [2, 3], head = 0, len = 2\<rparr>, tx = \<lparr>hist = [[1, 2, 3]], kept_cap = 4\<rparr>\<rparr>,
         wrx = 1, seen = [], gave_up = False\<rparr> [Output [4], Deliver, Output [5]] = Some w
    \<and> ([2, 3] :: bytes) = lastn 2 (concat [[1, 2, 3]])
    \<and> prefix (seen w) (outputs [Output [4], Deliver, Output [5]])
    \<and> (\<not> gave_up w \<and> fst (bc_recv hist_bcast (tx (fan w)) (wrx w)) = Waiting \<longrightarrow>
        seen w = outputs [Output [4], Deliver, Output [5]])
    \<and> (gave_up w \<longrightarrow> 4 < length (outputs [Output [4], Deliver, Output [5]]))"
proof (rule attach_exactly_once [OF hb.broadcast_axioms])
  show "fan_new hist_bcast 2 4 =
      Some \<lparr>ring = \<lparr>buf = [0, 0], head = 0, len = 0\<rparr>, tx = \<lparr>hist = [], kept_cap = 4\<rparr>\<rparr>"
    by code_simp
  show "fold_opt (fan_push hist_bcast)
      \<lparr>ring = \<lparr>buf = [0, 0], head = 0, len = 0\<rparr>, tx = \<lparr>hist = [], kept_cap = 4\<rparr>\<rparr> [[1, 2, 3]] =
      Some \<lparr>ring = \<lparr>buf = [2, 3], head = 0, len = 2\<rparr>, tx = \<lparr>hist = [[1, 2, 3]], kept_cap = 4\<rparr>\<rparr>"
    by code_simp
  show "fan_attach hist_bcast
      \<lparr>ring = \<lparr>buf = [2, 3], head = 0, len = 2\<rparr>, tx = \<lparr>hist = [[1, 2, 3]], kept_cap = 4\<rparr>\<rparr> =
      Some (([2, 3], 1),
        \<lparr>ring = \<lparr>buf = [2, 3], head = 0, len = 2\<rparr>, tx = \<lparr>hist = [[1, 2, 3]], kept_cap = 4\<rparr>\<rparr>)"
    by code_simp
qed

end
