(* ===== verification/Session_Log.thy ===== *)
theory Session_Log
  imports Hytch_Prelude
begin

text \<open>
  The on-disk session log, crates/daemon/src/session_log.rs: trimming at a safe boundary,
  rotation, open and append. A \<open>std::fs::File\<close> is its contents and its offset; what the kernel
  answers to each call (success, error, a short read, a write that fails half way) is an argument
  of the operations, so every \<open>?\<close> of the source is a branch. Sizes are natural numbers: no sum
  formed exceeds the file size, which is a \<open>u64\<close>.
\<close>

section \<open>Files\<close>

record File =
  content :: bytes
  pos :: nat

datatype io_error = SeekError | ReadError | SetLenError | WriteError | MetadataError | OpenError

text \<open>\<open>Ok\<close>, \<open>Err\<close> of \<open>io::Result\<close>, and a panic.\<close>

datatype 'a outcome = Ok 'a | Err io_error | Panic

text \<open>\<open>write\<close> at the offset: bytes between the end of the file and the offset read as zero.\<close>

definition write_at :: "File \<Rightarrow> bytes \<Rightarrow> File" where
  "write_at f d =
     (if d = [] then f
      else \<lparr>content = take (pos f) (content f @ replicate (pos f - length (content f)) 0) @ d @
              drop (pos f + length d) (content f),
            pos = pos f + length d\<rparr>)"

definition set_len :: "File \<Rightarrow> nat \<Rightarrow> File" where
  "set_len f n = f\<lparr>content := take n (content f) @ replicate (n - length (content f)) 0\<rparr>"

datatype read_outcome = ReadFull | ReadShort nat | ReadErr
datatype write_outcome = WriteFull | WriteErr nat

text \<open>\<open>write_all\<close>: on an error some prefix may have been written.\<close>

definition write_all :: "write_outcome \<Rightarrow> File \<Rightarrow> bytes \<Rightarrow> bool \<times> File" where
  "write_all w f d =
     (case w of WriteFull \<Rightarrow> (True, write_at f d) | WriteErr k \<Rightarrow> (False, write_at f (take k d)))"

section \<open>Where to cut\<close>

definition ESCAPE_LOOKBACK :: nat where "ESCAPE_LOOKBACK = 64"

fun escape_sequence_terminated :: "bytes \<Rightarrow> bool" where
  "escape_sequence_terminated (_ # c # rest) =
     (if c = 0x5b then list_ex (\<lambda>b. 0x40 \<le> b \<and> b \<le> 0x7e) rest else True)"
| "escape_sequence_terminated _ = False"

text \<open>\<open>Iterator::rposition\<close>: the last index whose element satisfies the predicate.\<close>

fun rposition :: "('a \<Rightarrow> bool) \<Rightarrow> 'a list \<Rightarrow> nat option" where
  "rposition P [] = None"
| "rposition P (x # xs) =
     (case rposition P xs of Some i \<Rightarrow> Some (Suc i) | None \<Rightarrow> if P x then Some 0 else None)"

definition is_cont :: "u8 \<Rightarrow> bool" where
  "is_cont b \<longleftrightarrow> b AND 0xc0 = 0x80"

function skip_cont :: "bytes \<Rightarrow> nat \<Rightarrow> nat" where
  "skip_cont bs start =
     (if start < length bs \<and> is_cont (bs ! start) then skip_cont bs (Suc start) else start)"
  by pat_completeness auto
termination
  by (relation "measure (\<lambda>(bs, start). length bs - start)") auto

declare skip_cont.simps [simp del]

text \<open>\<open>None\<close> is the panic of a slice out of range.\<close>

definition safe_trim_start :: "bytes \<Rightarrow> nat \<Rightarrow> nat option" where
  "safe_trim_start bs naive_cut =
     (let lookback_start = naive_cut - ESCAPE_LOOKBACK in
      case slice bs lookback_start naive_cut of
        None \<Rightarrow> None
      | Some window \<Rightarrow>
          (case map_option (\<lambda>rel. lookback_start + rel) (rposition (\<lambda>b. b = 0x1b) window) of
             Some esc_pos \<Rightarrow>
               (case slice bs esc_pos naive_cut of
                  None \<Rightarrow> None
                | Some sq \<Rightarrow>
                    if \<not> escape_sequence_terminated sq then Some esc_pos
                    else Some (skip_cont bs naive_cut))
           | None \<Rightarrow> Some (skip_cont bs naive_cut)))"

section \<open>Rotation\<close>

text \<open>The kernel's answers to the calls of one rotation, in the order the code makes them.\<close>

record rotate_io =
  seek_end_ok :: bool
  seek_read_ok :: bool
  read_res :: read_outcome
  set_len_ok :: bool
  seek_start_ok :: bool
  write_res :: write_outcome
  seek_final_ok :: bool

definition rotate_log_file :: "rotate_io \<Rightarrow> File \<Rightarrow> nat \<Rightarrow> unit outcome \<times> File" where
  "rotate_log_file io f max_size =
     (if \<not> seek_end_ok io then (Err SeekError, f)
      else
        let size = length (content f);
            f = f\<lparr>pos := size\<rparr>;
            finish = (\<lambda>f. if \<not> seek_final_ok io then (Err SeekError, f)
                          else (Ok (), f\<lparr>pos := length (content f)\<rparr>))
        in if size > max_size
           then
             let naive_start = size - max_size;
                 lookback = min ESCAPE_LOOKBACK naive_start;
                 read_start = naive_start - lookback
             in if \<not> seek_read_ok io then (Err SeekError, f)
                else
                  let f = f\<lparr>pos := read_start\<rparr>;
                      avail = take (max_size + lookback) (drop read_start (content f));
                      got = (case read_res io of
                               ReadErr \<Rightarrow> None
                             | ReadShort k \<Rightarrow> Some (take k avail)
                             | ReadFull \<Rightarrow> Some avail)
                  in case got of
                       None \<Rightarrow> (Err ReadError, f)
                     | Some bs \<Rightarrow>
                         (let f = f\<lparr>pos := read_start + length bs\<rparr> in
                          case safe_trim_start bs lookback of
                            None \<Rightarrow> (Panic, f)
                          | Some safe_start \<Rightarrow>
                              if safe_start > length bs then (Panic, f)
                              else if \<not> set_len_ok io then (Err SetLenError, f)
                              else
                                let tail = drop safe_start bs;
                                    f = set_len f 0
                                in if \<not> seek_start_ok io then (Err SeekError, f)
                                   else case write_all (write_res io) (f\<lparr>pos := 0\<rparr>) tail of
                                          (False, f) \<Rightarrow> (Err WriteError, f)
                                        | (True, f) \<Rightarrow> finish f)
           else finish f)"

section \<open>The log\<close>

record SessionLog =
  log_file :: File
  max_size :: nat
  current_size :: nat

text \<open>
  \<open>open\<close>: the file's existing contents (empty for a file it creates), or a failed open.
\<close>

definition log_open :: "rotate_io \<Rightarrow> bool \<Rightarrow> bytes option \<Rightarrow> nat \<Rightarrow> SessionLog outcome" where
  "log_open io metadata_ok opened limit =
     (case opened of
        None \<Rightarrow> Err OpenError
      | Some existing \<Rightarrow>
          (case rotate_log_file io \<lparr>content = existing, pos = 0\<rparr> limit of
             (Err e, _) \<Rightarrow> Err e
           | (Panic, _) \<Rightarrow> Panic
           | (Ok _, f) \<Rightarrow>
               if \<not> metadata_ok then Err MetadataError
               else Ok \<lparr>log_file = f, max_size = limit, current_size = length (content f)\<rparr>))"

definition log_append ::
    "write_outcome \<Rightarrow> rotate_io \<Rightarrow> bool \<Rightarrow> SessionLog \<Rightarrow> bytes \<Rightarrow> unit outcome \<times> SessionLog" where
  "log_append w io metadata_ok l dat =
     (case write_all w (log_file l) dat of
        (False, f) \<Rightarrow> (Err WriteError, l\<lparr>log_file := f\<rparr>)
      | (True, f) \<Rightarrow>
          (let l = l\<lparr>log_file := f, current_size := current_size l + length dat\<rparr> in
           if current_size l > max_size l
           then case rotate_log_file io (log_file l) (max_size l) of
                  (Err e, f) \<Rightarrow> (Err e, l\<lparr>log_file := f\<rparr>)
                | (Panic, f) \<Rightarrow> (Panic, l\<lparr>log_file := f\<rparr>)
                | (Ok _, f) \<Rightarrow>
                    if \<not> metadata_ok then (Err MetadataError, l\<lparr>log_file := f\<rparr>)
                    else (Ok (), l\<lparr>log_file := f, current_size := length (content f)\<rparr>)
           else (Ok (), l)))"

definition write_end_marker :: "write_outcome \<Rightarrow> SessionLog \<Rightarrow> bytes \<Rightarrow> unit outcome \<times> SessionLog" where
  "write_end_marker w l marker =
     (case write_all w (log_file l) marker of
        (False, f) \<Rightarrow> (Err WriteError, l\<lparr>log_file := f\<rparr>)
      | (True, f) \<Rightarrow> (Ok (), l\<lparr>log_file := f\<rparr>))"

section \<open>The cut point\<close>

lemma rposition_Some:
  "rposition P xs = Some i \<longleftrightarrow> i < length xs \<and> P (xs ! i) \<and> (\<forall>x \<in> set (drop (Suc i) xs). \<not> P x)"
proof (induction xs arbitrary: i)
  case (Cons x xs)
  have none: "rposition P xs = None \<longleftrightarrow> (\<forall>x \<in> set xs. \<not> P x)" for xs
    by (induction xs) (auto split: option.splits)
  show ?case
  proof (cases i)
    case 0
    then show ?thesis using none [of xs] by (auto split: option.splits)
  next
    case (Suc j)
    have "rposition P xs = Some j \<Longrightarrow> rposition P xs \<noteq> None" by simp
    then show ?thesis using Suc Cons.IH [of j] by (auto split: option.splits)
  qed
qed simp

lemma rposition_None: "rposition P xs = None \<longleftrightarrow> (\<forall>x \<in> set xs. \<not> P x)"
  by (induction xs) (auto split: option.splits)

lemma skip_cont_bounds:
  "start \<le> length bs \<Longrightarrow> start \<le> skip_cont bs start \<and> skip_cont bs start \<le> length bs"
proof (induction bs start rule: skip_cont.induct)
  case (1 bs start)
  then show ?case by (subst (1 2) skip_cont.simps) auto
qed

lemma skip_cont_stop: "skip_cont bs start < length bs \<Longrightarrow> \<not> is_cont (bs ! skip_cont bs start)"
proof (induction bs start rule: skip_cont.induct)
  case (1 bs start)
  then show ?case by (cases "start < length bs \<and> is_cont (bs ! start)") (auto simp: skip_cont.simps [of bs start])
qed

lemma skip_cont_between:
  "start \<le> i \<Longrightarrow> i < skip_cont bs start \<Longrightarrow> i < length bs \<and> is_cont (bs ! i)"
proof (induction bs start rule: skip_cont.induct)
  case (1 bs start)
  then show ?case
    by (cases "start < length bs \<and> is_cont (bs ! start)"; cases "i = start")
      (auto simp: skip_cont.simps [of bs start])
qed

lemma skip_cont_drop: "r + skip_cont (drop r bs) start = skip_cont bs (r + start)"
proof (induction "drop r bs" start rule: skip_cont.induct)
  case (1 start)
  then show ?case
    by (cases "start < length (drop r bs) \<and> is_cont (drop r bs ! start)")
      (auto simp: skip_cont.simps [of bs "r + start"] skip_cont.simps [of "drop r bs" start] add.commute)
qed

text \<open>
  The start of the tail that a rotation of the contents \<open>c\<close> to \<open>m\<close> bytes keeps: \<open>esc_before\<close>
  is the last escape byte in the lookback window before the plain cut.
\<close>

definition naive :: "bytes \<Rightarrow> nat \<Rightarrow> nat" where
  "naive c m = length c - m"

definition window :: "bytes \<Rightarrow> nat \<Rightarrow> bytes" where
  "window c m = drop (naive c m - ESCAPE_LOOKBACK) (take (naive c m) c)"

definition esc_before :: "bytes \<Rightarrow> nat \<Rightarrow> nat option" where
  "esc_before c m =
     map_option (\<lambda>rel. naive c m - ESCAPE_LOOKBACK + rel) (rposition (\<lambda>b. b = 0x1b) (window c m))"

definition cut :: "bytes \<Rightarrow> nat \<Rightarrow> nat" where
  "cut c m =
     (case esc_before c m of
        Some e \<Rightarrow> if \<not> escape_sequence_terminated (drop e (take (naive c m) c)) then e
                  else skip_cont c (naive c m)
      | None \<Rightarrow> skip_cont c (naive c m))"

lemma esc_before_Some:
  assumes "esc_before c m = Some e"
  shows "e < naive c m \<and> naive c m \<le> e + ESCAPE_LOOKBACK \<and> e < length c \<and> c ! e = 0x1b \<and>
    0x1b \<notin> set (drop (Suc e) (take (naive c m) c))"
proof -
  let ?n = "naive c m" and ?l = "naive c m - ESCAPE_LOOKBACK"
  have nl: "?n \<le> length c" by (simp add: naive_def)
  obtain i where i: "e = ?l + i" "rposition (\<lambda>b. b = 0x1b) (window c m) = Some i"
    using assms by (auto simp: esc_before_def)
  then have "i < length (window c m)" "window c m ! i = 0x1b"
    "\<forall>x \<in> set (drop (Suc i) (window c m)). x \<noteq> 0x1b" by (simp_all add: rposition_Some)
  moreover have "drop (Suc i) (window c m) = drop (Suc e) (take ?n c)"
    by (simp add: window_def i(1) add.commute)
  ultimately show ?thesis using nl i(1) by (auto simp: window_def)
qed

lemma esc_before_None:
  "esc_before c m = None \<Longrightarrow> 0x1b \<notin> set (window c m)"
  by (auto simp: esc_before_def rposition_None)

lemma cut_cases:
  obtains (Esc) e where "cut c m = e" "esc_before c m = Some e"
      "\<not> escape_sequence_terminated (drop e (take (naive c m) c))"
  | (Skip) "cut c m = skip_cont c (naive c m)"
      "\<And>e. esc_before c m = Some e \<Longrightarrow> escape_sequence_terminated (drop e (take (naive c m) c))"
  by (cases "esc_before c m") (auto simp: cut_def split: if_splits)

lemma cut_le: "cut c m \<le> length c"
  using skip_cont_bounds [of "naive c m" c] esc_before_Some [of c m]
  by (cases rule: cut_cases [of c m]) (auto simp: naive_def)

lemma cut_ge: "length c - m \<le> cut c m + ESCAPE_LOOKBACK"
  using skip_cont_bounds [of "naive c m" c] esc_before_Some [of c m]
  by (cases rule: cut_cases [of c m]) (auto simp: naive_def)

lemma cut_boundary: "cut c m = length c \<or> \<not> is_cont (c ! cut c m)"
proof (cases rule: cut_cases [of c m])
  case (Esc e)
  then have "c ! cut c m = 0x1b" using esc_before_Some by auto
  then show ?thesis by (simp add: is_cont_def)
next
  case Skip
  then show ?thesis using skip_cont_bounds [of "naive c m" c] skip_cont_stop [of c "naive c m"]
    by (auto simp: naive_def)
qed

lemma cut_skips: "naive c m \<le> i \<Longrightarrow> i < cut c m \<Longrightarrow> is_cont (c ! i)"
  using esc_before_Some [of c m] skip_cont_between [of "naive c m" i c]
  by (cases rule: cut_cases [of c m]) auto

text \<open>The code's search in the bytes it read back finds exactly this cut.\<close>

lemma safe_trim_start_cut:
  assumes "m < length c"
  shows "safe_trim_start (drop (naive c m - ESCAPE_LOOKBACK) c) (min ESCAPE_LOOKBACK (naive c m)) =
    Some (cut c m - (naive c m - ESCAPE_LOOKBACK))"
    and "naive c m - ESCAPE_LOOKBACK \<le> cut c m"
proof -
  let ?n = "naive c m" and ?l = "naive c m - ESCAPE_LOOKBACK"
  let ?k = "min ESCAPE_LOOKBACK (naive c m)"
  let ?b = "drop ?l c"
  have nl: "?n \<le> length c" "?l + ?k = ?n" by (auto simp: naive_def)
  have w: "slice ?b (?k - ESCAPE_LOOKBACK) ?k = Some (window c m)"
  proof -
    have "window c m = take ?k (drop ?l c)"
      unfolding window_def drop_take using nl(2) by (metis add_diff_cancel_left')
    moreover have "?k \<le> length ?b" using nl by simp
    ultimately show ?thesis by (simp add: slice_def)
  qed
  have s: "skip_cont ?b ?k = skip_cont c ?n - ?l"
    using skip_cont_drop [of ?l c ?k] nl(2) by simp
  have e: "slice ?b i ?k = Some (drop (?l + i) (take ?n c))" if "i \<le> ?k" for i
  proof -
    have "?k - i = ?n - (?l + i)" using nl(2) by linarith
    moreover have "?k \<le> length ?b" using nl by simp
    ultimately show ?thesis using that by (simp add: slice_def drop_take add.commute)
  qed
  show "safe_trim_start ?b ?k = Some (cut c m - ?l)"
  proof (cases "rposition (\<lambda>b. b = 0x1b) (window c m)")
    case None
    then show ?thesis using w s
      by (simp add: safe_trim_start_def Let_def cut_def esc_before_def)
  next
    case (Some i)
    then have "i < length (window c m)" by (simp add: rposition_Some)
    then have "i \<le> ?k" by (auto simp: window_def)
    then show ?thesis using w s Some e [of i]
      by (simp add: safe_trim_start_def Let_def cut_def esc_before_def)
  qed
  show "?l \<le> cut c m" using cut_ge [of c m] by (simp add: naive_def)
qed

section \<open>Rotation when the kernel does not fail\<close>

definition fine :: "rotate_io \<Rightarrow> bool" where
  "fine io \<longleftrightarrow> seek_end_ok io \<and> seek_read_ok io \<and> read_res io = ReadFull \<and> set_len_ok io \<and>
     seek_start_ok io \<and> write_res io = WriteFull \<and> seek_final_ok io"

definition rotated :: "bytes \<Rightarrow> nat \<Rightarrow> bytes" where
  "rotated c m = (if length c \<le> m then c else drop (cut c m) c)"

lemma file_update [simp]: "f\<lparr>content := a, pos := b\<rparr> = \<lparr>content = a, pos = b\<rparr>"
  by (cases f) simp

lemma rotate_fine:
  assumes "fine io"
  shows "rotate_log_file io f m =
    (Ok (), \<lparr>content = rotated (content f) m, pos = length (rotated (content f) m)\<rparr>)"
proof (cases "length (content f) \<le> m")
  case True
  then show ?thesis using assms by (cases f) (simp add: rotate_log_file_def fine_def Let_def rotated_def)
next
  case False
  let ?c = "content f" and ?n = "naive (content f) m"
  let ?l = "naive (content f) m - ESCAPE_LOOKBACK"
  have n: "?n - min ESCAPE_LOOKBACK ?n = ?l" "length ?c - m = ?n" by (simp_all add: naive_def)
  have a: "take (m + min ESCAPE_LOOKBACK ?n) (drop ?l ?c) = drop ?l ?c"
    using False by (simp add: naive_def)
  have d: "drop (cut ?c m - ?l) (drop ?l ?c) = drop (cut ?c m) ?c"
    using safe_trim_start_cut(2) [of m ?c] False by simp
  have le: "\<not> length (drop ?l ?c) < cut ?c m - ?l" using cut_le [of ?c m] by simp
  show ?thesis
    using assms False safe_trim_start_cut(1) [of m ?c] a d le n
    by (simp add: rotate_log_file_def fine_def Let_def rotated_def
        write_all_def write_at_def set_len_def)
qed

lemma length_rotated: "length (rotated c m) \<le> m + ESCAPE_LOOKBACK"
  using cut_ge [of c m] by (auto simp: rotated_def)

lemma rotated_suffix: "suffix (rotated c m) c"
  by (simp add: rotated_def suffix_drop)

text \<open>
  What is left of a history \<open>h\<close> in a log of cap \<open>m\<close>: a tail from which nothing of the last
  \<open>m\<close> bytes is missing except UTF-8 continuation bytes at its front.
\<close>

definition keeps :: "bytes \<Rightarrow> nat \<Rightarrow> bytes \<Rightarrow> bool" where
  "keeps h m x \<longleftrightarrow>
     (\<exists>k \<le> length h. x = drop k h \<and> (\<forall>i. length h - m \<le> i \<and> i < k \<longrightarrow> is_cont (h ! i)))"

lemma keeps_append: "keeps h m x \<Longrightarrow> keeps (h @ d) m (x @ d)"
proof -
  assume "keeps h m x"
  then obtain k where "k \<le> length h" "x = drop k h" "\<forall>i. length h - m \<le> i \<and> i < k \<longrightarrow> is_cont (h ! i)"
    by (auto simp: keeps_def)
  then show ?thesis unfolding keeps_def by (intro exI [of _ k]) (auto simp: nth_append)
qed

lemma keeps_rotated: "keeps h m x \<Longrightarrow> keeps h m (rotated x m)"
proof -
  assume "keeps h m x"
  then obtain k where k: "k \<le> length h" "x = drop k h" "\<forall>i. length h - m \<le> i \<and> i < k \<longrightarrow> is_cont (h ! i)"
    by (auto simp: keeps_def)
  show ?thesis
  proof (cases "length x \<le> m")
    case True
    then show ?thesis using \<open>keeps h m x\<close> by (simp add: rotated_def)
  next
    case False
    have "is_cont (h ! i)" if "length h - m \<le> i" "i < k + cut x m" for i
    proof -
      have "naive x m \<le> i - k" "i - k < cut x m" using that False k(2) by (auto simp: naive_def)
      then have "is_cont (x ! (i - k))" by (rule cut_skips)
      then show ?thesis using that False k(1,2) by simp
    qed
    moreover have "k + cut x m \<le> length h" using cut_le [of x m] k(1,2) by simp
    ultimately show ?thesis unfolding keeps_def using False k(2)
      by (intro exI [of _ "k + cut x m"]) (simp add: rotated_def add.commute)
  qed
qed

lemma keeps_all: "keeps h m h"
  unfolding keeps_def by (intro exI [of _ 0]) simp

section \<open>Appending\<close>

text \<open>
  The invariant of an open log: the offset is at the end, the size in memory is the file's, and
  the file is at most one lookback over the cap.
\<close>

definition log_wf :: "SessionLog \<Rightarrow> bool" where
  "log_wf l \<longleftrightarrow> pos (log_file l) = length (content (log_file l)) \<and>
     current_size l = length (content (log_file l)) \<and>
     current_size l \<le> max_size l + ESCAPE_LOOKBACK"

lemma write_at_end: "pos f = length (content f) \<Longrightarrow>
    write_at f d = \<lparr>content = content f @ d, pos = length (content f @ d)\<rparr>"
  by (cases f) (simp add: write_at_def)

lemma log_open_fine:
  assumes "fine io"
  shows "log_open io True (Some c) m =
    Ok \<lparr>log_file = \<lparr>content = rotated c m, pos = length (rotated c m)\<rparr>,
       max_size = m, current_size = length (rotated c m)\<rparr>"
  by (simp add: log_open_def rotate_fine [OF assms])

lemma log_open_wf: "fine io \<Longrightarrow> log_open io True (Some c) m = Ok l \<Longrightarrow> log_wf l"
  using length_rotated [of c m] by (auto simp: log_open_fine log_wf_def)

lemma log_append_fine:
  assumes "fine io" and "log_wf l"
  shows "log_append WriteFull io True l d =
    (Ok (), l\<lparr>log_file := \<lparr>content = rotated (content (log_file l) @ d) (max_size l),
                        pos = length (rotated (content (log_file l) @ d) (max_size l))\<rparr>,
            current_size := length (rotated (content (log_file l) @ d) (max_size l))\<rparr>)"
  using assms(2)
  by (simp add: log_append_def write_all_def log_wf_def write_at_end rotate_fine [OF assms(1)]
      rotated_def Let_def)

lemma log_append_wf [wf_rules]:
  "fine io \<Longrightarrow> log_wf l \<Longrightarrow> log_append WriteFull io True l d = (res, l') \<Longrightarrow> log_wf l'"
  using length_rotated [of "content (log_file l) @ d" "max_size l"]
  by (auto simp: log_append_fine log_wf_def)

text \<open>Appending a run of chunks, when the kernel does not fail.\<close>

definition log_append_all :: "rotate_io \<Rightarrow> SessionLog \<Rightarrow> bytes list \<Rightarrow> SessionLog" where
  "log_append_all io l ds = foldl (\<lambda>l d. snd (log_append WriteFull io True l d)) l ds"

lemma log_append_all_simps [simp]:
  "log_append_all io l [] = l"
  "log_append_all io l (d # ds) = log_append_all io (snd (log_append WriteFull io True l d)) ds"
  by (simp_all add: log_append_all_def)

lemma log_append_all_props:
  assumes "fine io" and "log_wf l"
    and "keeps h (max_size l) (content (log_file l))"
  shows "log_wf (log_append_all io l ds) \<and> max_size (log_append_all io l ds) = max_size l \<and>
    keeps (h @ concat ds) (max_size l) (content (log_file (log_append_all io l ds)))"
  using assms(2,3)
proof (induction ds arbitrary: l h)
  case (Cons d ds)
  let ?l = "snd (log_append WriteFull io True l d)"
  have wf: "log_wf ?l" using log_append_wf [OF assms(1) Cons.prems(1)] by (metis prod.collapse)
  have c: "content (log_file ?l) = rotated (content (log_file l) @ d) (max_size l)"
    "max_size ?l = max_size l"
    by (simp_all add: log_append_fine [OF assms(1) Cons.prems(1)])
  have "keeps (h @ d) (max_size ?l) (content (log_file ?l))"
    unfolding c using Cons.prems(2) by (intro keeps_rotated keeps_append)
  from Cons.IH [OF wf this] show ?case by (simp add: c(2))
qed simp

section \<open>What a terminal makes of a stream\<close>

text \<open>
  The two escape shapes the code recognises, as a terminal's parser: \<open>ESC\<close> starts a sequence from
  any state, \<open>ESC [\<close> runs to a final byte, any other \<open>ESC x\<close> is complete.
\<close>

datatype vt_state = Ground | Escape | Csi

fun vt_step :: "vt_state \<Rightarrow> u8 \<Rightarrow> vt_state" where
  "vt_step s b =
     (if b = 0x1b then Escape
      else case s of
             Ground \<Rightarrow> Ground
           | Escape \<Rightarrow> if b = 0x5b then Csi else Ground
           | Csi \<Rightarrow> if 0x40 \<le> b \<and> b \<le> 0x7e then Ground else Csi)"

definition vt_run :: "vt_state \<Rightarrow> bytes \<Rightarrow> vt_state" where
  "vt_run s bs = foldl vt_step s bs"

lemma vt_run_simps [simp]:
  "vt_run s [] = s"
  "vt_run s (b # bs) = vt_run (vt_step s b) bs"
  "vt_run s (as @ bs) = vt_run (vt_run s as) bs"
  by (simp_all add: vt_run_def)

lemma vt_ground: "0x1b \<notin> set bs \<Longrightarrow> vt_run Ground bs = Ground"
  by (induction bs) auto

lemma vt_csi: "0x1b \<notin> set bs \<Longrightarrow>
    vt_run Csi bs = (if list_ex (\<lambda>b. 0x40 \<le> b \<and> b \<le> 0x7e) bs then Ground else Csi)"
  by (induction bs) (auto simp: vt_ground)

lemma terminated_iff_ground:
  assumes "0x1b \<notin> set bs"
  shows "escape_sequence_terminated (0x1b # bs) \<longleftrightarrow> vt_run s (0x1b # bs) = Ground"
proof (cases bs)
  case (Cons b bs')
  then show ?thesis using assms vt_csi [of bs'] vt_ground [of bs'] by auto
qed simp

lemma is_cont_ge: "is_cont b \<Longrightarrow> 0x80 \<le> b"
  unfolding is_cont_def by (metis word_and_le2)

lemma is_cont_not_esc: "is_cont b \<Longrightarrow> b \<noteq> 0x1b"
  by (auto simp: is_cont_def)

lemma vt_cont: "\<forall>b \<in> set bs. is_cont b \<Longrightarrow> vt_run Ground bs = Ground"
  using is_cont_not_esc by (intro vt_ground) blast

text \<open>At the cut the parser is in its ground state, or the next byte resets it.\<close>

lemma cut_in_sync:
  assumes m: "m < length c"
    and open_near: "vt_run Ground (take (naive c m) c) \<noteq> Ground \<Longrightarrow> 0x1b \<in> set (window c m)"
  shows "cut c m < length c \<and> c ! cut c m = 0x1b \<or> vt_run Ground (take (cut c m) c) = Ground"
proof (cases rule: cut_cases [of c m])
  case (Esc e)
  then show ?thesis using esc_before_Some by auto
next
  case Skip
  let ?n = "naive c m"
  have nl: "?n \<le> length c" by (simp add: naive_def)
  have g: "vt_run Ground (take ?n c) = Ground"
  proof (cases "esc_before c m")
    case None
    then show ?thesis using open_near esc_before_None by blast
  next
    case (Some e)
    note e = esc_before_Some [OF Some]
    have "take ?n c = take e c @ 0x1b # drop (Suc e) (take ?n c)"
      using e nl id_take_nth_drop [of e "take ?n c"] by simp
    moreover have "drop e (take ?n c) = 0x1b # drop (Suc e) (take ?n c)"
      using e nl Cons_nth_drop_Suc [of e "take ?n c"] by simp
    ultimately show ?thesis
      using Skip(2) [OF Some] e terminated_iff_ground by (metis vt_run_simps(3))
  qed
  have k: "?n \<le> cut c m" "cut c m \<le> length c"
    using skip_cont_bounds [OF nl] Skip(1) by simp_all
  have "take (cut c m) c = take ?n c @ drop ?n (take (cut c m) c)"
    using k append_take_drop_id [of ?n "take (cut c m) c"] by simp
  moreover have "\<forall>b \<in> set (drop ?n (take (cut c m) c)). is_cont b"
    using skip_cont_between [of ?n _ c] Skip(1) k by (auto simp: in_set_conv_nth)
  ultimately show ?thesis using g vt_cont by (metis vt_run_simps(3))
qed

section \<open>UTF-8\<close>

text \<open>
  The shape of UTF-8: a lead byte that tells how many continuation bytes follow.
\<close>

definition lead_len :: "u8 \<Rightarrow> nat" where
  "lead_len b =
     (if b < 0x80 then 1
      else if 0xc0 \<le> b \<and> b < 0xe0 then 2
      else if 0xe0 \<le> b \<and> b < 0xf0 then 3
      else if 0xf0 \<le> b \<and> b < 0xf8 then 4
      else 0)"

function utf8 :: "bytes \<Rightarrow> bool" where
  "utf8 [] = True"
| "utf8 (b # bs) =
     (0 < lead_len b \<and> lead_len b - 1 \<le> length bs \<and> list_all is_cont (take (lead_len b - 1) bs) \<and>
      utf8 (drop (lead_len b - 1) bs))"
  by pat_completeness auto
termination
  by (relation "measure length") auto

lemma utf8_drop:
  "utf8 c \<Longrightarrow> k = length c \<or> k < length c \<and> \<not> is_cont (c ! k) \<Longrightarrow> utf8 (drop k c)"
proof (induction c arbitrary: k rule: utf8.induct)
  case (2 b bs)
  from 2(2) obtain n where n: "lead_len b = Suc n" by (cases "lead_len b") auto
  have u: "n \<le> length bs" "list_all is_cont (take n bs)" "utf8 (drop n bs)"
    using 2(2) by (simp_all add: n)
  show ?case
  proof (cases k)
    case (Suc j)
    show ?thesis
    proof (cases "j < n")
      case True
      then have "is_cont (bs ! j)" using u(1,2) by (auto simp: list_all_length)
      then show ?thesis using 2(3) True u(1) Suc by auto
    next
      case False
      then obtain i where "j = n + i" by (metis le_Suc_ex not_less)
      moreover have "i = length (drop n bs) \<or> i < length (drop n bs) \<and> \<not> is_cont (drop n bs ! i)"
        using 2(3) u(1) Suc calculation by auto
      ultimately show ?thesis using "2.IH" [of i] u(3) Suc by (simp add: n add.commute)
    qed
  qed (use 2(2) in simp)
qed simp

section \<open>Properties\<close>

lemma rotate_fine_content:
  "fine io \<Longrightarrow> rotate_log_file io f m = (res, f') \<Longrightarrow>
    res = Ok () \<and> content f' = rotated (content f) m \<and> pos f' = length (content f')"
  by (auto simp: rotate_fine)

text \<open>
  A rotation keeps a tail: when the kernel does not fail, it never panics, leaves a
  file within the cap untouched and otherwise keeps a tail of it that misses none of its last
  \<open>cap\<close> bytes except continuation bytes at its front, is at most \<open>ESCAPE_LOOKBACK\<close> bytes
  over the cap and never starts on a UTF-8 continuation byte; the offset ends at the end
  of the file, ready to append.
\<close>

theorem rotate_keeps_a_tail:
  assumes "fine io" and "rotate_log_file io f cap = (res, f')"
  shows "res = Ok () \<and> keeps (content f) cap (content f') \<and> pos f' = length (content f')
    \<and> (length (content f) \<le> cap \<longrightarrow> content f' = content f)
    \<and> length (content f') \<le> cap + ESCAPE_LOOKBACK
    \<and> (cap < length (content f) \<and> content f' \<noteq> [] \<longrightarrow> \<not> is_cont (hd (content f')))"
proof -
  have c: "res = Ok ()" "content f' = rotated (content f) cap" "pos f' = length (content f')"
    using rotate_fine_content [OF assms] by simp_all
  have "\<not> is_cont (hd (content f'))" if "cap < length (content f)" "content f' \<noteq> []"
    using that cut_boundary [of "content f" cap] by (auto simp: c(2) rotated_def hd_drop_conv_nth)
  then show ?thesis
    using c keeps_rotated [OF keeps_all] length_rotated [of "content f" cap] by (auto simp: rotated_def)
qed

definition fine_io :: rotate_io where
  "fine_io = \<lparr>seek_end_ok = True, seek_read_ok = True, read_res = ReadFull, set_len_ok = True,
     seek_start_ok = True, write_res = WriteFull, seek_final_ok = True\<rparr>"

lemma fine_io [simp]: "fine fine_io"
  by (simp add: fine_def fine_io_def)

theorem rotate_keeps_a_tail_witness:
  "\<exists>res f'. rotate_log_file fine_io \<lparr>content = [65, 66, 0x1b, 0x5b, 49, 50, 51, 71, 88, 89, 90, 87], pos = 0\<rparr> 6
      = (res, f') \<and> length (content f') \<le> 6 + ESCAPE_LOOKBACK
      \<and> content f' = [0x1b, 0x5b, 49, 50, 51, 71, 88, 89, 90, 87]"
proof -
  have r: "rotate_log_file fine_io \<lparr>content = [65, 66, 0x1b, 0x5b, 49, 50, 51, 71, 88, 89, 90, 87], pos = 0\<rparr> 6
    = (Ok (), \<lparr>content = [0x1b, 0x5b, 49, 50, 51, 71, 88, 89, 90, 87], pos = 10\<rparr>)"
    by code_simp
  then show ?thesis using rotate_keeps_a_tail [OF fine_io r] by simp
qed



text \<open>
  A rotation never splits a character: a log that is well-formed UTF-8 is still
  well-formed after it.
\<close>

theorem rotation_keeps_utf8:
  assumes "fine io" and "rotate_log_file io f cap = (res, f')" and "utf8 (content f)"
  shows "utf8 (content f')"
proof -
  have "utf8 (drop (cut (content f) cap) (content f))"
    using assms(3) cut_le cut_boundary by (intro utf8_drop) (auto intro: le_neq_implies_less)
  then show ?thesis using rotate_fine_content [OF assms(1,2)] assms(3) by (simp add: rotated_def)
qed

theorem rotation_keeps_utf8_witness:
  "utf8 (content \<lparr>content = [88, 89, 90, 87 :: u8], pos = 4\<rparr>)"
proof (rule rotation_keeps_utf8 [OF fine_io])
  show "rotate_log_file fine_io \<lparr>content = [65, 66, 0xe2, 0x94, 0x80, 88, 89, 90, 87], pos = 0\<rparr> 6
    = (Ok (), \<lparr>content = [88, 89, 90, 87], pos = 4\<rparr>)"
    by code_simp
  show "utf8 (content \<lparr>content = [65, 66, 0xe2, 0x94, 0x80, 88, 89, 90, 87], pos = 0\<rparr>)"
    by code_simp
qed

text \<open>
  Property C14. The life of a log: after opening over any existing contents and appending any
  chunks (while the kernel does not fail) the file is a tail of everything ever written to it that
  misses none of the last \<open>cap\<close> bytes except continuation bytes at its front; it is at most \<open>ESCAPE_LOOKBACK\<close> bytes over the cap, and the size held in memory is the file's.
\<close>

theorem log_is_bounded_suffix:
  assumes "fine io" and "log_open io True (Some existing) cap = Ok l"
  shows "keeps (existing @ concat chunks) cap (content (log_file (log_append_all io l chunks)))
    \<and> length (content (log_file (log_append_all io l chunks))) \<le> cap + ESCAPE_LOOKBACK
    \<and> current_size (log_append_all io l chunks) =
        length (content (log_file (log_append_all io l chunks)))"
proof -
  have l: "log_wf l" "content (log_file l) = rotated existing cap" "max_size l = cap"
    using log_open_wf [OF assms] assms by (auto simp: log_open_fine)
  have "keeps existing (max_size l) (content (log_file l))"
    unfolding l(2,3) by (intro keeps_rotated keeps_all)
  from log_append_all_props [OF assms(1) l(1) this, of chunks] l(3)
  show ?thesis by (auto simp: log_wf_def)
qed

theorem log_is_bounded_suffix_witness:
  "keeps ([48, 54, 55, 56, 57] @ concat [[88]]) 4 (content (log_file (log_append_all fine_io
       \<lparr>log_file = \<lparr>content = [54, 55, 56, 57], pos = 4\<rparr>, max_size = 4, current_size = 4\<rparr> [[88]])))
   \<and> length (content (log_file (log_append_all fine_io
       \<lparr>log_file = \<lparr>content = [54, 55, 56, 57], pos = 4\<rparr>, max_size = 4, current_size = 4\<rparr> [[88]])))
     \<le> 4 + ESCAPE_LOOKBACK
   \<and> current_size (log_append_all fine_io
       \<lparr>log_file = \<lparr>content = [54, 55, 56, 57], pos = 4\<rparr>, max_size = 4, current_size = 4\<rparr> [[88]]) =
     length (content (log_file (log_append_all fine_io
       \<lparr>log_file = \<lparr>content = [54, 55, 56, 57], pos = 4\<rparr>, max_size = 4, current_size = 4\<rparr> [[88]])))"
proof (rule log_is_bounded_suffix [OF fine_io])
  show "log_open fine_io True (Some [48, 54, 55, 56, 57]) 4 =
      Ok \<lparr>log_file = \<lparr>content = [54, 55, 56, 57], pos = 4\<rparr>, max_size = 4, current_size = 4\<rparr>"
    by code_simp
qed

text \<open>
  The cap is not a bound on the log's size: an append can leave the file over
  \<open>max_size\<close>, because a rotation keeps an escape sequence that the plain cut would split.
\<close>

theorem log_can_exceed_cap:
  "\<exists>l l'. log_open fine_io True (Some []) 4 = Ok l
     \<and> log_append WriteFull fine_io True l [0x1b, 0x5b, 49, 50, 51, 109] = (Ok (), l')
     \<and> max_size l' = 4 \<and> length (content (log_file l')) = 6"
proof -
  have "log_open fine_io True (Some []) 4 =
      Ok \<lparr>log_file = \<lparr>content = [], pos = 0\<rparr>, max_size = 4, current_size = 0\<rparr>"
    by code_simp
  moreover have "log_append WriteFull fine_io True
      \<lparr>log_file = \<lparr>content = [], pos = 0\<rparr>, max_size = 4, current_size = 0\<rparr> [0x1b, 0x5b, 49, 50, 51, 109] =
      (Ok (), \<lparr>log_file = \<lparr>content = [0x1b, 0x5b, 49, 50, 51, 109], pos = 6\<rparr>,
               max_size = 4, current_size = 6\<rparr>)"
    by code_simp
  ultimately show ?thesis by (auto simp: log_open_def)
qed

text \<open>
  Truncating the file of an open log behind its back (what \<open>hytch clear\<close> does to
  a running session) does not clear it for the writer: its offset and its size stay, so the next
  append within the cap leaves a file of the old length plus the new data, whose beginning is
  zero bytes.
\<close>

theorem append_after_external_clear:
  assumes "log_wf l" and "current_size l + length dat \<le> max_size l" and "dat \<noteq> []"
  shows "log_append w io mdok (l\<lparr>log_file := set_len (log_file l) 0\<rparr>) dat =
    (case w of
       WriteFull \<Rightarrow> (Ok (), l\<lparr>log_file := \<lparr>content = replicate (current_size l) 0 @ dat,
                                    pos = current_size l + length dat\<rparr>,
                          current_size := current_size l + length dat\<rparr>)
     | WriteErr k \<Rightarrow> (Err WriteError,
         l\<lparr>log_file := write_at (set_len (log_file l) 0) (take k dat)\<rparr>))"
  using assms
  by (auto simp: log_append_def write_all_def log_wf_def set_len_def write_at_def Let_def
      split: write_outcome.splits)

theorem append_after_external_clear_witness:
  "log_append WriteFull fine_io True
     (\<lparr>log_file = \<lparr>content = [65, 66, 67], pos = 3\<rparr>, max_size = 9, current_size = 3\<rparr>
        \<lparr>log_file := set_len \<lparr>content = [65, 66, 67], pos = 3\<rparr> 0\<rparr>) [88]
   = (Ok (), \<lparr>log_file = \<lparr>content = [0, 0, 0, 88], pos = 4\<rparr>, max_size = 9, current_size = 4\<rparr>)"
  using append_after_external_clear
    [of "\<lparr>log_file = \<lparr>content = [65, 66, 67], pos = 3\<rparr>, max_size = 9, current_size = 3\<rparr>" "[88]"
      WriteFull fine_io True]
  by (simp add: log_wf_def numeral_eq_Suc)

lemma safe_trim_start_short: "length bs < k \<Longrightarrow> safe_trim_start bs k = None"
  by (simp add: safe_trim_start_def slice_def Let_def)

text \<open>
  A rotation that reads back less than the lookback (a short read, or a file that
  another process truncated since its size was taken) panics on a slice, and the panic comes
  before anything was written, so the file is as it was; but the thread that owns the log is
  gone.
\<close>

theorem rotate_short_read_panics:
  assumes "seek_end_ok io" and "seek_read_ok io" and "read_res io = ReadShort n"
    and "n < ESCAPE_LOOKBACK" and "cap + n < length (content f)"
  shows "fst (rotate_log_file io f cap) = Panic
    \<and> content (snd (rotate_log_file io f cap)) = content f"
proof -
  let ?k = "min ESCAPE_LOOKBACK (length (content f) - cap)"
  let ?b = "take n (take (cap + ?k) (drop (length (content f) - cap - ?k) (content f)))"
  have "length ?b < ?k" using assms(4,5) by auto
  then have "safe_trim_start ?b ?k = None" by (rule safe_trim_start_short)
  then show ?thesis
    using assms by (simp_all add: rotate_log_file_def Let_def)
qed

theorem rotate_short_read_panics_witness:
  "fst (rotate_log_file (fine_io\<lparr>read_res := ReadShort 0\<rparr>) \<lparr>content = [65, 66, 67], pos = 3\<rparr> 2) = Panic
   \<and> content (snd (rotate_log_file (fine_io\<lparr>read_res := ReadShort 0\<rparr>) \<lparr>content = [65, 66, 67], pos = 3\<rparr> 2)) =
      content \<lparr>content = [65, 66, 67], pos = 3\<rparr>"
  by (rule rotate_short_read_panics) (simp_all add: fine_io_def ESCAPE_LOOKBACK_def)

end
