(* ===== verification/Age.thy ===== *)
theory Age
  imports Unix_Path
begin

text \<open>
  Session age for the end-of-session marker, crates/daemon/src/age.rs. The seconds are a
  \<open>u64\<close>; nothing is added or multiplied, so natural numbers are exact.
\<close>

section \<open>Formatting\<close>

definition format_age :: "nat \<Rightarrow> string" where
  "format_age total_secs =
     (let d = total_secs div 86400;
          h = (total_secs mod 86400) div 3600;
          m = (total_secs mod 3600) div 60;
          s = total_secs mod 60
      in if d > 0 then
           dec_string d @ ''d '' @ dec_string h @ ''h '' @ dec_string m @ ''m '' @ dec_string s @ ''s''
         else if h > 0 then
           dec_string h @ ''h '' @ dec_string m @ ''m '' @ dec_string s @ ''s''
         else if m > 0 then dec_string m @ ''m '' @ dec_string s @ ''s''
         else dec_string s @ ''s'')"

section \<open>Reading it back\<close>

definition unit_secs :: "char \<Rightarrow> nat option" where
  "unit_secs u =
     (if u = CHR ''d'' then Some 86400
      else if u = CHR ''h'' then Some 3600
      else if u = CHR ''m'' then Some 60
      else if u = CHR ''s'' then Some 1 else None)"

definition field_secs :: "string \<Rightarrow> nat option" where
  "field_secs f =
     (if f = [] then None
      else case (parse_digits 0 (butlast f), unit_secs (last f)) of
             (Some n, Some k) \<Rightarrow> Some (n * k)
           | _ \<Rightarrow> None)"

definition parse_age :: "string \<Rightarrow> nat option" where
  "parse_age s = map_option sum_list (those (map field_secs (split_on (CHR '' '') s)))"

lemma digit_char_not: "d < 10 \<Longrightarrow> digit_val c = None \<Longrightarrow> digit_char d \<noteq> c"
  by (metis digit_val_char option.distinct(1))

lemma dec_string_digits: "digit_val c = None \<Longrightarrow> c \<notin> set (dec_string n)"
proof (induction n rule: dec_string.induct)
  case (1 n)
  then show ?case using digit_char_not [of n c] digit_char_not [of "n mod 10" c]
    by (subst dec_string.simps) auto
qed

lemma no_space: "CHR '' '' \<notin> set (dec_string n)"
  by (rule dec_string_digits) (simp add: digit_val_def Let_def)

lemma field_secs_dec: "unit_secs u = Some k \<Longrightarrow> field_secs (dec_string n @ [u]) = Some (n * k)"
  by (simp add: field_secs_def butlast_append)

lemma split_field:
  "split_on (CHR '' '') (dec_string n @ u # CHR '' '' # rest) =
    (if u = CHR '' '' then [dec_string n, []] else [dec_string n @ [u]]) @ split_on (CHR '' '') rest"
proof (cases "u = CHR '' ''")
  case True
  then show ?thesis using split_on_append [of "CHR '' ''" "dec_string n" "CHR '' '' # rest"] no_space by simp
next
  case False
  then show ?thesis
    using split_on_append [of "CHR '' ''" "dec_string n @ [u]" rest] no_space by simp
qed

lemma split_last_field:
  "u \<noteq> CHR '' '' \<Longrightarrow> split_on (CHR '' '') (dec_string n @ [u]) = [dec_string n @ [u]]"
  using no_space by simp

lemma secs_days: "(n::nat) div 86400 * 86400 +
    ((n mod 86400) div 3600 * 3600 + ((n mod 3600) div 60 * 60 + n mod 60)) = n"
  and secs_hours: "n div 3600 * 3600 + ((n mod 3600) div 60 * 60 + n mod 60) = n"
proof -
  have "n mod 3600 mod 60 = n mod 60" by (rule mod_mod_cancel) simp
  then have m: "(n mod 3600) div 60 * 60 + n mod 60 = n mod 3600" by (metis div_mult_mod_eq)
  then show "n div 3600 * 3600 + ((n mod 3600) div 60 * 60 + n mod 60) = n" by simp
  have "n mod 86400 mod 3600 = n mod 3600" by (rule mod_mod_cancel) simp
  then have "(n mod 86400) div 3600 * 3600 + n mod 3600 = n mod 86400" by (metis div_mult_mod_eq)
  then show "n div 86400 * 86400 +
    ((n mod 86400) div 3600 * 3600 + ((n mod 3600) div 60 * 60 + n mod 60)) = n"
    by (simp add: m)
qed

section \<open>Properties\<close>

text \<open>
  The age printed in the end marker is exact: reading the fields back and adding
  them up in their units gives the number of seconds, for every duration, so no two durations
  are printed alike.
\<close>

theorem format_age_exact:
  "parse_age (format_age total_secs) = Some total_secs"
  using secs_days [of total_secs] secs_hours [of total_secs]
  by (simp add: parse_age_def format_age_def Let_def split_field split_last_field field_secs_dec
      unit_secs_def)

end
