(* ===== verification/Client_Task.thy ===== *)
theory Client_Task
  imports Framing Fanout
begin

text \<open>
  The daemon's task for one connection: \<open>handle_client\<close> and \<open>recv_next\<close> in
  crates/daemon/src/daemon.rs. The task waits for whichever comes first, the next control message
  or the next output chunk; a sequence of such events, with pushes of the daemon loop in between,
  is a list here, and the theorems hold for every list. The effects are what it writes to the
  socket and sends on the two command channels; whether a write or a send succeeds is part of
  the event. Signals are the ones \<open>rustix\<close> knows, a parameter (\<open>sigs\<close>).
\<close>

section \<open>The task\<close>

record 'sig sigs =
  from_raw :: "int \<Rightarrow> 'sig option"
  term_sig :: 'sig

datatype 'sig ControlCommand = Resize u16 u16 | Signal 'sig

datatype 'sig effect =
    WriteOut bytes
  | PushTx bytes
  | ControlTx "'sig ControlCommand"

text \<open>
  \<open>FromClient r ok\<close>: \<open>framed.next()\<close> yields \<open>Some(r)\<close>, and the write or send that follows succeeds
  if \<open>ok\<close>. \<open>ClientEof\<close>: it yields \<open>None\<close>. \<open>PollOutput ok\<close>: the other branch of the select is polled.
  \<open>DaemonPush d\<close>: the daemon loop pushes \<open>d\<close> into the shared fanout.
\<close>

datatype event =
    FromClient "codec_error + Message" bool
  | ClientEof
  | PollOutput bool
  | DaemonPush bytes

record ('ch, 'rx) task =
  shared :: "'ch Fanout"
  attached :: "'rx option"
  running :: bool

definition stop :: "('ch, 'rx) task \<Rightarrow> ('ch, 'rx) task" where
  "stop t = t\<lparr>running := False\<rparr>"

definition on_message ::
    "('ch, 'rx) bcast \<Rightarrow> 'sig sigs \<Rightarrow> ('ch, 'rx) task \<Rightarrow> Message \<Rightarrow> bool
      \<Rightarrow> (('ch, 'rx) task \<times> 'sig effect list) option" where
  "on_message B S t msg ok =
     (case msg of
        Attach skip \<Rightarrow>
          (case fan_attach B (shared t) of
             None \<Rightarrow> None
           | Some ((snap, rx), f) \<Rightarrow>
               (let t = t\<lparr>shared := f\<rparr> in
                if \<not> skip \<and> \<not> ok then Some (stop t, [WriteOut snap])
                else Some (t\<lparr>attached := Some rx\<rparr>, if \<not> skip then [WriteOut snap] else [])))
      | Detach \<Rightarrow> Some (t\<lparr>attached := None\<rparr>, [])
      | Push dat \<Rightarrow> if \<not> ok then Some (stop t, []) else Some (t, [PushTx dat])
      | Winch rows cols \<Rightarrow>
          if \<not> ok then Some (stop t, []) else Some (t, [ControlTx (Resize rows cols)])
      | Redraw method rows cols \<Rightarrow>
          if method \<noteq> NoRedraw \<and> \<not> ok then Some (stop t, [])
          else Some (t, if method \<noteq> NoRedraw then [ControlTx (Resize rows cols)] else [])
      | Kill signal \<Rightarrow>
          (let sig = (case from_raw S (uint signal) of Some s \<Rightarrow> s | None \<Rightarrow> term_sig S) in
           if \<not> ok then Some (stop t, []) else Some (t, [ControlTx (Signal sig)])))"

text \<open>\<open>recv_next\<close>: pending for ever while detached; otherwise the receiver's next result.\<close>

definition recv_next :: "('ch, 'rx) bcast \<Rightarrow> 'ch \<Rightarrow> 'rx option \<Rightarrow> recv_result \<times> 'rx option" where
  "recv_next B ch rx =
     (case rx of
        None \<Rightarrow> (Waiting, None)
      | Some r \<Rightarrow> (let (res, r') = bc_recv B ch r in (res, Some r')))"

definition on_output ::
    "('ch, 'rx) bcast \<Rightarrow> ('ch, 'rx) task \<Rightarrow> bool \<Rightarrow> ('ch, 'rx) task \<times> 'sig effect list" where
  "on_output B t ok =
     (case recv_next B (tx (shared t)) (attached t) of
        (Waiting, rx) \<Rightarrow> (t\<lparr>attached := rx\<rparr>, [])
      | (Got dat, rx) \<Rightarrow>
          (let t = t\<lparr>attached := rx\<rparr> in
           if \<not> ok then (stop t, [WriteOut dat]) else (t, [WriteOut dat]))
      | (Lagged n, rx) \<Rightarrow> (stop (t\<lparr>attached := rx\<rparr>), [])
      | (Closed, rx) \<Rightarrow> (stop (t\<lparr>attached := rx\<rparr>), []))"

fun task_step ::
    "('ch, 'rx) bcast \<Rightarrow> 'sig sigs \<Rightarrow> ('ch, 'rx) task \<Rightarrow> event
      \<Rightarrow> (('ch, 'rx) task \<times> 'sig effect list) option" where
  "task_step B S t (DaemonPush d) =
     (case fan_push B (shared t) d of None \<Rightarrow> None | Some f \<Rightarrow> Some (t\<lparr>shared := f\<rparr>, []))"
| "task_step B S t (FromClient r ok) =
     (if \<not> running t then Some (t, [])
      else case r of Inl e \<Rightarrow> Some (stop t, []) | Inr m \<Rightarrow> on_message B S t m ok)"
| "task_step B S t ClientEof = Some (if running t then stop t else t, [])"
| "task_step B S t (PollOutput ok) = Some (if running t then on_output B t ok else (t, []))"

fun task_run ::
    "('ch, 'rx) bcast \<Rightarrow> 'sig sigs \<Rightarrow> ('ch, 'rx) task \<Rightarrow> event list
      \<Rightarrow> (('ch, 'rx) task \<times> 'sig effect list) option" where
  "task_run B S t [] = Some (t, [])"
| "task_run B S t (e # es) =
     (case task_step B S t e of
        None \<Rightarrow> None
      | Some (t', ef) \<Rightarrow>
          (case task_run B S t' es of None \<Rightarrow> None | Some (t'', efs) \<Rightarrow> Some (t'', ef @ efs)))"

definition task_start :: "'ch Fanout \<Rightarrow> ('ch, 'rx) task" where
  "task_start f = \<lparr>shared = f, attached = None, running = True\<rparr>"

section \<open>Projections of a run\<close>

text \<open>What was written to the client, and what was sent on each channel, in order.\<close>

fun written :: "'sig effect list \<Rightarrow> bytes" where
  "written [] = []"
| "written (WriteOut d # es) = d @ written es"
| "written (_ # es) = written es"

fun pushed :: "'sig effect list \<Rightarrow> bytes list" where
  "pushed [] = []"
| "pushed (PushTx d # es) = d # pushed es"
| "pushed (_ # es) = pushed es"

fun controls :: "'sig effect list \<Rightarrow> 'sig ControlCommand list" where
  "controls [] = []"
| "controls (ControlTx c # es) = c # controls es"
| "controls (_ # es) = controls es"

lemma projections_append [simp]:
  "written (xs @ ys) = written xs @ written ys"
  "pushed (xs @ ys) = pushed xs @ pushed ys"
  "controls (xs @ ys) = controls xs @ controls ys"
proof -
  show "written (xs @ ys) = written xs @ written ys" by (induction xs rule: written.induct) auto
  show "pushed (xs @ ys) = pushed xs @ pushed ys" by (induction xs rule: pushed.induct) auto
  show "controls (xs @ ys) = controls xs @ controls ys" by (induction xs rule: controls.induct) auto
qed

text \<open>What the daemon loop pushed, and the messages the task was given.\<close>

fun daemon_pushes :: "event list \<Rightarrow> bytes list" where
  "daemon_pushes [] = []"
| "daemon_pushes (DaemonPush d # es) = d # daemon_pushes es"
| "daemon_pushes (_ # es) = daemon_pushes es"

fun messages :: "event list \<Rightarrow> Message list" where
  "messages [] = []"
| "messages (FromClient (Inr m) _ # es) = m # messages es"
| "messages (_ # es) = messages es"

text \<open>The control commands a message stands for.\<close>

fun control_of :: "'sig sigs \<Rightarrow> Message \<Rightarrow> 'sig ControlCommand list" where
  "control_of S (Winch r c) = [Resize r c]"
| "control_of S (Redraw m r c) = (if m = NoRedraw then [] else [Resize r c])"
| "control_of S (Kill s) = [Signal (case from_raw S (uint s) of Some g \<Rightarrow> g | None \<Rightarrow> term_sig S)]"
| "control_of S _ = []"

section \<open>Commands\<close>

lemmas task_defs = on_message_def on_output_def recv_next_def stop_def

lemma stopped_step: "\<not> running t \<Longrightarrow> task_step B S t e = Some (t', ef) \<Longrightarrow> \<not> running t' \<and> ef = []"
  by (cases e) (auto split: option.splits)

lemma stopped_run: "\<not> running t \<Longrightarrow> task_run B S t es = Some (t', efs) \<Longrightarrow> \<not> running t' \<and> efs = []"
proof (induction es arbitrary: t efs)
  case (Cons e es)
  from Cons.prems(2) obtain u ef efs' where u: "task_step B S t e = Some (u, ef)"
    "task_run B S u es = Some (t', efs')" "efs = ef @ efs'"
    by (auto split: option.splits)
  have "\<not> running u \<and> ef = []" using stopped_step [OF Cons.prems(1) u(1)] .
  then show ?case using Cons.IH [of u efs'] u by simp
qed simp

lemma step_commands:
  assumes "running t" and "task_step B S t e = Some (t', ef)"
  shows "if running t'
    then pushed ef = concat (map push_of (messages [e])) \<and>
         controls ef = concat (map (control_of S) (messages [e]))
    else pushed ef = [] \<and> controls ef = []"
  using assms
  by (cases e)
    (auto simp: task_defs Let_def split: option.splits sum.splits Message.splits if_splits
      prod.splits recv_result.splits)

lemma messages_Cons: "messages (e # es) = messages [e] @ messages es"
proof (cases e)
  case (FromClient r ok)
  then show ?thesis by (cases r) simp_all
qed simp_all

lemma run_commands:
  assumes "running t" and "task_run B S t es = Some (t', efs)"
  shows "prefix (pushed efs) (concat (map push_of (messages es)))
    \<and> prefix (controls efs) (concat (map (control_of S) (messages es)))
    \<and> (running t' \<longrightarrow> pushed efs = concat (map push_of (messages es))
        \<and> controls efs = concat (map (control_of S) (messages es)))"
  using assms
proof (induction es arbitrary: t efs)
  case (Cons e es)
  from Cons.prems(2) obtain u ef efs' where u: "task_step B S t e = Some (u, ef)"
    "task_run B S u es = Some (t', efs')" "efs = ef @ efs'"
    by (auto split: option.splits)
  note m = messages_Cons [of e es]
  show ?case
  proof (cases "running u")
    case True
    then show ?thesis using step_commands [OF Cons.prems(1) u(1)] Cons.IH [OF True u(2)] u(3)
      by (simp add: m)
  next
    case False
    then show ?thesis using step_commands [OF Cons.prems(1) u(1)] stopped_run [OF False u(2)] u(3)
      by simp
  qed
qed simp

section \<open>Output\<close>

text \<open>Control messages other than attach and detach.\<close>

fun typing :: "event \<Rightarrow> bool" where
  "typing (FromClient (Inr (Attach _)) _) = False"
| "typing (FromClient (Inr Detach) _) = False"
| "typing _ = True"

lemma daemon_pushes_Cons: "daemon_pushes (e # es) = daemon_pushes [e] @ daemon_pushes es"
  by (cases e) auto

lemma on_message_typing:
  assumes "typing (FromClient (Inr m) ok)"
  shows "\<exists>t' ef. on_message B S t m ok = Some (t', ef) \<and> written ef = [] \<and>
    (t' = t \<or> t' = stop t)"
  using assms by (cases m; cases ok) (auto simp: on_message_def Let_def)

context broadcast
begin

text \<open>
  \<open>ds\<close> are the chunks handed to an attached client, \<open>outs\<close> those pushed since it attached.
\<close>

definition task_inv :: "nat \<Rightarrow> bytes list \<Rightarrow> bytes list \<Rightarrow> ('ch, 'rx) task \<Rightarrow> bool" where
  "task_inv cap outs ds t \<longleftrightarrow> fan_wf (shared t) \<and> prefix ds outs \<and>
     (running t \<longrightarrow> (\<exists>rx. attached t = Some rx \<and> live (tx (shared t)) rx \<and>
        bcap (tx (shared t)) = cap \<and> ds @ backlog (tx (shared t)) rx = outs))"

lemma task_push:
  assumes "task_inv cap outs ds t"
  shows "\<exists>t'. task_step B S t (DaemonPush d) = Some (t', []) \<and> task_inv cap (outs @ [d]) ds t'"
proof -
  have "fan_wf (shared t)" using assms by (simp add: task_inv_def)
  then obtain f where f: "fan_push B (shared t) d = Some f" "fan_wf f"
    "tx f = bc_send B (tx (shared t)) d"
    by (rule fan_push_ring)
  then show ?thesis
    using assms send [of "tx (shared t)" _ d] by (auto simp: task_inv_def send_cap)
qed

lemma task_poll:
  assumes t: "task_inv cap outs ds t"
  shows "\<exists>t' ef ds'. task_step B S t (PollOutput ok) = Some (t', ef) \<and> written ef = concat ds' \<and>
    task_inv cap outs (ds @ ds') t'"
proof (cases "running t")
  case False
  then show ?thesis using t by (intro exI [of _ t] exI [of _ "[]"]) simp
next
  case True
  let ?ch = "tx (shared t)"
  obtain rx where rx: "attached t = Some rx" "live ?ch rx" "ds @ backlog ?ch rx = outs"
    using t True by (auto simp: task_inv_def)
  let ?b = "backlog ?ch rx"
  consider "?b = []" | m ms where "?b = m # ms" "length ?b \<le> bcap ?ch" | "bcap ?ch < length ?b"
    by (metis list.exhaust not_less)
  then show ?thesis
  proof cases
    case 1
    then show ?thesis using t True rx recv_empty [OF rx(2)]
      by (intro exI [of _ t] exI [of _ "[]"]) (auto simp: on_output_def recv_next_def)
  next
    case 2
    obtain q where q: "bc_recv B ?ch rx = (Got m, q)" "live ?ch q" "backlog ?ch q = ms"
      using recv_got [OF rx(2) 2] by blast
    let ?t = "t\<lparr>attached := Some q\<rparr>"
    have "task_inv cap outs (ds @ [m]) ?t" "task_inv cap outs (ds @ [m]) (stop ?t)"
      using t True rx q 2(1) by (auto simp: task_inv_def stop_def)
    then show ?thesis using True rx(1) q(1)
      by (intro exI [of _ "if ok then ?t else stop ?t"] exI [of _ "[WriteOut m]"] exI [of _ "[m]"])
        (auto simp: on_output_def recv_next_def Let_def)
  next
    case 3
    obtain q where "bc_recv B ?ch rx = (Lagged (length ?b - bcap ?ch), q)"
      using recv_lag [OF rx(2) 3] by blast
    then show ?thesis using t True rx
      by (intro exI [of _ "stop (t\<lparr>attached := Some q\<rparr>)"] exI [of _ "[]"])
        (auto simp: on_output_def recv_next_def task_inv_def stop_def)
  qed
qed

lemma task_event:
  assumes t: "task_inv cap outs ds t" and e: "typing e"
  shows "\<exists>t' ef ds'. task_step B S t e = Some (t', ef) \<and> written ef = concat ds' \<and>
    task_inv cap (outs @ daemon_pushes [e]) (ds @ ds') t'"
proof (cases e)
  case (DaemonPush d)
  then show ?thesis using task_push [OF t, of S d] by (metis append_Nil2 concat.simps(1) daemon_pushes.simps(1,2) written.simps(1))
next
  case (PollOutput ok)
  then show ?thesis using task_poll [OF t, of S ok] by simp
next
  case ClientEof
  have "task_inv cap outs ds (stop t)" using t by (simp add: task_inv_def stop_def)
  then show ?thesis using t ClientEof
    by (intro exI [of _ "if running t then stop t else t"] exI [of _ "[]"]) simp
next
  case (FromClient r ok)
  have s: "task_inv cap outs ds (stop t)" using t by (simp add: task_inv_def stop_def)
  show ?thesis
  proof (cases "running t \<and> (\<exists>m. r = Inr m)")
    case True
    then obtain m where m: "r = Inr m" by blast
    obtain t' ef where "on_message B S t m ok = Some (t', ef)" "written ef = []"
      "t' = t \<or> t' = stop t"
      using on_message_typing [of m ok B S t] e FromClient m by auto
    then show ?thesis using True m FromClient t s
      by (intro exI [of _ t'] exI [of _ ef] exI [of _ "[]"]) auto
  next
    case False
    then show ?thesis using FromClient t s
      by (intro exI [of _ "if running t then stop t else t"] exI [of _ "[]"])
        (cases r; simp)
  qed
qed

lemma task_run_inv:
  assumes "task_inv cap outs ds t" and "\<forall>e \<in> set es. typing e"
  shows "\<exists>t' efs ds'. task_run B S t es = Some (t', efs) \<and> written efs = concat ds' \<and>
    task_inv cap (outs @ daemon_pushes es) (ds @ ds') t'"
  using assms
proof (induction es arbitrary: outs ds t)
  case Nil
  then show ?case by (intro exI [of _ t] exI [of _ "[]"]) simp
next
  case (Cons e es)
  obtain u ef d1 where u: "task_step B S t e = Some (u, ef)" "written ef = concat d1"
    "task_inv cap (outs @ daemon_pushes [e]) (ds @ d1) u"
    using task_event [OF Cons.prems(1)] Cons.prems(2) by (meson list.set_intros(1))
  obtain t' efs d2 where "task_run B S u es = Some (t', efs)" "written efs = concat d2"
    "task_inv cap ((outs @ daemon_pushes [e]) @ daemon_pushes es) ((ds @ d1) @ d2) t'"
    using Cons.IH [OF u(3)] Cons.prems(2) by (meson list.set_intros(2))
  then show ?case using u(1,2) daemon_pushes_Cons [of e es]
    by (intro exI [of _ t'] exI [of _ "ef @ efs"] exI [of _ "d1 @ d2"]) simp
qed

lemma task_attach:
  assumes f: "fan_wf f"
  shows "\<exists>t. task_step B S (task_start f) (FromClient (Inr (Attach skip)) True) =
      Some (t, if skip then [] else [WriteOut (contents (ring f))]) \<and>
    running t \<and> task_inv (bcap (tx f)) [] [] t"
proof -
  obtain q ch where s: "bc_subscribe B (tx f) = (q, ch)" by fastforce
  from subscribe [OF s] show ?thesis
    using fan_attach_ok [OF f s] f
    by (simp add: on_message_def task_start_def task_inv_def fan_wf_def Let_def)
qed

lemma task_caught_up:
  assumes "task_inv cap outs ds t" and "running t"
    and "fst (recv_next B (tx (shared t)) (attached t)) = Waiting"
  shows "ds = outs"
proof -
  obtain rx where rx: "attached t = Some rx" "live (tx (shared t)) rx"
    "ds @ backlog (tx (shared t)) rx = outs"
    using assms(1,2) by (auto simp: task_inv_def)
  have "fst (bc_recv B (tx (shared t)) rx) = Waiting"
    using assms(3) rx(1) by (simp add: recv_next_def split: prod.splits)
  then show ?thesis using rx waiting_caught_up by auto
qed

end

text \<open>Nothing is written to a client that is not attached.\<close>

fun attaches :: "event \<Rightarrow> bool" where
  "attaches (FromClient (Inr (Attach _)) _) = True"
| "attaches _ = False"

lemma detached_step:
  assumes "attached t = None" and "\<not> attaches e" and "task_step B S t e = Some (t', ef)"
  shows "attached t' = None \<and> written ef = []"
proof (cases e)
  case (FromClient r ok)
  show ?thesis
  proof (cases r)
    case (Inr m)
    then show ?thesis using assms FromClient
      by (cases m) (auto simp: on_message_def stop_def Let_def split: if_splits)
  qed (use assms FromClient in \<open>auto simp: stop_def split: if_splits\<close>)
qed (use assms in \<open>auto simp: task_defs split: if_splits option.splits\<close>)

lemma detached_run:
  assumes "attached t = None" and "\<forall>e \<in> set es. \<not> attaches e" and "task_run B S t es = Some (t', efs)"
  shows "written efs = []"
  using assms
proof (induction es arbitrary: t efs)
  case (Cons e es)
  from Cons.prems(3) obtain u ef efs' where u: "task_step B S t e = Some (u, ef)"
    "task_run B S u es = Some (t', efs')" "efs = ef @ efs'"
    by (auto split: option.splits)
  have d: "attached u = None \<and> written ef = []"
    using detached_step [OF Cons.prems(1) _ u(1)] Cons.prems(2) by simp
  show ?case using Cons.IH [of u efs'] d u Cons.prems(2) by simp
qed simp

section \<open>A concrete task for the witnesses\<close>

definition linux_sigs :: "int sigs" where
  "linux_sigs = \<lparr>from_raw = (\<lambda>n. if 1 \<le> n \<and> n \<le> 31 then Some n else None), term_sig = 15\<rparr>"

definition small_fan :: "hist_chan Fanout" where
  "small_fan = \<lparr>ring = \<lparr>buf = [0, 0], head = 0, len = 0\<rparr>, tx = \<lparr>hist = [], kept_cap = 4\<rparr>\<rparr>"

lemma small_fan_new: "fan_new hist_bcast 2 4 = Some small_fan"
  by code_simp

definition typed_events :: "event list" where
  "typed_events =
     [FromClient (Inr (Push [97])) True, FromClient (Inr (Kill 99)) True,
      FromClient (Inl (UnknownType 9)) True, FromClient (Inr (Push [98])) True]"

section \<open>Properties\<close>

text \<open>
  Commands are forwarded faithfully: in every run of the task, under any
  interleaving and any failures, what it sends on the push channel is, in order, a prefix of the
  data of the \<open>Push\<close> messages it received, and on the control channel a prefix of the resizes and
  signals the other messages stand for (an unknown signal number becomes a termination, a redraw
  with no method nothing); while the task runs nothing is missing.
\<close>

theorem commands_forwarded:
  assumes "running t" and "task_run B S t es = Some (t', efs)"
  shows "prefix (pushed efs) (concat (map push_of (messages es)))
    \<and> prefix (controls efs) (concat (map (control_of S) (messages es)))
    \<and> (running t' \<longrightarrow> pushed efs = concat (map push_of (messages es))
        \<and> controls efs = concat (map (control_of S) (messages es)))"
  using assms by (rule run_commands)

theorem commands_forwarded_witness:
  "prefix (pushed [PushTx [97], ControlTx (Signal (15 :: int))])
     (concat (map push_of (messages typed_events)))
   \<and> prefix (controls [PushTx [97], ControlTx (Signal (15 :: int))])
     (concat (map (control_of linux_sigs) (messages typed_events)))
   \<and> \<not> running (stop (task_start small_fan :: (hist_chan, nat) task))"
proof -
  have r: "running (task_start small_fan :: (hist_chan, nat) task)" by (simp add: task_start_def)
  have "task_run hist_bcast linux_sigs (task_start small_fan) typed_events =
      Some (stop (task_start small_fan), [PushTx [97], ControlTx (Signal 15)])"
    by (simp add: typed_events_def on_message_def linux_sigs_def task_start_def stop_def)
  from commands_forwarded [OF r this] show ?thesis by (simp add: stop_def)
qed

lemma attached_stream:
  assumes "broadcast B live backlog bcap"
    and "fan_new B sc bc = Some f0" and "fold_opt (fan_push B) f0 before = Some f1"
    and "\<forall>e \<in> set es. typing e"
  shows "\<exists>t efs k.
    task_run B S (task_start f1) (FromClient (Inr (Attach skip)) True # es) = Some (t, efs)
    \<and> written efs = (if skip then [] else lastn sc (concat before)) @ concat (take k (daemon_pushes es))
    \<and> (running t \<and> fst (recv_next B (tx (shared t)) (attached t)) = Waiting \<longrightarrow>
        k = length (daemon_pushes es))"
proof -
  have n: "fan_wf f0" "capacity (ring f0) = sc" "contents (ring f0) = []"
    using fan_new_wf [OF assms(2)] by simp_all
  have f: "fan_wf f1" "contents (ring f1) = lastn sc (concat before)"
    using fan_pushes_ring [OF n(1) _ assms(3)] n by simp_all
  let ?w = "if skip then [] else [WriteOut (contents (ring f1))]"
  obtain t0 where t0: "task_step B S (task_start f1) (FromClient (Inr (Attach skip)) True) = Some (t0, ?w)"
    "broadcast.task_inv live backlog bcap (bcap (tx f1)) [] [] t0"
    using broadcast.task_attach [OF assms(1) f(1), of S skip] by blast
  obtain t efs ds where r: "task_run B S t0 es = Some (t, efs)" "written efs = concat ds"
    "broadcast.task_inv live backlog bcap (bcap (tx f1)) (daemon_pushes es) ds t"
    using broadcast.task_run_inv [OF assms(1) t0(2) assms(4), of S] by auto
  have p: "prefix ds (daemon_pushes es)"
    using r(3) by (simp add: broadcast.task_inv_def [OF assms(1)])
  then have ds: "ds = take (length ds) (daemon_pushes es)" by (auto simp: prefix_def)
  have "running t \<and> fst (recv_next B (tx (shared t)) (attached t)) = Waiting \<longrightarrow>
      length ds = length (daemon_pushes es)"
    using broadcast.task_caught_up [OF assms(1) r(3)] by auto
  then show ?thesis using t0(1) r(1,2) f(2) ds
    by (intro exI [of _ t] exI [of _ "?w @ efs"] exI [of _ "length ds"]) auto
qed

text \<open>
  What an attached client is sent: for every interleaving of pty output, polls and
  further control messages after its \<open>Attach\<close>, the task does not panic and the bytes it writes are
  the scrollback at the moment of attaching (nothing with \<open>skip_ring\<close>) followed by whole chunks
  of the later output, in order, none lost or repeated; and all of them once the client is still
  connected and has caught up.
\<close>

theorem attached_client_stream:
  assumes "broadcast B live backlog bcap"
    and "fan_new B sc bc = Some f0" and "fold_opt (fan_push B) f0 before = Some f1"
    and "\<forall>e \<in> set es. typing e"
  shows "\<exists>t efs k.
    task_run B S (task_start f1) (FromClient (Inr (Attach skip)) True # es) = Some (t, efs)
    \<and> written efs = (if skip then [] else lastn sc (concat before)) @ concat (take k (daemon_pushes es))
    \<and> (running t \<and> fst (recv_next B (tx (shared t)) (attached t)) = Waiting \<longrightarrow>
        k = length (daemon_pushes es))"
  using assms by (rule attached_stream)

theorem attached_client_stream_witness:
  "\<exists>t efs k.
    task_run hist_bcast linux_sigs
      (task_start \<lparr>ring = \<lparr>buf = [2, 3], head = 0, len = 2\<rparr>, tx = \<lparr>hist = [[1, 2, 3]], kept_cap = 4\<rparr>\<rparr>)
      (FromClient (Inr (Attach False)) True # [DaemonPush [4], PollOutput True, FromClient (Inr (Push [9])) True])
      = Some (t, efs)
    \<and> written efs = (if False then [] else lastn 2 (concat [[1, 2, 3]])) @
        concat (take k (daemon_pushes [DaemonPush [4], PollOutput True, FromClient (Inr (Push [9])) True]))
    \<and> (running t \<and> fst (recv_next hist_bcast (tx (shared t)) (attached t)) = Waiting \<longrightarrow>
        k = length (daemon_pushes [DaemonPush [4], PollOutput True, FromClient (Inr (Push [9])) True]))"
proof (rule attached_client_stream [OF hb.broadcast_axioms small_fan_new])
  show "fold_opt (fan_push hist_bcast) small_fan [[1, 2, 3]] =
      Some \<lparr>ring = \<lparr>buf = [2, 3], head = 0, len = 2\<rparr>, tx = \<lparr>hist = [[1, 2, 3]], kept_cap = 4\<rparr>\<rparr>"
    by code_simp
qed simp

text \<open>
  Nothing is written to a client that has not attached or has detached, whatever it
  sends and however much the daemon pushes, until it attaches again.
\<close>

theorem detached_client_is_silent:
  assumes "attached t = None" and "\<forall>e \<in> set es. \<not> attaches e"
    and "task_run B S t es = Some (t', efs)"
  shows "written efs = []"
  using assms by (rule detached_run)

theorem detached_client_is_silent_witness:
  "written ([] :: int effect list) = []"
proof (rule detached_client_is_silent [where t = "task_start small_fan :: (hist_chan, nat) task"
      and es = "[DaemonPush [1], PollOutput True]" and B = hist_bcast and S = linux_sigs])
  show "attached (task_start small_fan :: (hist_chan, nat) task) = None" by (simp add: task_start_def)
  show "task_run hist_bcast linux_sigs (task_start small_fan) [DaemonPush [1], PollOutput True] =
      Some (task_start \<lparr>ring = \<lparr>buf = [1, 0], head = 0, len = 1\<rparr>, tx = \<lparr>hist = [[1]], kept_cap = 4\<rparr>\<rparr>, [])"
    by code_simp
qed simp

end
