(* ===== verification/Sockets.thy ===== *)
theory Sockets
  imports Session
begin

text \<open>
  Reaching a socket whose path is too long for a socket address: \<open>bind_listener\<close> in
  crates/daemon/src/daemon.rs and \<open>connect\<close>, \<open>connect_probe\<close> in crates/cli/src/sockets.rs. The
  three change into the parent directory, use the file name there and change back. The state is
  the working directory of the process. What the kernel answers is a parameter: the call itself
  (\<open>call\<close>, from working directory and path to its result), and whether a directory can be entered.
\<close>

section \<open>Relative paths\<close>

lemma body_comps_body: "c \<in> set (body_comps b) \<Longrightarrow> c \<noteq> RootDir \<and> c \<noteq> CurDir"
  by (auto simp: body_comps_def seg_comps_def parse_single_component_def split: if_splits)

lemma has_root_comps: "has_root p \<longleftrightarrow> RootDir \<in> set (components p)"
  using body_comps_body [of RootDir "drop (start_len p) p"] by (auto simp: components_def)

lemma body_comps_start: "\<not> has_root p \<Longrightarrow> body_comps p = body_comps (drop (start_len p) p)"
proof (cases "include_cur_dir p")
  case True
  then consider "p = ''.''" | q where "p = CHR ''.'' # sep # q"
    by (auto simp: include_cur_dir_def split: list.splits)
  then show ?thesis
  proof cases
    case 1
    then show ?thesis
      by (simp add: body_comps_def parse_single_component_def start_len_def has_root_def include_cur_dir_def)
  next
    case 2
    have "body_comps (''.'' @ sep # q) = body_comps q"
      by (simp only: body_comps_append) (simp add: body_comps_def parse_single_component_def)
    then show ?thesis using 2 by (simp add: start_len_def has_root_def include_cur_dir_def)
  qed
qed (simp add: start_len_def)

lemma body_comps_filter:
  assumes "\<not> has_root p"
  shows "body_comps p = filter (\<lambda>c. c \<noteq> RootDir \<and> c \<noteq> CurDir) (components p)"
proof -
  have "filter (\<lambda>c. c \<noteq> RootDir \<and> c \<noteq> CurDir) (body_comps b) = body_comps b" for b
    using body_comps_body [of _ b] by (simp add: filter_id_conv)
  then show ?thesis using body_comps_start [OF assms] assms by (simp add: components_def)
qed

lemma components_join_rel:
  assumes "d \<noteq> []" and "\<not> has_root p"
  shows "components (path_join d p) = components d @ body_comps p"
proof (cases "last d = sep")
  case False
  then have "path_join d p = d @ sep # p" using assms by (simp add: path_join_def)
  then show ?thesis using assms False components_cut [of d "sep # p"] by (simp add: components_def)
next
  case True
  then have j: "path_join d p = d @ p" using assms by (simp add: path_join_def)
  have "body_comps (drop (start_len d) d @ p) = body_comps (drop (start_len d) d) @ body_comps p"
  proof (cases "drop (start_len d) d = []")
    case False
    then obtain b where "drop (start_len d) d = b @ [sep]"
      using True by (metis append_butlast_last_id last_drop drop_eq_Nil not_le)
    then show ?thesis by (simp only: append.assoc append.simps body_comps_append body_comps_Nil append_Nil2)
  qed simp
  then show ?thesis using True j assms components_cut [of d p] by (simp add: components_def)
qed

lemma join_parent_file_name:
  assumes "path_parent p = Some dir" and "path_file_name p = Some n" and "cwd \<noteq> []"
  shows "components (path_join (path_join cwd dir) n) = components (path_join cwd p)"
proof -
  note pf = parent_file_name [OF assms(1,2)]
  have r: "has_root dir = has_root p" by (simp add: has_root_comps pf(1))
  have "components (path_join cwd dir) @ [Normal n] = components (path_join cwd p)"
  proof (cases "has_root p")
    case True
    then show ?thesis by (simp add: path_join_def r pf(1))
  next
    case False
    then show ?thesis using r
      by (simp add: components_join_rel [OF assms(3)] body_comps_filter pf(1))
  qed
  then show ?thesis using components_join [OF pf(2,3)] by simp
qed

lemma file_name_components: "components p = cs @ [Normal n] \<Longrightarrow> path_file_name p = Some n"
proof -
  assume c: "components p = cs @ [Normal n]"
  obtain rest o' where nb: "next_back_body (drop (start_len p) p) = (rest, o')" by fastforce
  show ?thesis
  proof (cases o')
    case None
    with nb next_back_body_None have "body_comps (drop (start_len p) p) = []" by blast
    then show ?thesis using c by (auto simp: components_def split: if_splits)
  next
    case (Some x)
    with nb next_back_body_Some [of "drop (start_len p) p" rest x]
    have "body_comps (drop (start_len p) p) = body_comps rest @ [x]" by simp
    then have "x = Normal n" using c by (simp add: components_def)
    then show ?thesis using nb Some by (simp add: path_file_name_def)
  qed
qed

section \<open>The three calls\<close>

datatype 'e sock_error = GetCwdError | ChdirError | CallError 'e

record dir_env =
  getcwd_ok :: bool
  enter_ok :: "string \<Rightarrow> bool"
  return_ok :: "string \<Rightarrow> bool"

type_synonym ('e, 'a) sock_call = "string \<Rightarrow> string \<Rightarrow> 'e + 'a"

definition lift_call :: "'e + 'a \<Rightarrow> 'e sock_error + 'a" where
  "lift_call r = (case r of Inl e \<Rightarrow> Inl (CallError e) | Inr a \<Rightarrow> Inr a)"

text \<open>The result, and the working directory afterwards.\<close>

definition bind_listener ::
    "('e, 'a) sock_call \<Rightarrow> dir_env \<Rightarrow> string \<Rightarrow> string \<Rightarrow> ('e sock_error + 'a) \<times> string" where
  "bind_listener bind E cwd path =
     (case shorten_for_unix_socket path of
        None \<Rightarrow> (lift_call (bind cwd path), cwd)
      | Some (dir, short) \<Rightarrow>
          if \<not> getcwd_ok E then (Inl GetCwdError, cwd)
          else
            let original_cwd = cwd in
            if \<not> enter_ok E (path_join cwd dir) then (Inl ChdirError, cwd)
            else
              let inside = path_join cwd dir;
                  result = bind inside short
              in if \<not> return_ok E (path_join inside original_cwd) then (Inl ChdirError, inside)
                 else (lift_call result, path_join inside original_cwd))"

definition connect ::
    "('e, 'a) sock_call \<Rightarrow> dir_env \<Rightarrow> string \<Rightarrow> string \<Rightarrow> ('e sock_error + 'a) \<times> string" where
  "connect conn E cwd path =
     (case shorten_for_unix_socket path of
        None \<Rightarrow> (lift_call (conn cwd path), cwd)
      | Some (dir, short) \<Rightarrow>
          if \<not> getcwd_ok E then (Inl GetCwdError, cwd)
          else
            let original_cwd = cwd in
            if \<not> enter_ok E (path_join cwd dir) then (Inl ChdirError, cwd)
            else
              let inside = path_join cwd dir;
                  result = conn inside short
              in if \<not> return_ok E (path_join inside original_cwd) then (Inl ChdirError, inside)
                 else (lift_call result, path_join inside original_cwd))"

definition connect_probe ::
    "('e, 'a) sock_call \<Rightarrow> dir_env \<Rightarrow> string \<Rightarrow> string \<Rightarrow> ('e sock_error + 'a) \<times> string" where
  "connect_probe conn E cwd path =
     (case shorten_for_unix_socket path of
        None \<Rightarrow> (lift_call (conn cwd path), cwd)
      | Some (dir, short) \<Rightarrow>
          if \<not> getcwd_ok E then (Inl GetCwdError, cwd)
          else
            let original_cwd = cwd in
            if \<not> enter_ok E (path_join cwd dir) then (Inl ChdirError, cwd)
            else
              let inside = path_join cwd dir;
                  result = conn inside short
              in if \<not> return_ok E (path_join inside original_cwd) then (Inl ChdirError, inside)
                 else (lift_call result, path_join inside original_cwd))"

lemma connect_as_bind: "connect = bind_listener" "connect_probe = bind_listener"
  by (intro ext; simp add: connect_def connect_probe_def bind_listener_def)+

section \<open>The call behind the workaround\<close>

text \<open>
  A kernel whose socket calls refuse a path of more than 107 bytes and otherwise depend on the
  file that the path names, seen from the working directory.
\<close>

definition at_path :: "'e \<Rightarrow> (component list \<Rightarrow> 'e + 'a) \<Rightarrow> ('e, 'a) sock_call" where
  "at_path too_long h cwd path =
     (if MAX_SOCKET_PATH_LEN < length path then Inl too_long
      else h (components (path_join cwd path)))"

lemma bind_at_path:
  assumes "has_root cwd" and "getcwd_ok E"
    and "\<And>d. path_parent path = Some d \<Longrightarrow> enter_ok E (path_join cwd d)" and "return_ok E cwd"
    and "path_file_name path = Some n"
  shows "bind_listener (at_path too_long h) E cwd path =
    (if MAX_SOCKET_PATH_LEN < length path \<and> MAX_SOCKET_PATH_LEN < length n
     then Inl (CallError too_long)
     else lift_call (h (components (path_join cwd path))), cwd)"
proof (cases "length path \<le> MAX_SOCKET_PATH_LEN")
  case True
  then show ?thesis by (simp add: bind_listener_def shorten_for_unix_socket_def at_path_def)
next
  case False
  obtain dir where d: "path_parent path = Some dir"
    using file_name_bounds [OF assms(5)] by auto
  then have s: "shorten_for_unix_socket path = Some (dir, n)"
    using False assms(5) by (simp add: shorten_for_unix_socket_def)
  have "cwd \<noteq> []" using assms(1) by (auto simp: has_root_def)
  note j = join_parent_file_name [OF d assms(5) this]
  have b: "path_join (path_join cwd dir) cwd = cwd" using assms(1) by (simp add: path_join_def)
  show ?thesis using s False assms(2,4) assms(3) [OF d]
    by (simp add: bind_listener_def Let_def b at_path_def j lift_call_def)
qed

section \<open>Properties\<close>

text \<open>
  Property C34. Reaching a socket by a long path: as long as the directory can be entered and left
  again, listening, connecting and probing each act on exactly the file that the full path
  names, and the working directory is what it was before. The path may have any length; only a
  file name that is itself over the limit is refused (as it would be without the workaround).
\<close>

theorem long_paths_reach_socket:
  assumes "has_root cwd" and "getcwd_ok E"
    and "\<forall>d. path_parent path = Some d \<longrightarrow> enter_ok E (path_join cwd d)" and "return_ok E cwd"
    and "path_file_name path = Some n" and "length n \<le> MAX_SOCKET_PATH_LEN"
    and "call \<in> {bind_listener, connect, connect_probe}"
  shows "call (at_path too_long h) E cwd path = (lift_call (h (components (path_join cwd path))), cwd)"
proof -
  have "bind_listener (at_path too_long h) E cwd path = (lift_call (h (components (path_join cwd path))), cwd)"
    using bind_at_path [OF assms(1,2) _ assms(4,5)] assms(3,6) by simp
  then show ?thesis using assms(7) by (auto simp: connect_as_bind)
qed

definition any_dir :: dir_env where
  "any_dir = \<lparr>getcwd_ok = True, enter_ok = (\<lambda>_. True), return_ok = (\<lambda>_. True)\<rparr>"

theorem long_paths_reach_socket_witness:
  "connect (at_path () (\<lambda>cs. Inr (last cs))) any_dir ''/tmp'' (replicate 110 (CHR ''x'') @ ''/../work/.'')
    = (lift_call (Inr (last (components (path_join ''/tmp'' (replicate 110 (CHR ''x'') @ ''/../work/.''))))), ''/tmp'')"
proof (rule long_paths_reach_socket)
  show "path_file_name (replicate 110 (CHR ''x'') @ ''/../work/.'') = Some ''work''" by code_simp
qed (simp_all add: any_dir_def has_root_def MAX_SOCKET_PATH_LEN_def)

text \<open>
  The workaround has its own limit: a session name of more than 107 bytes is a valid
  name, but its socket can neither be bound nor connected to from any directory.
\<close>

theorem long_names_stay_unreachable:
  assumes "has_root cwd" and "getcwd_ok E" and "\<forall>d. enter_ok E d \<and> return_ok E d"
    and "is_valid_bare_name name" and "MAX_SOCKET_PATH_LEN < length name"
    and "call \<in> {bind_listener, connect, connect_probe}"
  shows "call (at_path too_long h) E cwd (resolve_socket_path name sdir) = (Inl (CallError too_long), cwd)"
proof -
  have l: "MAX_SOCKET_PATH_LEN < length (resolve_socket_path name sdir)"
    using assms(4,5) by (auto simp: resolve_socket_path_def path_join_def is_valid_bare_name_def)
  have "path_file_name (resolve_socket_path name sdir) = Some name"
    using file_name_components [OF resolve_valid [OF assms(4)]] .
  from bind_at_path [OF assms(1,2) _ _ this] assms(3,5,6) l
  show ?thesis by (auto simp: connect_as_bind)
qed

theorem long_names_stay_unreachable_witness:
  "connect (at_path () (\<lambda>cs. Inr (last cs))) any_dir ''/tmp''
      (resolve_socket_path (replicate 110 (CHR ''x'')) ''/s'') = (Inl (CallError ()), ''/tmp'')"
proof (rule long_names_stay_unreachable)
  show "is_valid_bare_name (replicate 110 (CHR ''x''))" by code_simp
qed (simp_all add: any_dir_def has_root_def MAX_SOCKET_PATH_LEN_def)

end
