(* ===== verification/Pty.thy ===== *)
theory Pty
  imports Hytch_Prelude
begin

text \<open>
  The pseudo terminal and the child on it: crates/daemon/src/pty.rs. \<open>spawn\<close> is a sequence of
  system calls any of which can fail; the model records the calls that were made, in order. Reads
  and writes retry on a spurious readiness, and a write of a whole chunk is bounded in time by
  the daemon loop (\<open>write_within\<close>). What the kernel does is a parameter.
\<close>

section \<open>Spawning\<close>

text \<open>The calls of \<open>Pty::spawn\<close>; those marked with \<open>Child\<close> run in the forked child before exec.\<close>

datatype pty_call =
    Openpt | Grantpt | Unlockpt | Nonblocking | SetWinsize u16 u16 | Ptsname | OpenSlave
  | DupStdin | DupStdout | DupStderr | CloseSlave
  | Fork | ChildSetsid | ChildCtty | ChildExec string "string list" "(string \<times> string) list"
  | Register

datatype pty_error = CallFailed pty_call | NoPid | NonPositivePid

text \<open>\<open>call_ok\<close>: which calls succeed; \<open>child_id\<close>: what \<open>child.id()\<close> returns.\<close>

record pty_os =
  call_ok :: "pty_call \<Rightarrow> bool"
  child_id :: "u32 option"

record Pty =
  pgid :: int
  winsize :: "u16 \<times> u16"

text \<open>Calls in a row, up to the first that fails (\<open>?\<close>); the ones that succeeded are done.\<close>

fun run_calls :: "(pty_call \<Rightarrow> bool) \<Rightarrow> pty_call list \<Rightarrow> pty_error option \<times> pty_call list" where
  "run_calls ok [] = (None, [])"
| "run_calls ok (c # cs) =
     (if \<not> ok c then (Some (CallFailed c), [])
      else let (e, made) = run_calls ok cs in (e, c # made))"

definition setup_calls :: "u16 \<Rightarrow> u16 \<Rightarrow> pty_call list" where
  "setup_calls rows cols =
     [Openpt, Grantpt, Unlockpt, Nonblocking, SetWinsize rows cols, Ptsname, OpenSlave,
      DupStdin, DupStdout, DupStderr]"

definition child_calls :: "string \<Rightarrow> string list \<Rightarrow> (string \<times> string) list \<Rightarrow> pty_call list" where
  "child_calls program args env = [Fork, ChildSetsid, ChildCtty, ChildExec program args env]"

text \<open>
  \<open>Pid::from_raw\<close> refuses zero; the code's cast of the id to \<open>i32\<close> is the signed reading. The
  close of the slave (\<open>drop\<close>) cannot fail.
\<close>

definition pid_from_raw :: "int \<Rightarrow> int option" where
  "pid_from_raw p = (if p = 0 then None else Some p)"

definition pty_spawn ::
    "pty_os \<Rightarrow> string \<Rightarrow> string list \<Rightarrow> u16 \<Rightarrow> u16 \<Rightarrow> string \<Rightarrow> string \<Rightarrow> (pty_error + Pty) \<times> pty_call list" where
  "pty_spawn os program args rows cols envvar session_chain =
     (case run_calls (call_ok os) (setup_calls rows cols) of
        (Some e, made) \<Rightarrow> (Inl e, made)
      | (None, made) \<Rightarrow>
          let made = made @ [CloseSlave] in
          (case run_calls (call_ok os) (child_calls program args [(envvar, session_chain)]) of
             (Some e, made') \<Rightarrow> (Inl e, made @ made')
           | (None, made') \<Rightarrow>
               (case child_id os of
                  None \<Rightarrow> (Inl NoPid, made @ made')
                | Some raw_pid \<Rightarrow>
                    (case pid_from_raw (sint raw_pid) of
                       None \<Rightarrow> (Inl NonPositivePid, made @ made')
                     | Some pg \<Rightarrow>
                         if \<not> call_ok os Register then (Inl (CallFailed Register), made @ made')
                         else (Inr \<lparr>pgid = pg, winsize = (rows, cols)\<rparr>, made @ made' @ [Register])))))"

definition pty_resize :: "bool \<Rightarrow> Pty \<Rightarrow> u16 \<Rightarrow> u16 \<Rightarrow> Pty" where
  "pty_resize ok p rows cols = (if ok then p\<lparr>winsize := (rows, cols)\<rparr> else p)"

definition pty_current_size :: "bool \<Rightarrow> Pty \<Rightarrow> (u16 \<times> u16) option" where
  "pty_current_size ok p = (if ok then Some (winsize p) else None)"

text \<open>The signal goes to the whole process group; the result is what was delivered, and to whom.\<close>

definition pty_signal :: "bool \<Rightarrow> Pty \<Rightarrow> 'sig \<Rightarrow> (int \<times> 'sig) list" where
  "pty_signal ok p sig = (if ok then [(pgid p, sig)] else [])"

section \<open>Reading and writing\<close>

text \<open>
  What the reactor and the kernel answer, one attempt after the other: not ready, an error of
  the reactor, or ready, and then the result of the system call on the nonblocking master.
\<close>

datatype 'a attempt = NotReady | ReactorError | WouldBlock | IoError | IoOk 'a

datatype 'a poll = Pending | Ready "'a option"

text \<open>\<open>Ready None\<close> is an error. A read takes at most the room left in the buffer.\<close>

fun poll_read :: "nat \<Rightarrow> bytes attempt list \<Rightarrow> bytes poll \<times> bytes attempt list" where
  "poll_read room [] = (Pending, [])"
| "poll_read room (NotReady # as) = (Pending, as)"
| "poll_read room (ReactorError # as) = (Ready None, as)"
| "poll_read room (WouldBlock # as) = poll_read room as"
| "poll_read room (IoError # as) = (Ready None, as)"
| "poll_read room (IoOk avail # as) = (Ready (Some (take room avail)), as)"

text \<open>A write takes as much as the kernel has room for.\<close>

fun poll_write :: "bytes \<Rightarrow> nat attempt list \<Rightarrow> nat poll \<times> nat attempt list" where
  "poll_write dat [] = (Pending, [])"
| "poll_write dat (NotReady # as) = (Pending, as)"
| "poll_write dat (ReactorError # as) = (Ready None, as)"
| "poll_write dat (WouldBlock # as) = poll_write dat as"
| "poll_write dat (IoError # as) = (Ready None, as)"
| "poll_write dat (IoOk room # as) = (Ready (Some (min room (length dat))), as)"

lemma poll_write_shorter:
  "poll_write dat as = (r, as') \<Longrightarrow> as \<noteq> [] \<Longrightarrow> length as' < length as"
proof (induction dat as rule: poll_write.induct)
  case (4 dat as)
  then show ?case by (cases as) auto
qed auto

lemma poll_write_le:
  "poll_write dat as = (Ready (Some n), as') \<Longrightarrow> n \<le> length dat \<and> as \<noteq> []"
  by (induction dat as rule: poll_write.induct) auto

text \<open>Nothing is buffered above the kernel, so there is nothing to flush; a shutdown leaves the pty open.\<close>

definition poll_flush :: "Pty \<Rightarrow> unit poll \<times> Pty" where
  "poll_flush p = (Ready (Some ()), p)"

definition poll_shutdown :: "Pty \<Rightarrow> unit poll \<times> Pty" where
  "poll_shutdown p = (Ready (Some ()), p)"

section \<open>A write bounded in time\<close>

text \<open>
  \<open>tokio::time::timeout(limit, pty.write_all(data))\<close>: \<open>write_all\<close> polls until everything is
  written, a write fails or a write takes nothing; each wait for readiness takes some
  milliseconds (\<open>waits\<close>, none left means for ever), and when the limit passes during a wait the
  whole write is dropped. The result is what was written, how it ended and how long it took.
\<close>

datatype write_end = Written | WriteFailed | TimedOut

function write_within ::
    "nat \<Rightarrow> nat list \<Rightarrow> nat attempt list \<Rightarrow> bytes \<Rightarrow> bytes \<times> write_end \<times> nat" where
  "write_within limit waits as dat =
     (if dat = [] then ([], Written, 0)
      else case poll_write dat as of
             (Pending, as') \<Rightarrow>
               (case waits of
                  [] \<Rightarrow> ([], TimedOut, limit)
                | ms # waits' \<Rightarrow>
                    if limit \<le> ms then ([], TimedOut, limit)
                    else let (out, e, t) = write_within (limit - ms) waits' as' dat in (out, e, ms + t))
           | (Ready None, as') \<Rightarrow> ([], WriteFailed, 0)
           | (Ready (Some n), as') \<Rightarrow>
               if n = 0 then ([], WriteFailed, 0)
               else let (out, e, t) = write_within limit waits as' (drop n dat)
                    in (take n dat @ out, e, t))"
  by pat_completeness auto
termination
  by (relation "measures [\<lambda>(limit, waits, as, dat). length dat, \<lambda>(limit, waits, as, dat). length waits]")
    (auto dest: poll_write_le)

declare write_within.simps [simp del]

lemma write_within_props:
  "write_within limit waits as dat = (out, e, t) \<Longrightarrow>
    prefix out dat \<and> t \<le> limit \<and> (e = Written \<longleftrightarrow> out = dat)"
proof (induction limit waits as dat arbitrary: out e t rule: write_within.induct)
  case (1 limit waits as dat)
  note run = "1.prems" [unfolded write_within.simps [of limit waits as dat]]
  show ?case
  proof (cases "dat = []")
    case True
    then show ?thesis using run by auto
  next
    case ne: False
    obtain r as' where p: "poll_write dat as = (r, as')" by fastforce
    show ?thesis
    proof (cases r)
      case Pending
      show ?thesis
      proof (cases waits)
        case Nil
        then show ?thesis using run ne p Pending by auto
      next
        case (Cons ms ws)
        show ?thesis
        proof (cases "limit \<le> ms")
          case True
          then show ?thesis using run ne p Pending Cons by auto
        next
          case False
          obtain out' e' t' where w: "write_within (limit - ms) ws as' dat = (out', e', t')"
            by (metis prod_cases3)
          from "1.IH"(1) [OF ne p [symmetric] Pending Cons False w]
          show ?thesis using run ne p Pending Cons False w by auto
        qed
      qed
    next
      case (Ready ro)
      show ?thesis
      proof (cases ro)
        case None
        then show ?thesis using run ne p Ready by auto
      next
        case (Some n)
        show ?thesis
        proof (cases "n = 0")
          case True
          then show ?thesis using run ne p Ready Some by auto
        next
          case False
          obtain out' e' t' where w: "write_within limit waits as' (drop n dat) = (out', e', t')"
            by (metis prod_cases3)
          have "prefix out' (drop n dat) \<and> t' \<le> limit \<and> (e' = Written \<longleftrightarrow> out' = drop n dat)"
            using "1.IH"(2) [OF ne p [symmetric] Ready Some False w] .
          moreover have "out = take n dat @ out'" "e = e'" "t = t'"
            using run ne p Ready Some False w by simp_all
          ultimately show ?thesis by (metis append_take_drop_id same_append_eq same_prefix_prefix)
        qed
      qed
    qed
  qed
qed

section \<open>Properties\<close>

definition spawn_calls :: "string \<Rightarrow> string list \<Rightarrow> u16 \<Rightarrow> u16 \<Rightarrow> string \<Rightarrow> string \<Rightarrow> pty_call list" where
  "spawn_calls program args rows cols envvar chain =
     setup_calls rows cols @ [CloseSlave] @ child_calls program args [(envvar, chain)] @ [Register]"

lemma run_calls_prefix:
  "run_calls ok cs = (e, made) \<Longrightarrow> prefix made cs \<and> (e = None \<longleftrightarrow> made = cs) \<and>
    (\<forall>c. e = Some c \<longrightarrow> (\<exists>x \<in> set cs. c = CallFailed x))"
  by (induction cs arbitrary: made) (auto split: if_splits prod.splits)

lemma setup_no_exec: "ChildExec p as env \<notin> set (setup_calls r c)"
  by (simp add: setup_calls_def)

lemma pty_spawn_props:
  assumes "pty_spawn os program args rows cols envvar chain = (r, made)"
  shows "prefix made (spawn_calls program args rows cols envvar chain)
    \<and> (\<forall>p. r = Inr p \<longrightarrow> made = spawn_calls program args rows cols envvar chain \<and> winsize p = (rows, cols)
        \<and> pgid p \<noteq> 0 \<and> map_option sint (child_id os) = Some (pgid p))
    \<and> (\<forall>e. r = Inl e \<and> ChildExec program args [(envvar, chain)] \<in> set made \<longrightarrow>
        e \<in> {NoPid, NonPositivePid, CallFailed Register})"
proof -
  let ?c = "child_calls program args [(envvar, chain)]" and ?s = "setup_calls rows cols"
  obtain e1 m1 where s: "run_calls (call_ok os) ?s = (e1, m1)" by fastforce
  note s1 = run_calls_prefix [OF s]
  obtain e2 m2 where c: "run_calls (call_ok os) ?c = (e2, m2)" by fastforce
  note c1 = run_calls_prefix [OF c]
  show ?thesis
  proof (cases e1)
    case (Some e)
    then have "r = Inl e" "made = m1" using assms s by (simp_all add: pty_spawn_def)
    moreover have "prefix m1 (spawn_calls program args rows cols envvar chain)"
      using s1 by (simp add: spawn_calls_def)
    moreover have "ChildExec program args [(envvar, chain)] \<notin> set m1"
      using s1 setup_no_exec set_mono_prefix by blast
    ultimately show ?thesis by simp
  next
    case None
    then have m1: "m1 = ?s" using s1 by simp
    show ?thesis
    proof (cases e2)
      case (Some e)
      then have r: "r = Inl e" "made = ?s @ [CloseSlave] @ m2"
        using assms s c None m1 by (simp_all add: pty_spawn_def)
      have "strict_prefix m2 ?c" using c1 Some by (auto simp: strict_prefix_def)
      then have "ChildExec program args [(envvar, chain)] \<notin> set m2"
        by (auto simp: child_calls_def strict_prefix_def prefix_Cons)
      then show ?thesis using r c1 setup_no_exec by (auto simp: spawn_calls_def)
    next
      case n2: None
      then have m2: "m2 = ?c" using c1 by simp
      show ?thesis using assms s c None n2 m1 m2
        by (auto simp: pty_spawn_def spawn_calls_def pid_from_raw_def Let_def
            split: option.splits if_splits)
    qed
  qed
qed


definition good_os :: pty_os where
  "good_os = \<lparr>call_ok = (\<lambda>_. True), child_id = Some 4711\<rparr>"


text \<open>
  A write to the pty is bounded and never out of order: whatever the kernel does, it
  takes at most the limit, what reached the child is a beginning of the data, and it counts as
  written exactly when it is all of it. So a stuck child costs the loop one limit and the tail of
  one chunk.
\<close>

theorem pty_write_bounded:
  assumes "write_within limit waits as dat = (out, e, t)"
  shows "prefix out dat \<and> t \<le> limit \<and> (e = Written \<longleftrightarrow> out = dat)"
  using assms by (rule write_within_props)

theorem pty_write_bounded_witness:
  "prefix [1, 2, 3] [1, 2, 3, 4, 5 :: u8] \<and> (500 :: nat) \<le> 500
   \<and> (TimedOut = Written \<longleftrightarrow> [1, 2, 3] = [1, 2, 3, 4, 5 :: u8])"
proof (rule pty_write_bounded)
  show "write_within 500 [200, 400] [IoOk 2, NotReady, WouldBlock, IoOk 1] [1, 2, 3, 4, 5] =
      ([1, 2, 3], TimedOut, 500)"
    by code_simp
qed

end
