(* ===== verification/Daemon.thy ===== *)
theory Daemon
  imports Client_Task Pty Session_Log Sockets Age
begin

text \<open>
  The daemon's loop: \<open>run\<close>, \<open>spawn_log_writer\<close> and the types before them in
  crates/daemon/src/daemon.rs. One turn of the \<open>select!\<close> is \<open>loop_turn\<close>: the branches are polled
  in the order the code lists them (\<open>biased\<close>) and the first that is ready runs to its end. What
  happens between two turns (commands and data queued by client tasks, signals) and what the
  kernel answers in a turn is the turn's record, a parameter; a run is a list of them.
\<close>

section \<open>Configuration and state\<close>

text \<open>In milliseconds.\<close>

definition PTY_WRITE_TIMEOUT :: nat where "PTY_WRITE_TIMEOUT = 500"

definition READ_BUFFER :: nat where "READ_BUFFER = 4096"

record DaemonConfig =
  socket_path :: string
  log_path :: "string option"
  log_max_size :: u64
  scrollback_size :: nat
  cfg_program :: string
  cfg_args :: "string list"
  initial_rows :: u16
  initial_cols :: u16

datatype ShutdownReason = ChildExited "int option" | DaemonSignaled

text \<open>
  The loop is running, or in \<open>pty.wait()\<close> after the pty closed, or has been left. A command
  queue holds at most 16 commands and a push queue at most 256 chunks.
\<close>

datatype phase = Looping | AwaitingChild | Stopped ShutdownReason

record ('sig, 'ch) loop =
  fanout :: "'ch Fanout"
  logged :: "bytes list option"
  control_rx :: "'sig ControlCommand list"
  push_rx :: "bytes list"
  pty :: Pty
  delivered :: "(int \<times> 'sig) list"
  typed :: bytes
  clients :: nat
  clock :: nat
  phase :: phase

record 'sig turn =
  t_control :: "'sig ControlCommand list"
  t_push :: "bytes list"
  t_attach :: nat
  t_resize_ok :: bool
  t_signal_ok :: bool
  t_read :: "bytes attempt list"
  t_exit :: "int option option"
  t_accept :: "bool option"
  t_waits :: "nat list"
  t_write :: "nat attempt list"
  t_sigterm :: bool
  t_sigint :: bool

section \<open>One turn\<close>

text \<open>Since the last turn client tasks have queued commands and data, and some have attached.\<close>

definition arrive :: "('ch, 'rx) bcast \<Rightarrow> ('sig, 'ch) loop \<Rightarrow> 'sig turn \<Rightarrow> ('sig, 'ch) loop" where
  "arrive B d t = d\<lparr>control_rx := control_rx d @ t_control t, push_rx := push_rx d @ t_push t,
     fanout := (fanout d)\<lparr>tx := ((\<lambda>ch. snd (bc_subscribe B ch)) ^^ t_attach t) (tx (fanout d))\<rparr>\<rparr>"

definition on_command :: "'sig turn \<Rightarrow> 'sig ControlCommand \<Rightarrow> ('sig, 'ch) loop \<Rightarrow> ('sig, 'ch) loop" where
  "on_command t cmd d =
     (case cmd of
        Resize rows cols \<Rightarrow> d\<lparr>pty := pty_resize (t_resize_ok t) (pty d) rows cols\<rparr>
      | Signal sig \<Rightarrow> d\<lparr>delivered := delivered d @ pty_signal (t_signal_ok t) (pty d) sig\<rparr>)"

text \<open>\<open>pty.wait()\<close>: returns once the child has exited, until then nothing else is looked at.\<close>

definition await_child :: "'sig turn \<Rightarrow> ('sig, 'ch) loop \<Rightarrow> ('sig, 'ch) loop" where
  "await_child t d =
     (case t_exit t of
        None \<Rightarrow> d\<lparr>phase := AwaitingChild\<rparr>
      | Some code \<Rightarrow> d\<lparr>phase := Stopped (ChildExited code)\<rparr>)"

definition on_read :: "('ch, 'rx) bcast \<Rightarrow> bytes \<Rightarrow> ('sig, 'ch) loop \<Rightarrow> ('sig, 'ch) loop option" where
  "on_read B chunk d =
     (case fan_push B (fanout d) chunk of
        None \<Rightarrow> None
      | Some f \<Rightarrow> Some (d\<lparr>fanout := f, logged := map_option (\<lambda>sent. sent @ [chunk]) (logged d)\<rparr>))"

definition on_push :: "'sig turn \<Rightarrow> bytes \<Rightarrow> ('sig, 'ch) loop \<Rightarrow> ('sig, 'ch) loop" where
  "on_push t dat d =
     (let (out, _, ms) = write_within PTY_WRITE_TIMEOUT (t_waits t) (t_write t) dat
      in d\<lparr>typed := typed d @ out, clock := clock d + ms\<rparr>)"

definition loop_turn ::
    "('ch, 'rx) bcast \<Rightarrow> ('sig, 'ch) loop \<Rightarrow> 'sig turn \<Rightarrow> ('sig, 'ch) loop option" where
  "loop_turn B d0 t =
     (case phase d0 of
        Stopped _ \<Rightarrow> Some d0
      | AwaitingChild \<Rightarrow> Some (await_child t (arrive B d0 t))
      | Looping \<Rightarrow>
          let d = arrive B d0 t in
          (case control_rx d of
             cmd # rest \<Rightarrow> Some (on_command t cmd (d\<lparr>control_rx := rest\<rparr>))
           | [] \<Rightarrow>
               (case fst (poll_read READ_BUFFER (t_read t)) of
                  Ready (Some chunk) \<Rightarrow>
                    if chunk = [] then Some (await_child t d) else on_read B chunk d
                | Ready None \<Rightarrow> Some (await_child t d)
                | Pending \<Rightarrow>
                    (case t_accept t of
                       Some ok \<Rightarrow> Some (if ok then d\<lparr>clients := Suc (clients d)\<rparr> else d)
                     | None \<Rightarrow>
                         (case push_rx d of
                            dat # rest \<Rightarrow> Some (on_push t dat (d\<lparr>push_rx := rest\<rparr>))
                          | [] \<Rightarrow>
                              if t_sigterm t \<or> t_sigint t
                              then Some (d\<lparr>phase := Stopped DaemonSignaled\<rparr>)
                              else Some d)))))"

definition loop_run ::
    "('ch, 'rx) bcast \<Rightarrow> ('sig, 'ch) loop \<Rightarrow> 'sig turn list \<Rightarrow> ('sig, 'ch) loop option" where
  "loop_run B d ts = fold_opt (loop_turn B) d ts"

section \<open>Executing commands\<close>

definition exec_command ::
    "'sig turn \<Rightarrow> 'sig ControlCommand \<Rightarrow> Pty \<times> (int \<times> 'sig) list \<Rightarrow> Pty \<times> (int \<times> 'sig) list" where
  "exec_command t cmd s =
     (case cmd of
        Resize rows cols \<Rightarrow> (pty_resize (t_resize_ok t) (fst s) rows cols, snd s)
      | Signal sig \<Rightarrow> (fst s, snd s @ pty_signal (t_signal_ok t) (fst s) sig))"

lemma on_command_exec:
  "on_command t cmd d = d\<lparr>pty := fst (exec_command t cmd (pty d, delivered d)),
     delivered := snd (exec_command t cmd (pty d, delivered d))\<rparr>"
  by (cases cmd) (simp_all add: on_command_def exec_command_def)

lemma on_command_frame [simp]:
  "control_rx (on_command t cmd d) = control_rx d" "push_rx (on_command t cmd d) = push_rx d"
  "phase (on_command t cmd d) = phase d" "clock (on_command t cmd d) = clock d"
  "typed (on_command t cmd d) = typed d" "logged (on_command t cmd d) = logged d"
  "clients (on_command t cmd d) = clients d" "fanout (on_command t cmd d) = fanout d"
  "pty (on_command t cmd d) = fst (exec_command t cmd (pty d, delivered d))"
  "delivered (on_command t cmd d) = snd (exec_command t cmd (pty d, delivered d))"
  by (simp_all add: on_command_exec)

lemma await_child_frame [simp]:
  "control_rx (await_child t d) = control_rx d" "push_rx (await_child t d) = push_rx d"
  "clock (await_child t d) = clock d" "pty (await_child t d) = pty d"
  "typed (await_child t d) = typed d" "logged (await_child t d) = logged d"
  "clients (await_child t d) = clients d" "fanout (await_child t d) = fanout d"
  "delivered (await_child t d) = delivered d"
  by (simp_all add: await_child_def split: option.splits)

lemma arrive_frame [simp]:
  "control_rx (arrive B d t) = control_rx d @ t_control t" "push_rx (arrive B d t) = push_rx d @ t_push t"
  "clock (arrive B d t) = clock d" "pty (arrive B d t) = pty d"
  "typed (arrive B d t) = typed d" "logged (arrive B d t) = logged d"
  "clients (arrive B d t) = clients d" "ring (fanout (arrive B d t)) = ring (fanout d)"
  "delivered (arrive B d t) = delivered d" "phase (arrive B d t) = phase d"
  by (simp_all add: arrive_def)

lemma loop_run_simps [simp]:
  "loop_run B d [] = Some d"
  "loop_run B d (t # ts) =
    (case loop_turn B d t of None \<Rightarrow> None | Some d' \<Rightarrow> loop_run B d' ts)"
  by (simp_all add: loop_run_def split: option.splits)

lemma loop_turn_command:
  assumes "phase d = Looping" and "control_rx d @ t_control t = cmd # rest"
  shows "loop_turn B d t = Some (on_command t cmd ((arrive B d t)\<lparr>control_rx := rest\<rparr>))"
  using assms by (simp add: loop_turn_def Let_def)

lemma commands_first:
  assumes "phase d = Looping" and "length ts \<le> length (control_rx d)"
  shows "\<exists>d'. loop_run B d ts = Some d' \<and> phase d' = Looping
    \<and> control_rx d' = drop (length ts) (control_rx d) @ concat (map t_control ts)
    \<and> push_rx d' = push_rx d @ concat (map t_push ts)
    \<and> (pty d', delivered d') =
        fold (\<lambda>(cmd, t). exec_command t cmd) (zip (control_rx d) ts) (pty d, delivered d)
    \<and> typed d' = typed d \<and> logged d' = logged d \<and> clients d' = clients d \<and> clock d' = clock d"
  using assms
proof (induction ts arbitrary: d)
  case (Cons t ts)
  then obtain cmd q where q: "control_rx d = cmd # q" by (cases "control_rx d") auto
  let ?d = "on_command t cmd ((arrive B d t)\<lparr>control_rx := q @ t_control t\<rparr>)"
  have s: "loop_turn B d t = Some ?d" using Cons.prems(1) q by (intro loop_turn_command) simp_all
  have "phase ?d = Looping" "length ts \<le> length (control_rx ?d)" using Cons.prems q by simp_all
  from Cons.IH [OF this] obtain d' where d': "loop_run B ?d ts = Some d'" "phase d' = Looping"
    "control_rx d' = drop (length ts) (q @ t_control t) @ concat (map t_control ts)"
    "push_rx d' = push_rx d @ t_push t @ concat (map t_push ts)"
    "(pty d', delivered d') = fold (\<lambda>(cmd, t). exec_command t cmd) (zip (q @ t_control t) ts)
       (exec_command t cmd (pty d, delivered d))"
    "typed d' = typed d" "logged d' = logged d" "clients d' = clients d" "clock d' = clock d"
    by auto
  have l: "length ts \<le> length q" using Cons.prems(2) q by simp
  have "zip (q @ t_control t) ts = zip q ts" using l by (simp add: zip_append1)
  then show ?case using s d' l by (intro exI [of _ d']) (simp add: q)
qed simp

lemma exec_pgid: "pgid (fst (fold (\<lambda>(cmd, t). exec_command t cmd) cts s)) = pgid (fst s)"
proof (induction cts arbitrary: s)
  case (Cons ct cts)
  obtain cmd t where "ct = (cmd, t)" by fastforce
  then show ?case using Cons.IH by (cases cmd) (simp_all add: exec_command_def pty_resize_def)
qed simp

text \<open>A signal at the end of the queue reaches the process group.\<close>

lemma exec_last_signal:
  assumes "length ts = Suc (length cs)" and "\<forall>t \<in> set ts. t_signal_ok t"
    and "fold (\<lambda>(cmd, t). exec_command t cmd) (zip (cs @ [Signal sig]) ts) s = s'"
  shows "(pgid (fst s), sig) \<in> set (snd s')"
proof -
  obtain us t where ts: "ts = us @ [t]" "length us = length cs"
    using assms(1) by (cases ts rule: rev_cases) auto
  define s1 where "s1 = fold (\<lambda>(cmd, t). exec_command t cmd) (zip cs us) s"
  have "s' = exec_command t (Signal sig) s1" using assms(3) ts by (simp add: s1_def)
  moreover have "pgid (fst s1) = pgid (fst s)" unfolding s1_def by (rule exec_pgid)
  ultimately show ?thesis using assms(2) ts(1) by (simp add: exec_command_def pty_signal_def)
qed

section \<open>What a turn takes in\<close>

text \<open>The output a turn reads, and the data it takes off the push queue.\<close>

definition read_in :: "('sig, 'ch) loop \<Rightarrow> 'sig turn \<Rightarrow> bytes list" where
  "read_in d t =
     (if phase d = Looping \<and> control_rx d @ t_control t = []
      then case fst (poll_read READ_BUFFER (t_read t)) of
             Ready (Some chunk) \<Rightarrow> if chunk = [] then [] else [chunk]
           | _ \<Rightarrow> []
      else [])"

fun reads :: "('ch, 'rx) bcast \<Rightarrow> ('sig, 'ch) loop \<Rightarrow> 'sig turn list \<Rightarrow> bytes list" where
  "reads B d [] = []"
| "reads B d (t # ts) =
     read_in d t @ (case loop_turn B d t of None \<Rightarrow> [] | Some d' \<Rightarrow> reads B d' ts)"

lemma poll_read_room: "fst (poll_read n as) = Ready (Some chunk) \<Longrightarrow> length chunk \<le> n"
  by (induction n as rule: poll_read.induct) auto

lemma read_in_size:
  assumes "chunk \<in> set (read_in d t)"
  shows "chunk \<noteq> [] \<and> length chunk \<le> READ_BUFFER"
proof -
  have l: "phase d = Looping \<and> control_rx d @ t_control t = []"
  proof (rule ccontr)
    assume "\<not> (phase d = Looping \<and> control_rx d @ t_control t = [])"
    then have "read_in d t = []" unfolding read_in_def by (rule if_not_P)
    with assms show False by simp
  qed
  then have c: "chunk \<in> set (case fst (poll_read READ_BUFFER (t_read t)) of
      Ready (Some chunk) \<Rightarrow> if chunk = [] then [] else [chunk] | _ \<Rightarrow> [])"
    using assms by (simp add: read_in_def)
  show ?thesis
  proof (cases "fst (poll_read READ_BUFFER (t_read t))")
    case Pending
    then show ?thesis using c by simp
  next
    case (Ready r)
    then obtain ch where ch: "r = Some ch" using c by (cases r) simp_all
    then have "chunk = ch \<and> ch \<noteq> []" using c Ready by (cases "ch = []") simp_all
    then show ?thesis using Ready ch poll_read_room by simp
  qed
qed

lemma on_read_ok:
  assumes "ring_wf (ring (fanout d))"
  obtains d' where "on_read B chunk d = Some d'" "ring_wf (ring (fanout d'))"
    "capacity (ring (fanout d')) = capacity (ring (fanout d))"
    "contents (ring (fanout d')) =
       lastn (capacity (ring (fanout d))) (contents (ring (fanout d)) @ chunk)"
    "logged d' = map_option (\<lambda>sent. sent @ [chunk]) (logged d)"
    "control_rx d' = control_rx d" "push_rx d' = push_rx d" "phase d' = phase d" "pty d' = pty d"
    "typed d' = typed d" "clock d' = clock d" "clients d' = clients d" "delivered d' = delivered d"
proof -
  have "fan_wf (fanout d)" using assms by (simp add: fan_wf_def)
  then obtain f where "fan_push B (fanout d) chunk = Some f" "fan_wf f"
    "capacity (ring f) = capacity (ring (fanout d))"
    "contents (ring f) = lastn (capacity (ring (fanout d))) (contents (ring (fanout d)) @ chunk)"
    by (rule fan_push_ring)
  then show ?thesis
    using that [of "d\<lparr>fanout := f, logged := map_option (\<lambda>sent. sent @ [chunk]) (logged d)\<rparr>"]
    by (simp add: on_read_def fan_wf_def)
qed

text \<open>
  The three things that can be ready in a looping turn without a command, and what they leave
  alone; \<open>turn_cases\<close> is the case split of the proofs below.
\<close>

lemma turn_cases [consumes 1, case_names Left Await Command Read Close Accept Push Signal Idle]:
  assumes "ring_wf (ring (fanout d))"
  obtains (Left) r where "phase d = Stopped r" "loop_turn B d t = Some d"
  | (Await) "phase d = AwaitingChild" "loop_turn B d t = Some (await_child t (arrive B d t))"
  | (Command) cmd rest where "phase d = Looping" "control_rx d @ t_control t = cmd # rest"
      "loop_turn B d t = Some (on_command t cmd ((arrive B d t)\<lparr>control_rx := rest\<rparr>))"
  | (Read) chunk where "phase d = Looping" "control_rx d = []" "t_control t = []" "chunk \<noteq> []"
      "fst (poll_read READ_BUFFER (t_read t)) = Ready (Some chunk)"
      "loop_turn B d t = on_read B chunk (arrive B d t)"
  | (Close) "phase d = Looping" "control_rx d = []" "t_control t = []"
      "fst (poll_read READ_BUFFER (t_read t)) \<in> {Ready None, Ready (Some [])}"
      "loop_turn B d t = Some (await_child t (arrive B d t))"
  | (Accept) ok where "phase d = Looping" "control_rx d = []" "t_control t = []"
      "fst (poll_read READ_BUFFER (t_read t)) = Pending" "t_accept t = Some ok"
      "loop_turn B d t =
        Some (if ok then (arrive B d t)\<lparr>clients := Suc (clients d)\<rparr> else arrive B d t)"
  | (Push) dat rest where "phase d = Looping" "control_rx d = []" "t_control t = []"
      "fst (poll_read READ_BUFFER (t_read t)) = Pending" "t_accept t = None"
      "push_rx d @ t_push t = dat # rest"
      "loop_turn B d t = Some (on_push t dat ((arrive B d t)\<lparr>push_rx := rest\<rparr>))"
  | (Signal) "phase d = Looping" "control_rx d = []" "t_control t = []"
      "fst (poll_read READ_BUFFER (t_read t)) = Pending" "t_accept t = None"
      "push_rx d = []" "t_push t = []" "t_sigterm t \<or> t_sigint t"
      "loop_turn B d t = Some ((arrive B d t)\<lparr>phase := Stopped DaemonSignaled\<rparr>)"
  | (Idle) "phase d = Looping" "control_rx d = []" "t_control t = []"
      "fst (poll_read READ_BUFFER (t_read t)) = Pending" "t_accept t = None"
      "push_rx d = []" "t_push t = []" "\<not> t_sigterm t" "\<not> t_sigint t"
      "loop_turn B d t = Some (arrive B d t)"
proof (cases "phase d")
  case (Stopped r)
  then show ?thesis using that(1) by (simp add: loop_turn_def)
next
  case AwaitingChild
  then show ?thesis using that(2) by (simp add: loop_turn_def)
next
  case Looping
  show ?thesis
  proof (cases "control_rx d @ t_control t")
    case (Cons cmd rest)
    then show ?thesis using that(3) loop_turn_command Looping by blast
  next
    case Nil
    then have n: "control_rx d = []" "t_control t = []" by simp_all
    show ?thesis
    proof (cases "fst (poll_read READ_BUFFER (t_read t))")
      case (Ready r)
      show ?thesis
      proof (cases "r = None \<or> r = Some []")
        case True
        then show ?thesis using that(5) Looping n Ready by (auto simp: loop_turn_def Let_def)
      next
        case False
        then obtain chunk where "r = Some chunk" "chunk \<noteq> []" by auto
        then show ?thesis using that(4) Looping n Ready by (simp add: loop_turn_def Let_def)
      qed
    next
      case Pending
      show ?thesis
      proof (cases "t_accept t")
        case (Some ok)
        then show ?thesis using that(6) Looping n Pending by (simp add: loop_turn_def Let_def)
      next
        case None
        show ?thesis
        proof (cases "push_rx d @ t_push t")
          case (Cons dat rest)
          then show ?thesis using that(7) Looping n Pending None by (simp add: loop_turn_def Let_def)
        next
          case Nil
          show ?thesis
          proof (cases "t_sigterm t \<or> t_sigint t")
            case True
            then have "loop_turn B d t = Some ((arrive B d t)\<lparr>phase := Stopped DaemonSignaled\<rparr>)"
              using Nil Looping n Pending None by (simp add: loop_turn_def Let_def)
            then show ?thesis using that(8) Looping n Pending None Nil True by simp
          next
            case False
            then have "loop_turn B d t = Some (arrive B d t)"
              using Nil Looping n Pending None by (simp add: loop_turn_def Let_def)
            then show ?thesis using that(9) Looping n Pending None Nil False by simp
          qed
        qed
      qed
    qed
  qed
qed

text \<open>The loop never panics, and keeps the ring well formed.\<close>

lemma turn_total:
  assumes "ring_wf (ring (fanout d))"
  obtains (Next) d' where "loop_turn B d t = Some d'" "ring_wf (ring (fanout d'))"
    "capacity (ring (fanout d')) = capacity (ring (fanout d))"
    "contents (ring (fanout d')) =
       lastn (capacity (ring (fanout d))) (contents (ring (fanout d)) @ concat (read_in d t))"
    "logged d' = map_option (\<lambda>sent. sent @ read_in d t) (logged d)"
proof -
  let ?r = "ring (fanout d)"
  have same: "lastn (capacity ?r) (contents ?r) = contents ?r"
    using assms by (intro lastn_all) (simp add: ring_wf_def)
  have none: ?thesis if "loop_turn B d t = Some d'" "ring (fanout d') = ?r" "logged d' = logged d"
    "read_in d t = []" for d'
    using that assms same by (intro Next [of d']) (simp_all add: option.map_ident)
  from assms show ?thesis
  proof (cases rule: turn_cases [where t = t and B = B])
    case (Read chunk)
    have "ring_wf (ring (fanout (arrive B d t)))" using assms by simp
    then obtain d' where d': "on_read B chunk (arrive B d t) = Some d'" "ring_wf (ring (fanout d'))"
      "capacity (ring (fanout d')) = capacity ?r"
      "contents (ring (fanout d')) = lastn (capacity ?r) (contents ?r @ chunk)"
      "logged d' = map_option (\<lambda>sent. sent @ [chunk]) (logged d)"
      by (rule on_read_ok) simp
    have "read_in d t = [chunk]" using Read(1-5) by (simp add: read_in_def)
    then show ?thesis using Next [of d'] d' Read(6) by simp
  next
    case Close
    then have "read_in d t = []" by (auto simp: read_in_def)
    then show ?thesis by (intro none [OF Close(5)]) simp_all
  next
    case Left
    then show ?thesis by (intro none [OF Left(2)]) (simp_all add: read_in_def)
  next
    case Await
    then show ?thesis by (intro none [OF Await(2)]) (simp_all add: read_in_def)
  next
    case Command
    then show ?thesis by (intro none [OF Command(3)]) (simp_all add: read_in_def)
  next
    case Accept
    then show ?thesis by (intro none [OF Accept(6)]) (simp_all add: read_in_def)
  next
    case Push
    then show ?thesis
      by (intro none [OF Push(7)]) (simp_all add: read_in_def on_push_def split: prod.splits)
  next
    case Signal
    then show ?thesis by (intro none [OF Signal(9)]) (simp_all add: read_in_def)
  next
    case Idle
    then show ?thesis by (intro none [OF Idle(10)]) (simp_all add: read_in_def)
  qed
qed

lemma run_output:
  assumes "ring_wf (ring (fanout d))"
  shows "\<exists>d'. loop_run B d ts = Some d' \<and> ring_wf (ring (fanout d'))
    \<and> capacity (ring (fanout d')) = capacity (ring (fanout d))
    \<and> contents (ring (fanout d')) =
        lastn (capacity (ring (fanout d))) (contents (ring (fanout d)) @ concat (reads B d ts))
    \<and> logged d' = map_option (\<lambda>sent. sent @ reads B d ts) (logged d)"
  using assms
proof (induction ts arbitrary: d)
  case Nil
  then show ?case by (simp add: lastn_all ring_wf_def option.map_ident)
next
  case (Cons t ts)
  from Cons.prems show ?case
  proof (cases rule: turn_total [where t = t and B = B])
    case (Next d1)
    from Cons.IH [OF Next(2)] show ?thesis using Next
      by (auto simp: lastn_lastn_append option.map_comp comp_def)
  qed
qed

text \<open>What clients queued while the loop had not been left.\<close>

definition taken_in :: "('sig turn \<Rightarrow> 'a list) \<Rightarrow> ('sig, 'ch) loop \<Rightarrow> 'sig turn \<Rightarrow> 'a list" where
  "taken_in sel d t = (case phase d of Stopped _ \<Rightarrow> [] | _ \<Rightarrow> sel t)"

fun queued :: "('sig turn \<Rightarrow> 'a list) \<Rightarrow> ('ch, 'rx) bcast \<Rightarrow> ('sig, 'ch) loop \<Rightarrow> 'sig turn list \<Rightarrow> 'a list" where
  "queued sel B d [] = []"
| "queued sel B d (t # ts) =
     taken_in sel d t @ (case loop_turn B d t of None \<Rightarrow> [] | Some d' \<Rightarrow> queued sel B d' ts)"

lemma turn_input:
  assumes "ring_wf (ring (fanout d))" and "loop_turn B d t = Some d'"
  shows "\<exists>ps outs. push_rx d @ taken_in t_push d t = ps @ push_rx d'
    \<and> list_all2 prefix outs ps \<and> typed d' = typed d @ concat outs
    \<and> clock d' \<le> clock d + PTY_WRITE_TIMEOUT * length ps"
proof -
  have none: ?thesis if "push_rx d' = push_rx d @ taken_in t_push d t" "typed d' = typed d" "clock d' = clock d"
    using that by (intro exI [of _ "[]"]) simp
  from assms(1) show ?thesis
  proof (cases rule: turn_cases [where t = t and B = B])
    case (Push dat rest)
    obtain out e ms where w: "write_within PTY_WRITE_TIMEOUT (t_waits t) (t_write t) dat = (out, e, ms)"
      by (metis prod_cases3)
    have "prefix out dat" "ms \<le> PTY_WRITE_TIMEOUT" using write_within_props [OF w] by simp_all
    then show ?thesis using assms(2) Push(1,6,7) w
      by (intro exI [of _ "[dat]"] exI [of _ "[out]"]) (auto simp: on_push_def taken_in_def)
  next
    case (Read chunk)
    have "ring_wf (ring (fanout (arrive B d t)))" using assms(1) by simp
    then show ?thesis
    proof (rule on_read_ok [of "arrive B d t" B chunk])
      fix d1
      assume "on_read B chunk (arrive B d t) = Some d1" "push_rx d1 = push_rx (arrive B d t)"
        "typed d1 = typed (arrive B d t)" "clock d1 = clock (arrive B d t)"
      then show ?thesis using Read(1,6) assms(2) by (intro none) (simp_all add: taken_in_def)
    qed
  qed (use assms(2) in \<open>intro none; simp add: taken_in_def split: if_splits\<close>)+
qed

lemma run_input:
  assumes "ring_wf (ring (fanout d))" and "loop_run B d ts = Some d'"
  shows "\<exists>ps outs. push_rx d @ queued t_push B d ts = ps @ push_rx d'
    \<and> list_all2 prefix outs ps \<and> typed d' = typed d @ concat outs
    \<and> clock d' \<le> clock d + PTY_WRITE_TIMEOUT * length ps"
  using assms
proof (induction ts arbitrary: d)
  case Nil
  then show ?case by (intro exI [of _ "[]"]) simp
next
  case (Cons t ts)
  from Cons.prems(1) show ?case
  proof (cases rule: turn_total [where t = t and B = B])
    case (Next d1)
    obtain ps outs where 1: "push_rx d @ taken_in t_push d t = ps @ push_rx d1" "list_all2 prefix outs ps"
      "typed d1 = typed d @ concat outs" "clock d1 \<le> clock d + PTY_WRITE_TIMEOUT * length ps"
      using turn_input [OF Cons.prems(1) Next(1)] by blast
    have "loop_run B d1 ts = Some d'" using Cons.prems(2) Next(1) by simp
    from Cons.IH [OF Next(2) this] obtain ps' outs' where 2:
      "push_rx d1 @ queued t_push B d1 ts = ps' @ push_rx d'" "list_all2 prefix outs' ps'"
      "typed d' = typed d1 @ concat outs'" "clock d' \<le> clock d1 + PTY_WRITE_TIMEOUT * length ps'"
      by blast
    have "push_rx d @ queued t_push B d (t # ts) = (ps @ ps') @ push_rx d'"
      using 1(1) 2(1) Next(1) by (metis append.assoc option.case(2) queued.simps(2))
    moreover have "list_all2 prefix (outs @ outs') (ps @ ps')"
      using 1(2) 2(2) by (rule list_all2_appendI)
    ultimately show ?thesis using 1(3,4) 2(3,4)
      by (intro exI [of _ "ps @ ps'"] exI [of _ "outs @ outs'"]) (simp add: algebra_simps)
  qed
qed

text \<open>A turn takes no time, or that of one write.\<close>

lemma turn_time:
  assumes "ring_wf (ring (fanout d))" and "loop_turn B d t = Some d'"
  shows "clock d' \<le> clock d + PTY_WRITE_TIMEOUT"
  using assms(1)
proof (cases rule: turn_cases [where t = t and B = B])
  case (Push dat rest)
  obtain out e ms where w: "write_within PTY_WRITE_TIMEOUT (t_waits t) (t_write t) dat = (out, e, ms)"
    by (metis prod_cases3)
  then have "ms \<le> PTY_WRITE_TIMEOUT" using write_within_props [OF w] by simp
  then show ?thesis using assms(2) Push(7) w by (auto simp: on_push_def)
next
  case (Read chunk)
  have "ring_wf (ring (fanout (arrive B d t)))" using assms(1) by simp
  then show ?thesis
    by (rule on_read_ok [of "arrive B d t" B chunk]) (use Read(6) assms(2) in simp)
qed (use assms(2) in \<open>auto split: if_splits\<close>)

fun signals_of :: "'sig ControlCommand list \<Rightarrow> 'sig list" where
  "signals_of [] = []"
| "signals_of (Signal s # cs) = s # signals_of cs"
| "signals_of (Resize _ _ # cs) = signals_of cs"

lemma signals_of_append [simp]: "signals_of (xs @ ys) = signals_of xs @ signals_of ys"
  by (induction xs rule: signals_of.induct) auto

fun sizes_of :: "'sig ControlCommand list \<Rightarrow> (u16 \<times> u16) list" where
  "sizes_of [] = []"
| "sizes_of (Resize r c # cs) = (r, c) # sizes_of cs"
| "sizes_of (Signal _ # cs) = sizes_of cs"

lemma sizes_of_append [simp]: "sizes_of (xs @ ys) = sizes_of xs @ sizes_of ys"
  by (induction xs rule: sizes_of.induct) auto

lemma resizes_only:
  "sizes_of (map (case_prod Resize) xs) = xs" "signals_of (map (case_prod Resize) xs) = []"
  by (induction xs) auto

text \<open>The signals given and the size of the terminal, from the commands a turn takes.\<close>

lemma turn_signals:
  assumes "ring_wf (ring (fanout d))" and "loop_turn B d t = Some d'"
  shows "\<exists>cs sigs. control_rx d @ taken_in t_control d t = cs @ control_rx d'
    \<and> delivered d' = delivered d @ map (Pair (pgid (pty d))) sigs
    \<and> subseq sigs (signals_of cs) \<and> pgid (pty d') = pgid (pty d)
    \<and> (t_resize_ok t \<longrightarrow> winsize (pty d') = last (winsize (pty d) # sizes_of cs))"
proof -
  have none: ?thesis if "control_rx d' = control_rx d @ taken_in t_control d t"
    "delivered d' = delivered d" "pty d' = pty d"
    using that by (intro exI [of _ "[]"]) simp
  from assms(1) show ?thesis
  proof (cases rule: turn_cases [where t = t and B = B])
    case (Command cmd rest)
    then have d': "d' = on_command t cmd ((arrive B d t)\<lparr>control_rx := rest\<rparr>)" using assms(2) by simp
    show ?thesis
    proof (cases cmd)
      case (Resize r c)
      then show ?thesis using Command(1,2) d'
        by (intro exI [of _ "[cmd]"] exI [of _ "[]"])
          (simp add: taken_in_def exec_command_def pty_resize_def)
    next
      case (Signal sig)
      then show ?thesis using Command(1,2) d'
        by (intro exI [of _ "[cmd]"] exI [of _ "if t_signal_ok t then [sig] else []"])
          (simp add: taken_in_def exec_command_def pty_signal_def)
    qed
  next
    case (Read chunk)
    have "ring_wf (ring (fanout (arrive B d t)))" using assms(1) by simp
    then show ?thesis
    proof (rule on_read_ok [of "arrive B d t" B chunk])
      fix d1
      assume "on_read B chunk (arrive B d t) = Some d1" "control_rx d1 = control_rx (arrive B d t)"
        "delivered d1 = delivered (arrive B d t)" "pty d1 = pty (arrive B d t)"
      then show ?thesis using Read(1,6) assms(2) by (intro none) (simp_all add: taken_in_def)
    qed
  next
    case Push
    then show ?thesis using assms(2)
      by (intro none; simp add: taken_in_def on_push_def split: prod.splits)
  qed (use assms(2) in \<open>intro none; simp add: taken_in_def split: if_splits\<close>)+
qed

lemma run_signals:
  assumes "ring_wf (ring (fanout d))" and "loop_run B d ts = Some d'"
  shows "\<exists>cs sigs. control_rx d @ queued t_control B d ts = cs @ control_rx d'
    \<and> delivered d' = delivered d @ map (Pair (pgid (pty d))) sigs \<and> subseq sigs (signals_of cs)
    \<and> ((\<forall>t \<in> set ts. t_resize_ok t) \<longrightarrow> winsize (pty d') = last (winsize (pty d) # sizes_of cs))"
  using assms
proof (induction ts arbitrary: d)
  case Nil
  then show ?case by (intro exI [of _ "[]"]) simp
next
  case (Cons t ts)
  from Cons.prems(1) show ?case
  proof (cases rule: turn_total [where t = t and B = B])
    case (Next d1)
    obtain cs sigs where 1: "control_rx d @ taken_in t_control d t = cs @ control_rx d1"
      "delivered d1 = delivered d @ map (Pair (pgid (pty d))) sigs"
      "subseq sigs (signals_of cs)" "pgid (pty d1) = pgid (pty d)"
      "t_resize_ok t \<longrightarrow> winsize (pty d1) = last (winsize (pty d) # sizes_of cs)"
      using turn_signals [OF Cons.prems(1) Next(1)] by blast
    have "loop_run B d1 ts = Some d'" using Cons.prems(2) Next(1) by simp
    from Cons.IH [OF Next(2) this] obtain cs' sigs' where 2:
      "control_rx d1 @ queued t_control B d1 ts = cs' @ control_rx d'"
      "delivered d' = delivered d1 @ map (Pair (pgid (pty d1))) sigs'" "subseq sigs' (signals_of cs')"
      "(\<forall>t \<in> set ts. t_resize_ok t) \<longrightarrow> winsize (pty d') = last (winsize (pty d1) # sizes_of cs')"
      by blast
    have "control_rx d @ queued t_control B d (t # ts) = (cs @ cs') @ control_rx d'"
      using 1(1) 2(1) Next(1) by (metis append.assoc option.case(2) queued.simps(2))
    moreover have "winsize (pty d') = last (winsize (pty d) # sizes_of (cs @ cs'))" if "\<forall>t \<in> set (t # ts). t_resize_ok t"
      using 1(5) 2(4) that by (auto split: if_splits)
    ultimately show ?thesis using 1(2-4) 2(2,3)
      by (intro exI [of _ "cs @ cs'"] exI [of _ "sigs @ sigs'"]) (simp add: list_emb_append_mono)
  qed
qed

section \<open>Input that gets through\<close>

text \<open>
  A turn in which nothing comes before the queued input, and the program takes all of the next chunk in time.
\<close>

definition takes_chunk :: "'sig turn \<Rightarrow> bytes \<Rightarrow> bool" where
  "takes_chunk t dat \<longleftrightarrow> t_control t = [] \<and> t_push t = [] \<and> t_accept t = None
     \<and> fst (poll_read READ_BUFFER (t_read t)) = Pending
     \<and> fst (snd (write_within PTY_WRITE_TIMEOUT (t_waits t) (t_write t) dat)) = Written"

lemma push_turn:
  assumes "phase d = Looping" and "control_rx d = []" and "push_rx d = dat # rest" and "takes_chunk t dat"
  shows "\<exists>d'. loop_turn B d t = Some d' \<and> phase d' = Looping \<and> control_rx d' = [] \<and> push_rx d' = rest
    \<and> typed d' = typed d @ dat \<and> clock d' \<le> clock d + PTY_WRITE_TIMEOUT"
proof -
  obtain out e ms where w: "write_within PTY_WRITE_TIMEOUT (t_waits t) (t_write t) dat = (out, e, ms)"
    by (metis prod_cases3)
  with assms(4) write_within_props [OF w] have "out = dat" "ms \<le> PTY_WRITE_TIMEOUT"
    by (simp_all add: takes_chunk_def)
  then show ?thesis using assms w
    by (simp add: takes_chunk_def loop_turn_def on_push_def Let_def)
qed

lemma pushes_written:
  assumes "list_all2 takes_chunk ts (push_rx d)" and "phase d = Looping" and "control_rx d = []"
  shows "\<exists>d'. loop_run B d ts = Some d' \<and> phase d' = Looping \<and> push_rx d' = []
    \<and> typed d' = typed d @ concat (push_rx d) \<and> clock d' \<le> clock d + PTY_WRITE_TIMEOUT * length (push_rx d)"
  using assms
proof (induction ts arbitrary: d)
  case (Cons t ts)
  then obtain dat rest where q: "push_rx d = dat # rest" "takes_chunk t dat" "list_all2 takes_chunk ts rest"
    by (auto simp: list_all2_Cons1)
  obtain d1 where d1: "loop_turn B d t = Some d1" "phase d1 = Looping" "control_rx d1 = []" "push_rx d1 = rest"
    "typed d1 = typed d @ dat" "clock d1 \<le> clock d + PTY_WRITE_TIMEOUT"
    using push_turn [OF Cons.prems(2,3) q(1,2)] by blast
  from Cons.IH [of d1] d1 q show ?case by auto
qed simp

section \<open>When the loop is left\<close>

lemma starve_turn:
  assumes "ring_wf (ring (fanout d))" and "phase d = Looping" and "control_rx d = []" and "t_control t = []"
    and "fst (poll_read READ_BUFFER (t_read t)) = Ready (Some chunk)" and "chunk \<noteq> []"
  obtains (Next) d' where "loop_turn B d t = Some d'" "ring_wf (ring (fanout d'))" "phase d' = Looping"
    "control_rx d' = []" "push_rx d' = push_rx d @ t_push t" "clients d' = clients d" "typed d' = typed d"
proof -
  have "ring_wf (ring (fanout (arrive B d t)))" using assms(1) by simp
  then show ?thesis
  proof (rule on_read_ok [of "arrive B d t" B chunk])
    fix d1
    assume d1: "on_read B chunk (arrive B d t) = Some d1" "ring_wf (ring (fanout d1))"
      "phase d1 = phase (arrive B d t)" "control_rx d1 = control_rx (arrive B d t)"
      "push_rx d1 = push_rx (arrive B d t)" "clients d1 = clients (arrive B d t)"
      "typed d1 = typed (arrive B d t)"
    have "loop_turn B d t = on_read B chunk (arrive B d t)"
      using assms by (simp add: loop_turn_def Let_def)
    then show ?thesis using assms d1 by (intro Next [of d1]) simp_all
  qed
qed

lemma closed_turn:
  assumes "phase d = Looping" and "control_rx d = []" and "t_control t = []"
    and "fst (poll_read READ_BUFFER (t_read t)) \<in> {Ready None, Ready (Some [])}"
  shows "loop_turn B d t = Some (await_child t (arrive B d t))"
  using assms by (auto simp: loop_turn_def Let_def)

lemma stopped_loop: "phase d = Stopped r \<Longrightarrow> loop_run B d ts = Some d"
  by (induction ts) (simp_all add: loop_turn_def)

lemma awaiting_loop:
  "phase d = AwaitingChild \<Longrightarrow> \<forall>t \<in> set ts. t_exit t = None \<Longrightarrow>
    \<exists>d'. loop_run B d ts = Some d' \<and> phase d' = AwaitingChild
      \<and> delivered d' = delivered d \<and> pty d' = pty d \<and> clients d' = clients d \<and> typed d' = typed d
      \<and> control_rx d' = control_rx d @ concat (map t_control ts)"
proof (induction ts arbitrary: d)
  case (Cons t ts)
  let ?d = "await_child t (arrive B d t)"
  have "loop_turn B d t = Some ?d" using Cons.prems(1) by (simp add: loop_turn_def)
  moreover have "phase ?d = AwaitingChild" using Cons.prems(2) by (simp add: await_child_def)
  ultimately show ?case using Cons.IH [of ?d] Cons.prems(2) by auto
qed simp

text \<open>
  Phases in the order a daemon goes through them: from anywhere in the loop to the wait or to the
  end, and from the wait only to the exit of the child.
\<close>

instantiation phase :: order
begin

definition less_eq_phase :: "phase \<Rightarrow> phase \<Rightarrow> bool" where
  "p \<le> q \<longleftrightarrow> p = q \<or> p = Looping \<or>
     (p = AwaitingChild \<and> (case q of Stopped (ChildExited _) \<Rightarrow> True | _ \<Rightarrow> False))"

definition less_phase :: "phase \<Rightarrow> phase \<Rightarrow> bool" where
  "p < (q :: phase) \<longleftrightarrow> p \<le> q \<and> p \<noteq> q"

instance
  by standard
    (auto simp: less_eq_phase_def less_phase_def split: phase.splits ShutdownReason.splits)

end

lemma phase_order [simp]:
  "Looping \<le> p" "AwaitingChild \<le> Stopped (ChildExited code)" "\<not> AwaitingChild \<le> Stopped DaemonSignaled"
  "Stopped r \<le> p \<longleftrightarrow> p = Stopped r" "\<not> AwaitingChild \<le> Looping"
  by (auto simp: less_eq_phase_def)

lemma await_advances: "phase d \<le> AwaitingChild \<Longrightarrow> phase d \<le> phase (await_child t d')"
  by (auto simp: await_child_def less_eq_phase_def split: option.split)

lemma turn_advances:
  assumes "ring_wf (ring (fanout d))" and "loop_turn B d t = Some d'"
  shows "phase d \<le> phase d'"
  using assms(1)
proof (cases rule: turn_cases [where t = t and B = B])
  case Left
  then show ?thesis using assms(2) by simp
next
  case Await
  then show ?thesis using assms(2) await_advances [of d t "arrive B d t"] by simp
qed simp_all

section \<open>Starting and stopping\<close>

text \<open>
  What the machine answers while the daemon starts: whether the directory of the socket can be
  created, the chain the process inherited, the system calls of \<open>spawn\<close>, the contents of each
  file when it is opened as a log (\<open>None\<close>: it cannot be), the rotation of that log, the binding
  of the socket and the two signal handlers.
\<close>

record ('e, 'l) machine =
  mkdir_ok :: "string \<Rightarrow> bool"
  inherited :: "string option"
  pty_calls :: pty_os
  log_opened :: "string \<Rightarrow> bytes option"
  log_rotation :: rotate_io
  log_metadata_ok :: bool
  bind_call :: "('e, 'l) sock_call"
  bind_dirs :: dir_env
  sigterm_ok :: bool
  sigint_ok :: bool

datatype 'e start_error =
    MkdirFailed | PtyFailed pty_error | LogFailed io_error | BindFailed "'e sock_error" | SignalFailed

datatype start_effect =
    CreatedDir string
  | PtyCalls "pty_call list"
  | OpenedLog string SessionLog
  | BoundSocket string

datatype ('e, 'a) started = Started 'a | Failed "'e start_error" | Panicked

text \<open>\<open>spawn_log_writer\<close>: the log it opens; the writer then appends whatever is sent, in order.\<close>

definition spawn_log_writer :: "('e, 'l) machine \<Rightarrow> string \<Rightarrow> u64 \<Rightarrow> SessionLog outcome" where
  "spawn_log_writer M path limit =
     log_open (log_rotation M) (log_metadata_ok M) (log_opened M path) (unat limit)"

definition loop_start :: "'ch Fanout \<Rightarrow> Pty \<Rightarrow> SessionLog option \<Rightarrow> ('sig, 'ch) loop" where
  "loop_start f p log =
     \<lparr>fanout = f, logged = map_option (\<lambda>_. []) log, control_rx = [], push_rx = [], pty = p,
      delivered = [], typed = [], clients = 0, clock = 0, phase = Looping\<rparr>"

text \<open>The part of \<open>run\<close> before the loop: the loop's first state, the log, and the effects so far.\<close>

definition create_parent :: "('e, 'l) machine \<Rightarrow> DaemonConfig \<Rightarrow> start_effect list option" where
  "create_parent M config =
     (case path_parent (socket_path config) of
        None \<Rightarrow> Some []
      | Some parent \<Rightarrow> if mkdir_ok M parent then Some [CreatedDir parent] else None)"

definition open_session_log ::
    "('e, 'l) machine \<Rightarrow> DaemonConfig \<Rightarrow> (SessionLog option \<times> start_effect list) outcome" where
  "open_session_log M config =
     (case log_path config of
        None \<Rightarrow> Ok (None, [])
      | Some path \<Rightarrow>
          (case spawn_log_writer M path (log_max_size config) of
             Ok l \<Rightarrow> Ok (Some l, [OpenedLog path l])
           | Err e \<Rightarrow> Err e
           | Panic \<Rightarrow> Panic))"

definition spawn_child :: "('e, 'l) machine \<Rightarrow> DaemonConfig \<Rightarrow> (pty_error + Pty) \<times> pty_call list" where
  "spawn_child M config =
     pty_spawn (pty_calls M) (cfg_program config) (cfg_args config) (initial_rows config)
       (initial_cols config) SESSION_ENVVAR (extend_ancestry (inherited M) (socket_path config))"

definition daemon_start ::
    "('ch, 'rx) bcast \<Rightarrow> ('e, 'l) machine \<Rightarrow> string \<Rightarrow> DaemonConfig
      \<Rightarrow> ('e, ('sig, 'ch) loop \<times> SessionLog option) started \<times> start_effect list" where
  "daemon_start B M cwd config =
     (case create_parent M config of
        None \<Rightarrow> (Failed MkdirFailed, [])
      | Some es0 \<Rightarrow>
          (case spawn_child M config of
             (Inl e, calls) \<Rightarrow> (Failed (PtyFailed e), es0 @ [PtyCalls calls])
           | (Inr p, calls) \<Rightarrow>
               (case fan_new B (scrollback_size config) 1024 of
                  None \<Rightarrow> (Panicked, es0 @ [PtyCalls calls])
                | Some f \<Rightarrow>
                    (case open_session_log M config of
                       Err e \<Rightarrow> (Failed (LogFailed e), es0 @ [PtyCalls calls])
                     | Panic \<Rightarrow> (Panicked, es0 @ [PtyCalls calls])
                     | Ok (log, es1) \<Rightarrow>
                         (case fst (bind_listener (bind_call M) (bind_dirs M) cwd (socket_path config)) of
                            Inl e \<Rightarrow> (Failed (BindFailed e), es0 @ [PtyCalls calls] @ es1)
                          | Inr listener \<Rightarrow>
                              if \<not> sigterm_ok M \<or> \<not> sigint_ok M
                              then (Failed SignalFailed,
                                    es0 @ [PtyCalls calls] @ es1 @ [BoundSocket (socket_path config)])
                              else (Started (loop_start f p log, log),
                                    es0 @ [PtyCalls calls] @ es1 @ [BoundSocket (socket_path config)]))))))"

text \<open>
  The part after the loop: the marker is sent to the log, which the writer thread drains before
  the process goes on (its errors are ignored), and the socket is removed.
\<close>

definition end_marker :: "nat \<Rightarrow> bytes" where
  "end_marker secs =
     [13, 10] @ as_bytes (''[hytch: session ended after '' @ format_age secs @ '']'') @ [13, 10]"

text \<open>
  The writer thread: it appends what it receives until the channel is closed and empty, ignoring
  errors; a panic ends it. \<open>A n\<close> is what the kernel answers to the \<open>n\<close>-th append.
\<close>

fun log_writer :: "(nat \<Rightarrow> write_outcome \<times> rotate_io \<times> bool) \<Rightarrow> nat \<Rightarrow> SessionLog \<Rightarrow> bytes list \<Rightarrow> SessionLog" where
  "log_writer A n l [] = l"
| "log_writer A n l (chunk # chunks) =
     (case A n of (w, io, metadata_ok) \<Rightarrow>
        (case log_append w io metadata_ok l chunk of
           (Panic, l') \<Rightarrow> l'
         | (_, l') \<Rightarrow> log_writer A (Suc n) l' chunks))"

text \<open>The reason, the log, and the path of the socket that was removed.\<close>

definition daemon_stop ::
    "(nat \<Rightarrow> write_outcome \<times> rotate_io \<times> bool) \<Rightarrow> nat \<Rightarrow> DaemonConfig \<Rightarrow> ('sig, 'ch) loop
      \<Rightarrow> SessionLog option \<Rightarrow> (ShutdownReason \<times> SessionLog option \<times> string) option" where
  "daemon_stop A secs config d log =
     (case phase d of
        Stopped reason \<Rightarrow>
          let log' = (case (log, logged d) of
                        (Some l, Some sent) \<Rightarrow> Some (log_writer A 0 l (sent @ [end_marker secs]))
                      | _ \<Rightarrow> log)
          in Some (reason, log', socket_path config)
      | _ \<Rightarrow> None)"

text \<open>
  The whole of \<open>run\<close> over a list of turns: its error, or the reason it returns; \<open>None\<close> while it has not
  returned (or has panicked).
\<close>

definition daemon_run ::
    "('ch, 'rx) bcast \<Rightarrow> ('e, 'l) machine \<Rightarrow> string \<Rightarrow> (nat \<Rightarrow> write_outcome \<times> rotate_io \<times> bool) \<Rightarrow> nat
      \<Rightarrow> 'sig turn list \<Rightarrow> DaemonConfig \<Rightarrow> ('e start_error + ShutdownReason) option" where
  "daemon_run B M cwd A secs ts config =
     (case fst (daemon_start B M cwd config) of
        Failed e \<Rightarrow> Some (Inl e)
      | Panicked \<Rightarrow> None
      | Started (d, log) \<Rightarrow>
          (case loop_run B d ts of
             None \<Rightarrow> None
           | Some d' \<Rightarrow> map_option (\<lambda>(reason, _, _). Inr reason) (daemon_stop A secs config d' log)))"

lemma log_writer_fine:
  assumes "fine io" and "\<And>n. A n = (WriteFull, io, True)" and "log_wf l"
  shows "log_writer A n l chunks = log_append_all io l chunks"
  using assms(3)
proof (induction chunks arbitrary: n l)
  case (Cons c cs)
  obtain l' where l': "log_append WriteFull io True l c = (Ok (), l')"
    by (simp add: log_append_fine [OF assms(1) Cons.prems])
  have "log_wf l'" using log_append_wf [OF assms(1) Cons.prems l'] .
  from Cons.IH [OF this] show ?case by (simp add: assms(2) l')
qed simp

text \<open>While the kernel does not fail, the log is a tail of its old contents and all that was appended.\<close>

lemma writer_keeps:
  assumes "log_open rot True (Some existing) cap = Ok l" and "fine rot" and "fine io"
    and "\<And>n. A n = (WriteFull, io, True)"
  shows "keeps (existing @ concat chunks) cap (content (log_file (log_writer A n l chunks)))"
proof -
  have l: "log_wf l" "content (log_file l) = rotated existing cap" "max_size l = cap"
    using log_open_wf [OF assms(2,1)] assms(1) by (auto simp: log_open_fine [OF assms(2)])
  have "keeps existing (max_size l) (content (log_file l))"
    unfolding l(2,3) by (intro keeps_rotated keeps_all)
  from log_append_all_props [OF assms(3) l(1) this] show ?thesis
    by (simp add: log_writer_fine [OF assms(3,4) l(1)] l(3))
qed

lemma daemon_start_past_log:
  assumes "daemon_start B M cwd config = (res, es)"
    and "(\<exists>x. res = Started x) \<or> (\<exists>e. res = Failed (BindFailed e))"
  obtains es0 p calls f log es1 where "create_parent M config = Some es0"
    "spawn_child M config = (Inr p, calls)" "fan_new B (scrollback_size config) 1024 = Some f"
    "open_session_log M config = Ok (log, es1)"
    "\<And>e. res = Failed (BindFailed e) \<Longrightarrow> es = es0 @ [PtyCalls calls] @ es1"
    "\<And>x. res = Started x \<Longrightarrow> x = (loop_start f p log, log)
      \<and> es = es0 @ [PtyCalls calls] @ es1 @ [BoundSocket (socket_path config)]"
proof -
  note u = assms(1) [unfolded daemon_start_def]
  obtain es0 where 0: "create_parent M config = Some es0"
    using assms(2) u by (cases "create_parent M config") auto
  obtain r calls where s: "spawn_child M config = (r, calls)" by fastforce
  then obtain p where 1: "r = Inr p" using assms(2) u 0 by (cases r) auto
  obtain f where 2: "fan_new B (scrollback_size config) 1024 = Some f"
    using assms(2) u 0 s 1 by (cases "fan_new B (scrollback_size config) 1024") auto
  obtain log es1 where 3: "open_session_log M config = Ok (log, es1)"
    using assms(2) u 0 s 1 2 by (cases "open_session_log M config") auto
  show ?thesis
  proof (rule that [OF 0 _ 2 3])
    show "spawn_child M config = (Inr p, calls)" using s 1 by simp
  qed (use u 0 s 1 2 3 in \<open>simp_all split: sum.splits if_splits\<close>)
qed

lemma daemon_start_Started:
  assumes "daemon_start B M cwd config = (Started (d, log), es)"
  shows "fan_wf (fanout d) \<and> capacity (ring (fanout d)) = scrollback_size config
    \<and> contents (ring (fanout d)) = [] \<and> phase d = Looping \<and> control_rx d = [] \<and> push_rx d = []
    \<and> typed d = [] \<and> delivered d = [] \<and> clock d = 0 \<and> logged d = map_option (\<lambda>_. []) log
    \<and> (\<exists>es1. open_session_log M config = Ok (log, es1))"
  by (rule daemon_start_past_log [OF assms]) (use fan_new_wf in \<open>auto simp: loop_start_def\<close>)

text \<open>Why a daemon stops.\<close>

definition stop_cause :: "'sig turn list \<Rightarrow> ShutdownReason \<Rightarrow> bool" where
  "stop_cause ts r =
     (case r of
        ChildExited code \<Rightarrow> (\<exists>t \<in> set ts. t_exit t = Some code)
      | DaemonSignaled \<Rightarrow> (\<exists>t \<in> set ts. t_sigterm t \<or> t_sigint t))"

lemma turn_stops:
  assumes "ring_wf (ring (fanout d))" and "loop_turn B d t = Some d'" and "phase d' = Stopped r"
  shows "phase d = Stopped r \<or> stop_cause [t] r"
  using assms(1)
proof (cases rule: turn_cases [where t = t and B = B])
  case Await
  then show ?thesis using assms(2,3) by (auto simp: await_child_def stop_cause_def split: option.splits)
next
  case Close
  then show ?thesis using assms(2,3) by (auto simp: await_child_def stop_cause_def split: option.splits)
next
  case Signal
  then show ?thesis using assms(2,3) by (auto simp: stop_cause_def)
next
  case (Read chunk)
  have "ring_wf (ring (fanout (arrive B d t)))" using assms(1) by simp
  then show ?thesis
    by (rule on_read_ok [of "arrive B d t" B chunk]) (use Read(1,6) assms(2,3) in simp)
next
  case Push
  then show ?thesis using assms(2,3) by (auto simp: on_push_def split: prod.splits)
qed (use assms(2,3) in \<open>auto split: if_splits\<close>)

lemma run_stops:
  assumes "ring_wf (ring (fanout d))" and "loop_run B d ts = Some d'" and "phase d' = Stopped r"
  shows "phase d = Stopped r \<or> stop_cause ts r"
  using assms(1,2)
proof (induction ts arbitrary: d)
  case (Cons t ts)
  have cause: "stop_cause [t] r \<or> stop_cause ts r \<Longrightarrow> stop_cause (t # ts) r"
    by (auto simp: stop_cause_def split: ShutdownReason.splits)
  from Cons.prems(1) show ?case
  proof (cases rule: turn_total [where t = t and B = B])
    case (Next d1)
    then have "loop_run B d1 ts = Some d'" using Cons.prems(2) by simp
    from Cons.IH [OF Next(2) this] turn_stops [OF Cons.prems(1) Next(1), of r] cause show ?thesis by blast
  qed
qed (use assms(3) in simp)

lemma daemon_run_cause:
  fixes B :: "('ch, 'rx) bcast" and M :: "('e, 'l) machine" and ts :: "'sig turn list"
  assumes "daemon_run B M cwd A secs ts config = Some (Inr r)"
  shows "stop_cause ts r"
proof -
  obtain st :: "('e, ('sig, 'ch) loop \<times> SessionLog option) started" and es where s0: "daemon_start B M cwd config = (st, es)" by fastforce
  then obtain d log where "st = Started (d, log)"
    using assms by (cases st) (auto simp: daemon_run_def)
  with s0 have s: "daemon_start B M cwd config = (Started (d, log), es)" by simp
  note start = daemon_start_Started [OF s]
  obtain d' where l: "loop_run B d ts = Some d'" "phase d' = Stopped r"
    using assms s by (auto simp: daemon_run_def daemon_stop_def split: option.splits phase.splits)
  from run_stops [OF _ l] start show ?thesis by (simp add: fan_wf_def)
qed

section \<open>Properties\<close>

text \<open>
  A machine on which everything works and a daemon that logs into a file with old contents; used
  by the witnesses.
\<close>

definition calm :: "(unit, unit) machine" where
  "calm = \<lparr>mkdir_ok = (\<lambda>_. True), inherited = None, pty_calls = good_os,
     log_opened = (\<lambda>_. Some [79, 75]), log_rotation = fine_io, log_metadata_ok = True,
     bind_call = (\<lambda>_ _. Inr ()), bind_dirs = any_dir, sigterm_ok = True, sigint_ok = True\<rparr>"

definition small_config :: DaemonConfig where
  "small_config = \<lparr>socket_path = ''/s/a'', log_path = Some ''/s/a.log'', log_max_size = 100,
     scrollback_size = 2, cfg_program = ''sh'', cfg_args = [], initial_rows = 24, initial_cols = 80\<rparr>"

definition small_log :: SessionLog where
  "small_log = \<lparr>log_file = \<lparr>content = [79, 75], pos = 2\<rparr>, max_size = 100, current_size = 2\<rparr>"

definition small_loop :: "(int, hist_chan) loop" where
  "small_loop = loop_start
     \<lparr>ring = \<lparr>buf = [0, 0], head = 0, len = 0\<rparr>, tx = \<lparr>hist = [], kept_cap = 1024\<rparr>\<rparr>
     \<lparr>pgid = 4711, winsize = (24, 80)\<rparr> (Some small_log)"

lemma small_start:
  "daemon_start hist_bcast calm ''/'' small_config = (Started (small_loop, Some small_log),
     [CreatedDir ''/s'', PtyCalls (spawn_calls ''sh'' [] 24 80 SESSION_ENVVAR ''/s/a''),
      OpenedLog ''/s/a.log'' small_log, BoundSocket ''/s/a''])"
  by code_simp

text \<open>A turn in which nothing is ready.\<close>

definition quiet_turn :: "int turn" where
  "quiet_turn = \<lparr>t_control = [], t_push = [], t_attach = 0, t_resize_ok = True, t_signal_ok = True,
     t_read = [], t_exit = None, t_accept = None, t_waits = [], t_write = [], t_sigterm = False,
     t_sigint = False\<rparr>"



text \<open>
  Commands come first: while commands are queued, each turn of the loop executes the
  next one, in order, and does nothing else. Output, new connections, queued input and signals to
  the daemon wait, no time is spent, and the loop cannot be left. So a kill in position \<open>i\<close> of
  the queue is delivered within \<open>i + 1\<close> turns, however much data is waiting.
\<close>

theorem commands_run_first:
  assumes "phase d = Looping" and "length ts \<le> length (control_rx d)"
  shows "\<exists>d'. loop_run B d ts = Some d' \<and> phase d' = Looping
    \<and> control_rx d' = drop (length ts) (control_rx d) @ concat (map t_control ts)
    \<and> push_rx d' = push_rx d @ concat (map t_push ts)
    \<and> (pty d', delivered d') =
        fold (\<lambda>(cmd, t). exec_command t cmd) (zip (control_rx d) ts) (pty d, delivered d)
    \<and> typed d' = typed d \<and> logged d' = logged d \<and> clients d' = clients d \<and> clock d' = clock d"
  using assms by (rule commands_first)

theorem commands_run_first_witness:
  "\<exists>d'. loop_run hist_bcast (small_loop\<lparr>control_rx := [Resize 30 90, Signal 15], push_rx := [[65]]\<rparr>)
      [quiet_turn, quiet_turn\<lparr>t_read := [IoOk [66]]\<rparr>] = Some d'
    \<and> delivered d' = [(4711, 15)] \<and> winsize (pty d') = (30, 90)"
proof -
  have "phase (small_loop\<lparr>control_rx := [Resize 30 90, Signal 15], push_rx := [[65]]\<rparr>) = Looping"
    "length [quiet_turn, quiet_turn\<lparr>t_read := [IoOk [66]]\<rparr>]
      \<le> length (control_rx (small_loop\<lparr>control_rx := [Resize 30 90, Signal 15], push_rx := [[65]]\<rparr>))"
    by (simp_all add: small_loop_def loop_start_def)
  from commands_run_first [OF this, of hist_bcast] show ?thesis
    by (auto simp: exec_command_def pty_resize_def pty_signal_def quiet_turn_def small_loop_def loop_start_def)
qed

text \<open>
  Input keeps its order: what the child receives is, chunk by chunk in the order the
  clients queued them, a beginning of each chunk (the whole of it unless the write failed or timed
  out); nothing is repeated or reordered, what was not taken is still queued, and the time spent
  is at most \<open>PTY_WRITE_TIMEOUT\<close> for each chunk taken.
\<close>

theorem input_in_order:
  assumes "ring_wf (ring (fanout d))" and "loop_run B d ts = Some d'"
  shows "\<exists>ps outs. push_rx d @ queued t_push B d ts = ps @ push_rx d'
    \<and> list_all2 prefix outs ps \<and> typed d' = typed d @ concat outs
    \<and> clock d' \<le> clock d + PTY_WRITE_TIMEOUT * length ps"
  using assms by (rule run_input)

theorem input_in_order_witness:
  "\<exists>ps outs. push_rx small_loop @
       queued t_push hist_bcast small_loop [quiet_turn\<lparr>t_push := [[65, 66], [67]], t_write := [IoOk 1, NotReady]\<rparr>]
      = ps @ [[67]]
    \<and> list_all2 prefix outs ps \<and> [65] = typed small_loop @ concat outs
    \<and> 500 \<le> clock small_loop + PTY_WRITE_TIMEOUT * length ps"
proof -
  have w: "ring_wf (ring (fanout small_loop))" by code_simp
  have r: "loop_run hist_bcast small_loop [quiet_turn\<lparr>t_push := [[65, 66], [67]], t_write := [IoOk 1, NotReady]\<rparr>]
      = Some (small_loop\<lparr>push_rx := [[67]], typed := [65], clock := 500\<rparr>)"
    by code_simp
  from input_in_order [OF w r] show ?thesis by simp
qed

text \<open>
  Only commands signal the child: every signal delivered goes to the child's process
  group and is one that a client asked for, in the order they asked; the daemon's own end, by a
  signal or otherwise, sends none.
\<close>

theorem signals_only_on_command:
  assumes "ring_wf (ring (fanout d))" and "loop_run B d ts = Some d'"
  shows "\<exists>cs sigs. control_rx d @ queued t_control B d ts = cs @ control_rx d'
    \<and> delivered d' = delivered d @ map (Pair (pgid (pty d))) sigs \<and> subseq sigs (signals_of cs)"
  using run_signals [OF assms] by blast

theorem signals_only_on_command_witness:
  "\<exists>cs sigs. control_rx small_loop @
       queued t_control hist_bcast small_loop [quiet_turn\<lparr>t_control := [Signal 15]\<rparr>, quiet_turn\<lparr>t_sigint := True\<rparr>]
      = cs @ []
    \<and> [(4711, 15)] = delivered small_loop @ map (Pair (pgid (pty small_loop))) sigs
    \<and> subseq sigs (signals_of cs)"
proof -
  have w: "ring_wf (ring (fanout small_loop))" by code_simp
  have r: "loop_run hist_bcast small_loop [quiet_turn\<lparr>t_control := [Signal 15]\<rparr>, quiet_turn\<lparr>t_sigint := True\<rparr>]
      = Some (small_loop\<lparr>delivered := [(4711, 15)], phase := Stopped DaemonSignaled\<rparr>)"
    by code_simp
  from signals_only_on_command [OF w r] show ?thesis
    by (simp del: queued.simps add: small_loop_def loop_start_def)
qed

lemma exit_noticed:
  assumes "phase d = Looping" and "length ts = Suc (length (control_rx d))"
    and "\<forall>t \<in> set ts. t_control t = [] \<and> t_exit t = Some code
      \<and> fst (poll_read READ_BUFFER (t_read t)) \<in> {Ready None, Ready (Some [])}"
  shows "\<exists>d'. loop_run B d ts = Some d' \<and> phase d' = Stopped (ChildExited code)
    \<and> typed d' = typed d \<and> clock d' = clock d"
proof -
  obtain us t where ts: "ts = us @ [t]" "length us = length (control_rx d)"
    using assms(2) by (cases ts rule: rev_cases) auto
  obtain d1 where d1: "loop_run B d us = Some d1" "phase d1 = Looping" "control_rx d1 = []"
    "typed d1 = typed d" "clock d1 = clock d"
    using commands_first [OF assms(1), of us B] ts assms(3) by (auto simp: concat_eq_Nil_conv)
  have "loop_turn B d1 t = Some (await_child t (arrive B d1 t))"
    using assms(3) ts(1) d1 by (intro closed_turn) simp_all
  moreover have "phase (await_child t (arrive B d1 t)) = Stopped (ChildExited code)"
    using assms(3) ts(1) by (simp add: await_child_def)
  moreover have "loop_run B d (us @ [t]) = loop_run B d1 [t]"
    using d1(1) by (induction us arbitrary: d) (auto split: option.splits)
  ultimately show ?thesis using d1(4,5) ts(1) by simp
qed

text \<open>
  Property C22. A child's exit is noticed despite a backlog: once the pty reports its end and the
  child has exited, the loop stops with the child's exit code after the commands already queued
  and one turn more, with any amount of input waiting and more of it arriving all the time; none
  of that input is written and no time is spent on it.
\<close>

theorem exit_noticed_despite_backlog:
  assumes "phase d = Looping" and "length ts = Suc (length (control_rx d))"
    and "\<forall>t \<in> set ts. t_control t = [] \<and> t_exit t = Some code
      \<and> fst (poll_read READ_BUFFER (t_read t)) \<in> {Ready None, Ready (Some [])}"
  shows "\<exists>d'. loop_run B d ts = Some d' \<and> phase d' = Stopped (ChildExited code)
    \<and> typed d' = typed d \<and> clock d' = clock d"
  using assms by (rule exit_noticed)

theorem exit_noticed_despite_backlog_witness:
  "\<exists>d'. loop_run hist_bcast (small_loop\<lparr>push_rx := [[65], [66]]\<rparr>)
      [quiet_turn\<lparr>t_read := [WouldBlock, IoError], t_exit := Some (Some 3), t_push := [[67]]\<rparr>] = Some d'
    \<and> phase d' = Stopped (ChildExited (Some 3))
    \<and> typed d' = typed (small_loop\<lparr>push_rx := [[65], [66]]\<rparr>)
    \<and> clock d' = clock (small_loop\<lparr>push_rx := [[65], [66]]\<rparr>)"
  by (rule exit_noticed_despite_backlog) (simp_all add: small_loop_def loop_start_def quiet_turn_def)

text \<open>
  A child that closes its terminal and lives on blocks the daemon: after the pty has
  reported its end the loop only waits for the child's exit. Until then queued kills are not
  delivered, connections are not accepted and a termination signal does not stop the daemon.
\<close>

theorem closed_pty_blocks_loop:
  assumes "phase d = Looping" and "control_rx d = []" and "t_control t = []"
    and "fst (poll_read READ_BUFFER (t_read t)) \<in> {Ready None, Ready (Some [])}"
    and "\<forall>u \<in> set (t # ts). t_exit u = None"
  shows "\<exists>d'. loop_run B d (t # ts) = Some d' \<and> phase d' = AwaitingChild
    \<and> delivered d' = delivered d \<and> clients d' = clients d
    \<and> control_rx d' = concat (map t_control ts)"
proof -
  let ?d = "await_child t (arrive B d t)"
  have "phase ?d = AwaitingChild" using assms(5) by (simp add: await_child_def)
  from awaiting_loop [OF this, of ts B] closed_turn [OF assms(1-4), of B] assms(2,3,5)
  show ?thesis by auto
qed

theorem closed_pty_blocks_loop_witness:
  "\<exists>d'. loop_run hist_bcast small_loop
        (quiet_turn\<lparr>t_read := [IoError]\<rparr> # [quiet_turn\<lparr>t_control := [Signal 9], t_sigterm := True, t_accept := Some True\<rparr>])
      = Some d'
    \<and> phase d' = AwaitingChild \<and> delivered d' = delivered small_loop \<and> clients d' = clients small_loop
    \<and> control_rx d' = concat (map t_control [quiet_turn\<lparr>t_control := [Signal 9], t_sigterm := True, t_accept := Some True\<rparr>])"
  by (rule closed_pty_blocks_loop) (simp_all add: small_loop_def loop_start_def quiet_turn_def)

lemma starved:
  assumes "ring_wf (ring (fanout d))" and "phase d = Looping" and "control_rx d = []"
    and "\<forall>t \<in> set ts. t_control t = []
      \<and> (\<exists>chunk. fst (poll_read READ_BUFFER (t_read t)) = Ready (Some chunk) \<and> chunk \<noteq> [])"
  shows "\<exists>d'. loop_run B d ts = Some d' \<and> phase d' = Looping \<and> clients d' = clients d
    \<and> typed d' = typed d \<and> push_rx d' = push_rx d @ concat (map t_push ts)"
  using assms
proof (induction ts arbitrary: d)
  case (Cons t ts)
  then obtain chunk where c: "t_control t = []"
    "fst (poll_read READ_BUFFER (t_read t)) = Ready (Some chunk)" "chunk \<noteq> []" by auto
  from Cons.prems(1-3) c show ?case
  proof (rule starve_turn [where B = B])
    fix d1
    assume d1: "loop_turn B d t = Some d1" "ring_wf (ring (fanout d1))" "phase d1 = Looping"
      "control_rx d1 = []" "push_rx d1 = push_rx d @ t_push t" "clients d1 = clients d"
      "typed d1 = typed d"
    from Cons.IH [OF d1(2-4)] Cons.prems(4) d1 show ?thesis by auto
  qed
qed simp

text \<open>
  Property C38. Unbroken output shuts everything but commands out: as long as each turn finds
  output to read, no connection is accepted, no input is written, and signals to the daemon are
  not acted on, for any number of turns. A client that wants to kill the session has to be
  connected before that.
\<close>

theorem output_shuts_out:
  assumes "ring_wf (ring (fanout d))" and "phase d = Looping" and "control_rx d = []"
    and "\<forall>t \<in> set ts. t_control t = []
      \<and> (\<exists>chunk. fst (poll_read READ_BUFFER (t_read t)) = Ready (Some chunk) \<and> chunk \<noteq> [])"
  shows "\<exists>d'. loop_run B d ts = Some d' \<and> phase d' = Looping \<and> clients d' = clients d
    \<and> typed d' = typed d \<and> push_rx d' = push_rx d @ concat (map t_push ts)"
  using assms by (rule starved)

theorem output_shuts_out_witness:
  "\<exists>d'. loop_run hist_bcast small_loop
      (replicate 3 (quiet_turn\<lparr>t_read := [IoOk [121, 10]], t_sigterm := True, t_accept := Some True\<rparr>)) = Some d'
    \<and> phase d' = Looping \<and> clients d' = clients small_loop \<and> typed d' = typed small_loop
    \<and> push_rx d' = push_rx small_loop @
        concat (map t_push (replicate 3 (quiet_turn\<lparr>t_read := [IoOk [121, 10]], t_sigterm := True, t_accept := Some True\<rparr>)))"
proof (rule output_shuts_out)
  show "ring_wf (ring (fanout small_loop))" by code_simp
qed (simp_all add: small_loop_def loop_start_def quiet_turn_def READ_BUFFER_def)

lemma bind_fails_late:
  assumes "daemon_start B M cwd config = (Failed (BindFailed e), es)"
  shows "PtyCalls (spawn_calls (cfg_program config) (cfg_args config) (initial_rows config)
      (initial_cols config) SESSION_ENVVAR (extend_ancestry (inherited M) (socket_path config))) \<in> set es
    \<and> (\<forall>path. log_path config = Some path \<longrightarrow>
        (\<exists>l. spawn_log_writer M path (log_max_size config) = Ok l \<and> OpenedLog path l \<in> set es))"
proof (rule daemon_start_past_log [OF assms])
  fix es0 p calls log es1
  assume c: "spawn_child M config = (Inr p, calls)" and l: "open_session_log M config = Ok (log, es1)"
    and es: "\<And>e'. Failed (BindFailed e) = Failed (BindFailed e') \<Longrightarrow> es = es0 @ [PtyCalls calls] @ es1"
  have "calls = spawn_calls (cfg_program config) (cfg_args config) (initial_rows config)
      (initial_cols config) SESSION_ENVVAR (extend_ancestry (inherited M) (socket_path config))"
    using pty_spawn_props [OF c [unfolded spawn_child_def]] by simp
  moreover have "\<exists>l. spawn_log_writer M path (log_max_size config) = Ok l \<and> OpenedLog path l \<in> set es1"
    if "log_path config = Some path" for path
    using l that by (auto simp: open_session_log_def split: outcome.splits)
  ultimately show ?thesis using es by auto
qed simp

text \<open>
  The socket is bound last: a daemon that cannot bind its socket (because a session
  of that name is running) has by then started its program in a complete terminal, and has opened
  that session's log, trimming it if it is over its own cap.
\<close>

theorem bind_error_comes_late:
  assumes "daemon_start B M cwd config = (Failed (BindFailed e), es)"
  shows "PtyCalls (spawn_calls (cfg_program config) (cfg_args config) (initial_rows config)
      (initial_cols config) SESSION_ENVVAR (extend_ancestry (inherited M) (socket_path config))) \<in> set es
    \<and> (\<forall>path. log_path config = Some path \<longrightarrow>
        (\<exists>l. spawn_log_writer M path (log_max_size config) = Ok l \<and> OpenedLog path l \<in> set es))"
  using assms by (rule bind_fails_late)

definition taken_socket :: "(string, unit) machine" where
  "taken_socket = \<lparr>mkdir_ok = (\<lambda>_. True), inherited = None, pty_calls = good_os,
     log_opened = (\<lambda>_. Some [1, 2, 3]), log_rotation = fine_io, log_metadata_ok = True,
     bind_call = (\<lambda>_ _. Inl ''EADDRINUSE''), bind_dirs = any_dir, sigterm_ok = True, sigint_ok = True\<rparr>"

theorem bind_error_comes_late_witness:
  "\<exists>es. daemon_start hist_bcast taken_socket ''/'' (small_config\<lparr>log_max_size := 2\<rparr>) =
        ((Failed (BindFailed (CallError ''EADDRINUSE'')), es)
          :: (string, (int, hist_chan) loop \<times> SessionLog option) started \<times> start_effect list)
    \<and> PtyCalls (spawn_calls ''sh'' [] 24 80 SESSION_ENVVAR ''/s/a'') \<in> set es
    \<and> OpenedLog ''/s/a.log'' \<lparr>log_file = \<lparr>content = [2, 3], pos = 2\<rparr>, max_size = 2, current_size = 2\<rparr> \<in> set es"
proof -
  let ?r = "daemon_start hist_bcast taken_socket ''/'' (small_config\<lparr>log_max_size := 2\<rparr>)
    :: (string, (int, hist_chan) loop \<times> SessionLog option) started \<times> start_effect list"
  have f: "fst ?r = Failed (BindFailed (CallError ''EADDRINUSE''))" by code_simp
  have l: "spawn_log_writer taken_socket ''/s/a.log'' 2 =
      Ok \<lparr>log_file = \<lparr>content = [2, 3], pos = 2\<rparr>, max_size = 2, current_size = 2\<rparr>" by code_simp
  from f have "?r = (Failed (BindFailed (CallError ''EADDRINUSE'')), snd ?r)" by (metis prod.collapse)
  from bind_error_comes_late [OF this] this l show ?thesis
    by (intro exI [of _ "snd ?r"])
      (auto simp: small_config_def taken_socket_def extend_ancestry_def nonempty_def)
qed

text \<open>
  Property C21. Input gets through: from any looping state with no command waiting, if in each turn nothing is
  ready before the input and the program takes the chunk in time, then after as many turns as there
  are chunks every queued byte has been written, in order, nothing is left in the queue, and the
  loop has spent at most \<open>PTY_WRITE_TIMEOUT\<close> on each chunk.
\<close>

theorem input_gets_through:
  assumes "list_all2 takes_chunk ts (push_rx d)" and "phase d = Looping" and "control_rx d = []"
  shows "\<exists>d'. loop_run B d ts = Some d' \<and> phase d' = Looping \<and> push_rx d' = []
    \<and> typed d' = typed d @ concat (push_rx d) \<and> clock d' \<le> clock d + PTY_WRITE_TIMEOUT * length (push_rx d)"
  using assms by (rule pushes_written)

text \<open>The first chunk is taken in two writes with a wait between them.\<close>

theorem input_gets_through_witness:
  "\<exists>d'. loop_run hist_bcast (small_loop\<lparr>push_rx := [[65, 66], [67]]\<rparr>)
      [quiet_turn\<lparr>t_write := [IoOk 1, NotReady, IoOk 1], t_waits := [20]\<rparr>, quiet_turn\<lparr>t_write := [IoOk 1]\<rparr>] = Some d'
    \<and> phase d' = Looping \<and> push_rx d' = []
    \<and> typed d' = typed (small_loop\<lparr>push_rx := [[65, 66], [67]]\<rparr>) @ concat (push_rx (small_loop\<lparr>push_rx := [[65, 66], [67]]\<rparr>))
    \<and> clock d' \<le> clock (small_loop\<lparr>push_rx := [[65, 66], [67]]\<rparr>)
        + PTY_WRITE_TIMEOUT * length (push_rx (small_loop\<lparr>push_rx := [[65, 66], [67]]\<rparr>))"
proof (rule input_gets_through)
  have "takes_chunk (quiet_turn\<lparr>t_write := [IoOk 1, NotReady, IoOk 1], t_waits := [20]\<rparr>) [65, 66]"
    "takes_chunk (quiet_turn\<lparr>t_write := [IoOk 1]\<rparr>) [67]" by code_simp+
  then show "list_all2 takes_chunk
      [quiet_turn\<lparr>t_write := [IoOk 1, NotReady, IoOk 1], t_waits := [20]\<rparr>, quiet_turn\<lparr>t_write := [IoOk 1]\<rparr>]
      (push_rx (small_loop\<lparr>push_rx := [[65, 66], [67]]\<rparr>))" by simp
qed (simp_all add: small_loop_def loop_start_def)

end
