(* ===== verification/System.thy ===== *)
theory System
  imports Daemon
begin

text \<open>
  The daemon as a whole: its loop (\<open>run\<close>) and the tasks of its clients (\<open>handle_client\<close>) of
  crates/daemon/src/daemon.rs, run in any interleaving. They share the fanout and the two channels;
  a step is one turn of the loop, or one event of one client. The histories (what the pty gave,
  what each client was sent since it attached, asked to push and ordered, what was queued) are kept beside
  the state; no step depends on them.
\<close>

section \<open>States and steps\<close>

record ('sig, 'ch, 'rx) conn =
  c_task :: "('ch, 'rx) task"
  c_got :: bytes
  c_asked :: "bytes list"
  c_orders :: "'sig ControlCommand list"

record ('sig, 'ch, 'rx) system =
  main_loop :: "('sig, 'ch) loop"
  conns :: "('sig, 'ch, 'rx) conn list"
  outs :: "bytes list"
  queue_log :: "(nat \<times> bytes) list"
  command_log :: "(nat \<times> 'sig ControlCommand) list"

text \<open>Events of a client; pushes into the fanout are the loop's own.\<close>

fun of_client :: "event \<Rightarrow> bool" where
  "of_client (DaemonPush _) = False"
| "of_client _ = True"

text \<open>
  The fanout a task works on is the one of the loop (an \<open>Arc\<close>); a turn takes what is queued from
  the channels themselves; each accepted connection gets a task.
\<close>

definition new_conn :: "'ch Fanout \<Rightarrow> ('sig, 'ch, 'rx) conn" where
  "new_conn f = \<lparr>c_task = task_start f, c_got = [], c_asked = [], c_orders = []\<rparr>"

definition after_turn ::
    "('sig, 'ch, 'rx) system \<Rightarrow> 'sig turn \<Rightarrow> ('sig, 'ch) loop \<Rightarrow> ('sig, 'ch, 'rx) system" where
  "after_turn s t d = s\<lparr>main_loop := d, outs := outs s @ read_in (main_loop s) t,
     conns := conns s @ replicate (clients d - clients (main_loop s)) (new_conn (fanout d))\<rparr>"

definition after_event ::
    "'sig sigs \<Rightarrow> ('sig, 'ch, 'rx) system \<Rightarrow> nat \<Rightarrow> event \<Rightarrow> ('ch, 'rx) task \<Rightarrow> 'sig effect list
      \<Rightarrow> ('sig, 'ch, 'rx) system" where
  "after_event S s i e k efs =
     (let c = conns s ! i; d = main_loop s
      in s\<lparr>main_loop := d\<lparr>fanout := shared k, push_rx := push_rx d @ pushed efs,
             control_rx := control_rx d @ controls efs\<rparr>,
           conns := (conns s)[i := \<lparr>c_task = k, c_got = (if attaches e then [] else c_got c) @ written efs,
             c_asked = c_asked c @ concat (map push_of (messages [e])),
             c_orders = c_orders c @ concat (map (control_of S) (messages [e]))\<rparr>],
           queue_log := queue_log s @ map (Pair i) (pushed efs),
           command_log := command_log s @ map (Pair i) (controls efs)\<rparr>)"

text \<open>
  The channels of \<open>run\<close> hold so much; a client whose send finds its channel full waits in that send,
  so its event happens once there is room.
\<close>

definition PUSH_CAPACITY :: nat where "PUSH_CAPACITY = 256"
definition CONTROL_CAPACITY :: nat where "CONTROL_CAPACITY = 16"

definition room :: "('sig, 'ch) loop \<Rightarrow> 'sig effect list \<Rightarrow> bool" where
  "room d efs \<longleftrightarrow> length (push_rx d) + length (pushed efs) \<le> PUSH_CAPACITY
     \<and> length (control_rx d) + length (controls efs) \<le> CONTROL_CAPACITY"

inductive sys_step ::
    "('ch, 'rx) bcast \<Rightarrow> 'sig sigs \<Rightarrow> ('sig, 'ch, 'rx) system \<Rightarrow> ('sig, 'ch, 'rx) system \<Rightarrow> bool"
  for B :: "('ch, 'rx) bcast" and S :: "'sig sigs" where
  Turn: "t_push t = [] \<Longrightarrow> t_control t = [] \<Longrightarrow> t_attach t = 0 \<Longrightarrow> loop_turn B (main_loop s) t = Some d \<Longrightarrow>
    sys_step B S s (after_turn s t d)"
| Event: "i < length (conns s) \<Longrightarrow> of_client e \<Longrightarrow>
    task_step B S ((c_task (conns s ! i))\<lparr>shared := fanout (main_loop s)\<rparr>) e = Some (k, efs) \<Longrightarrow>
    room (main_loop s) efs \<Longrightarrow> sys_step B S s (after_event S s i e k efs)"

text \<open>From a daemon that has started (\<open>sc\<close>: the size of its scrollback).\<close>

inductive reachable ::
    "('ch, 'rx) bcast \<Rightarrow> 'sig sigs \<Rightarrow> nat \<Rightarrow> ('sig, 'ch, 'rx) system \<Rightarrow> bool"
  for B :: "('ch, 'rx) bcast" and S :: "'sig sigs" and sc :: nat where
  start: "fan_new B sc bc = Some f \<Longrightarrow>
    reachable B S sc \<lparr>main_loop = loop_start f p log, conns = [], outs = [], queue_log = [],
      command_log = []\<rparr>"
| step: "reachable B S sc s \<Longrightarrow> sys_step B S s s' \<Longrightarrow> reachable B S sc s'"

text \<open>
  The same steps as a function of what happens: a turn of the loop, or an event of client \<open>i\<close>. It
  computes, so a run of the daemon can be given as a list of actions.
\<close>

datatype 'sig action = LoopTurn "'sig turn" | ClientEvent nat event

fun do_step ::
    "('ch, 'rx) bcast \<Rightarrow> 'sig sigs \<Rightarrow> ('sig, 'ch, 'rx) system \<Rightarrow> 'sig action \<Rightarrow> ('sig, 'ch, 'rx) system option" where
  "do_step B S s (LoopTurn t) =
     (if t_push t = [] \<and> t_control t = [] \<and> t_attach t = 0
      then map_option (after_turn s t) (loop_turn B (main_loop s) t) else None)"
| "do_step B S s (ClientEvent i e) =
     (if i < length (conns s) \<and> of_client e
      then (case task_step B S ((c_task (conns s ! i))\<lparr>shared := fanout (main_loop s)\<rparr>) e of
              None \<Rightarrow> None
            | Some (k, efs) \<Rightarrow>
                if room (main_loop s) efs then Some (after_event S s i e k efs) else None)
      else None)"

definition sys_run ::
    "('ch, 'rx) bcast \<Rightarrow> 'sig sigs \<Rightarrow> ('sig, 'ch, 'rx) system \<Rightarrow> 'sig action list \<Rightarrow> ('sig, 'ch, 'rx) system option" where
  "sys_run B S s as = fold_opt (do_step B S) s as"

lemma sys_run_simps [simp]:
  "sys_run B S s [] = Some s"
  "sys_run B S s (a # as) = (case do_step B S s a of None \<Rightarrow> None | Some s' \<Rightarrow> sys_run B S s' as)"
  by (simp_all add: sys_run_def split: option.split)

lemma do_step_sound: "do_step B S s a = Some s' \<Longrightarrow> sys_step B S s s'"
  by (cases a) (auto intro: sys_step.intros split: if_splits option.splits)

lemma sys_step_iff: "sys_step B S s s' \<longleftrightarrow> (\<exists>a. do_step B S s a = Some s')"
proof
  assume "sys_step B S s s'"
  then show "\<exists>a. do_step B S s a = Some s'"
  proof (cases rule: sys_step.cases)
    case (Turn t d)
    then have "do_step B S s (LoopTurn t) = Some s'" by simp
    then show ?thesis ..
  next
    case (Event i e k efs)
    then have "do_step B S s (ClientEvent i e) = Some s'" by simp
    then show ?thesis ..
  qed
qed (blast intro: do_step_sound)

lemma sys_run_steps: "sys_run B S s as = Some s' \<Longrightarrow> (sys_step B S)\<^sup>*\<^sup>* s s'"
  by (induction as arbitrary: s) (auto intro: converse_rtranclp_into_rtranclp do_step_sound split: option.splits)

lemma run_reachable: "sys_run B S s as = Some s' \<Longrightarrow> reachable B S sc s \<Longrightarrow> reachable B S sc s'"
  by (induction as arbitrary: s) (auto dest: reachable.step [OF _ do_step_sound] split: option.splits)

section \<open>Steps in detail\<close>

lemma after_turn_simps [simp]:
  "main_loop (after_turn s t d) = d" "outs (after_turn s t d) = outs s @ read_in (main_loop s) t"
  "queue_log (after_turn s t d) = queue_log s" "command_log (after_turn s t d) = command_log s"
  "conns (after_turn s t d) = conns s @ replicate (clients d - clients (main_loop s)) (new_conn (fanout d))"
  by (simp_all add: after_turn_def)

lemma after_event_simps [simp]:
  "fanout (main_loop (after_event S s i e k efs)) = shared k"
  "push_rx (main_loop (after_event S s i e k efs)) = push_rx (main_loop s) @ pushed efs"
  "control_rx (main_loop (after_event S s i e k efs)) = control_rx (main_loop s) @ controls efs"
  "delivered (main_loop (after_event S s i e k efs)) = delivered (main_loop s)"
  "pty (main_loop (after_event S s i e k efs)) = pty (main_loop s)"
  "typed (main_loop (after_event S s i e k efs)) = typed (main_loop s)"
  "logged (main_loop (after_event S s i e k efs)) = logged (main_loop s)"
  "outs (after_event S s i e k efs) = outs s"
  "queue_log (after_event S s i e k efs) = queue_log s @ map (Pair i) (pushed efs)"
  "command_log (after_event S s i e k efs) = command_log s @ map (Pair i) (controls efs)"
  "conns (after_event S s i e k efs) = (conns s)[i := \<lparr>c_task = k,
     c_got = (if attaches e then [] else c_got (conns s ! i)) @ written efs,
     c_asked = c_asked (conns s ! i) @ concat (map push_of (messages [e])),
     c_orders = c_orders (conns s ! i) @ concat (map (control_of S) (messages [e]))\<rparr>]"
  by (simp_all add: after_event_def Let_def)

text \<open>An event of a client never panics; it leaves the ring alone.\<close>

lemma client_step_total:
  assumes "fan_wf (shared k)" and "of_client e"
  obtains k' efs where "task_step B S k e = Some (k', efs)" "ring (shared k') = ring (shared k)"
proof -
  have "\<exists>k' efs. task_step B S k e = Some (k', efs) \<and> ring (shared k') = ring (shared k)"
  proof (cases e)
    case (FromClient r ok)
    show ?thesis
    proof (cases "running k \<and> (\<exists>m. r = Inr m)")
      case True
      then obtain m where m: "r = Inr m" by blast
      obtain q ch where q: "bc_subscribe B (tx (shared k)) = (q, ch)" by fastforce
      note a = fan_attach_ok [OF assms(1) q]
      show ?thesis using True m FromClient a
        by (cases m) (auto simp: on_message_def stop_def Let_def)
    next
      case False
      then show ?thesis using FromClient by (cases r) (auto simp: stop_def)
    qed
  next
    case (PollOutput ok)
    then show ?thesis
      by (auto simp: on_output_def stop_def Let_def split: prod.split recv_result.split)
  qed (use assms in \<open>auto simp: stop_def\<close>)
  then show ?thesis using that by blast
qed

lemma sys_step_ring:
  assumes "sys_step B S s s'" and "ring_wf (ring (fanout (main_loop s)))"
    and "capacity (ring (fanout (main_loop s))) = sc"
    and "contents (ring (fanout (main_loop s))) = lastn sc (concat (outs s))"
    and "logged (main_loop s) \<noteq> None \<longrightarrow> logged (main_loop s) = Some (outs s)"
  shows "ring_wf (ring (fanout (main_loop s'))) \<and> capacity (ring (fanout (main_loop s'))) = sc
    \<and> contents (ring (fanout (main_loop s'))) = lastn sc (concat (outs s'))
    \<and> (logged (main_loop s') \<noteq> None \<longrightarrow> logged (main_loop s') = Some (outs s'))"
  using assms(1)
proof (cases rule: sys_step.cases)
  case (Turn t d)
  from assms(2) show ?thesis
  proof (cases rule: turn_total [where t = t and B = B])
    case (Next d')
    then have "d' = d" using Turn by simp
    with Next assms(3-5) Turn(1) show ?thesis by (auto simp: lastn_lastn_append)
  qed
next
  case (Event i e k efs)
  have "fan_wf (shared ((c_task (conns s ! i))\<lparr>shared := fanout (main_loop s)\<rparr>))"
    using assms(2) by (simp add: fan_wf_def)
  from client_step_total [OF this Event(3), of B S] Event(4)
  have "ring (shared k) = ring (fanout (main_loop s))" by auto
  then show ?thesis using assms(2-5) Event(1) by simp
qed

lemma reachable_ring:
  assumes "reachable B S sc s"
  shows "ring_wf (ring (fanout (main_loop s))) \<and> capacity (ring (fanout (main_loop s))) = sc
    \<and> contents (ring (fanout (main_loop s))) = lastn sc (concat (outs s))
    \<and> (logged (main_loop s) \<noteq> None \<longrightarrow> logged (main_loop s) = Some (outs s))"
  using assms
proof induction
  case (start bc f p log)
  then show ?case using fan_new_wf [OF start] by (simp add: loop_start_def fan_wf_def)
next
  case (step s s')
  then show ?case using sys_step_ring [OF step(2)] by blast
qed

section \<open>Output\<close>

lemma turn_tx:
  assumes "ring_wf (ring (fanout d))" and "t_attach t = 0" and "loop_turn B d t = Some d'"
  shows "read_in d t = [] \<and> tx (fanout d') = tx (fanout d) \<and> clients d' \<in> {clients d, Suc (clients d)}
    \<or> (\<exists>chunk. read_in d t = [chunk] \<and> tx (fanout d') = bc_send B (tx (fanout d)) chunk \<and> clients d' = clients d)"
proof -
  have same: "fanout (arrive B d t) = fanout d" using assms(2) by (simp add: arrive_def)
  from assms(1) show ?thesis
  proof (cases rule: turn_cases [where t = t and B = B])
    case (Read chunk)
    have "read_in d t = [chunk]" using Read(1-5) by (simp add: read_in_def)
    moreover have "on_read B chunk (arrive B d t) = Some d'" using Read(6) assms(3) by simp
    ultimately show ?thesis by (auto simp: on_read_def fan_push_def same split: option.splits)
  next
    case Left
    then show ?thesis using assms(3) by (simp add: read_in_def)
  next
    case Await
    then show ?thesis using assms(3) same by (auto simp: read_in_def)
  next
    case Command
    then show ?thesis using assms(3) same by (auto simp: read_in_def)
  next
    case Close
    then show ?thesis using assms(3) same by (auto simp: read_in_def)
  next
    case Accept
    then show ?thesis using assms(3) same by (auto simp: read_in_def)
  next
    case Push
    then show ?thesis using assms(3) same by (auto simp: read_in_def on_push_def split: prod.splits)
  next
    case Signal
    then show ?thesis using assms(3) same by (auto simp: read_in_def)
  next
    case Idle
    then show ?thesis using assms(3) same by (auto simp: read_in_def)
  qed
qed

text \<open>An event leaves the channel alone, or subscribes to it.\<close>

lemma step_channel:
  assumes "task_step B S k e = Some (k', efs)" and "of_client e"
  shows "tx (shared k') = tx (shared k) \<or> (\<exists>q. bc_subscribe B (tx (shared k)) = (q, tx (shared k')))"
proof (cases e)
  case (FromClient r ok)
  then show ?thesis using assms(1)
    by (cases r) (auto simp: on_message_def fan_attach_def stop_def Let_def
        split: Message.splits if_splits option.splits prod.splits)
next
  case (PollOutput ok)
  then show ?thesis using assms(1)
    by (auto simp: on_output_def stop_def Let_def split: prod.splits recv_result.splits if_splits)
qed (use assms in \<open>auto simp: stop_def split: if_splits\<close>)

text \<open>The output a client is not shown when it attaches (\<open>sc\<close>: the size of the scrollback).\<close>

definition entry :: "nat \<Rightarrow> bool \<Rightarrow> bytes \<Rightarrow> bytes" where
  "entry sc skip bs = (if skip then bs else take (length bs - sc) bs)"

context broadcast
begin

text \<open>
  What holds of each client: while it runs attached, what it was sent and what waits for it are
  together an end of the session's output; \<open>P\<close> speaks of the output before that end, which the
  client was let in after.
\<close>

definition let_in :: "(bytes \<Rightarrow> bool) \<Rightarrow> 'ch Fanout \<Rightarrow> bytes list \<Rightarrow> ('sig, 'ch, 'rx) conn \<Rightarrow> bool" where
  "let_in P f os c \<longleftrightarrow>
     (\<forall>rx. running (c_task c) \<and> attached (c_task c) = Some rx \<longrightarrow>
        live (tx f) rx \<and> (\<exists>before. P before \<and> concat os = before @ c_got c @ concat (backlog (tx f) rx)))"

definition in_sync :: "'ch Fanout \<Rightarrow> bytes list \<Rightarrow> ('sig, 'ch, 'rx) conn \<Rightarrow> bool" where
  "in_sync f os c \<longleftrightarrow>
     (\<forall>rx. running (c_task c) \<and> attached (c_task c) = Some rx \<longrightarrow>
        live (tx f) rx \<and> suffix (c_got c @ concat (backlog (tx f) rx)) (concat os))"

lemma in_sync_let_in: "in_sync f os c = let_in (\<lambda>_. True) f os c"
  by (simp add: in_sync_def let_in_def suffix_def)

lemma let_in_mono: "let_in P f os c \<Longrightarrow> (\<And>before. P before \<Longrightarrow> Q before) \<Longrightarrow> let_in Q f os c"
  unfolding let_in_def by blast

lemma in_sync_new: "in_sync f os (new_conn g)"
  by (simp add: in_sync_def new_conn_def task_start_def)

lemma let_in_turn:
  assumes "let_in P f os c" and "tx f' = tx f \<and> ds = [] \<or> (\<exists>d. tx f' = bc_send B (tx f) d \<and> ds = [d])"
  shows "let_in P f' (os @ ds) c"
  using assms(2)
proof
  assume "\<exists>d. tx f' = bc_send B (tx f) d \<and> ds = [d]"
  then show ?thesis using assms(1) by (fastforce simp: let_in_def send)
qed (use assms(1) in \<open>simp add: let_in_def\<close>)

lemmas in_sync_turn = let_in_turn [where P = "\<lambda>_. True", folded in_sync_let_in]

text \<open>One client's event: the others are left as they are.\<close>

lemma let_in_other:
  assumes "task_step B S k e = Some (k', efs)" and "of_client e" and "let_in P (shared k) os c"
  shows "let_in P (shared k') os c"
  using step_channel [OF assms(1,2)]
proof
  assume "tx (shared k') = tx (shared k)"
  then show ?thesis using assms(3) by (simp add: let_in_def)
next
  assume "\<exists>q. bc_subscribe B (tx (shared k)) = (q, tx (shared k'))"
  then obtain q where "bc_subscribe B (tx (shared k)) = (q, tx (shared k'))" ..
  from subscribe_other [OF this] show ?thesis using assms(3) by (simp add: let_in_def)
qed

lemmas in_sync_other = let_in_other [where P = "\<lambda>_. True", folded in_sync_let_in]

lemma let_in_attach:
  assumes "on_message B S k (Attach skip) ok = Some (k', efs)" and "fan_wf (shared k)"
    and "contents (ring (shared k)) = lastn sc (concat os)"
  shows "let_in ((=) (entry sc skip (concat os))) (shared k') os \<lparr>c_task = k', c_got = written efs, c_asked = a, c_orders = b\<rparr>"
proof -
  obtain q ch where q: "bc_subscribe B (tx (shared k)) = (q, ch)" by fastforce
  note a = fan_attach_ok [OF assms(2) q]
  have "concat os = take (length (concat os) - sc) (concat os) @ contents (ring (shared k))"
    unfolding assms(3) by (simp add: lastn_def)
  then show ?thesis using assms(1) subscribe [OF q] a
    by (auto simp: on_message_def let_in_def entry_def stop_def Let_def split: if_splits)
qed

lemma let_in_message:
  assumes "on_message B S k m ok = Some (k', efs)" and "\<And>skip. m \<noteq> Attach skip"
    and "let_in P (shared k) os \<lparr>c_task = k, c_got = g, c_asked = a, c_orders = b\<rparr>"
  shows "let_in P (shared k') os \<lparr>c_task = k', c_got = g @ written efs, c_asked = a', c_orders = b'\<rparr>"
proof (cases "m = Detach")
  case True
  then show ?thesis using assms(1) by (auto simp: on_message_def let_in_def)
next
  case False
  with assms(2) have "typing (FromClient (Inr m) ok)" by (cases m) auto
  from on_message_typing [OF this, of B S k] assms(1) have "written efs = []" "k' = k \<or> k' = stop k"
    by auto
  then show ?thesis using assms(3) by (auto simp: let_in_def stop_def)
qed

lemma let_in_poll:
  assumes "on_output B k ok = (k', efs)"
    and "let_in P (shared k) os \<lparr>c_task = k, c_got = g, c_asked = a, c_orders = b\<rparr>" and "running k"
  shows "let_in P (shared k') os \<lparr>c_task = k', c_got = g @ written efs, c_asked = a', c_orders = b'\<rparr>"
proof (cases "attached k")
  case None
  then show ?thesis using assms by (auto simp: on_output_def recv_next_def let_in_def)
next
  case (Some rx)
  let ?ch = "tx (shared k)" and ?b = "backlog (tx (shared k)) rx"
  have l: "live ?ch rx" "\<exists>before. P before \<and> concat os = before @ g @ concat ?b"
    using assms(2,3) Some by (simp_all add: let_in_def)
  consider "?b = []" | m ms where "?b = m # ms" "length ?b \<le> bcap ?ch" | "bcap ?ch < length ?b"
    by (metis list.exhaust not_less)
  then show ?thesis
  proof cases
    case 1
    then show ?thesis using assms Some recv_empty [OF l(1)]
      by (auto simp: on_output_def recv_next_def let_in_def)
  next
    case 2
    obtain q where q: "bc_recv B ?ch rx = (Got m, q)" "live ?ch q" "backlog ?ch q = ms"
      using recv_got [OF l(1) 2] by blast
    then show ?thesis using assms(1) Some l 2(1)
      by (auto simp: on_output_def recv_next_def let_in_def stop_def Let_def split: if_splits)
  next
    case 3
    obtain q where "bc_recv B ?ch rx = (Lagged (length ?b - bcap ?ch), q)"
      using recv_lag [OF l(1) 3] by blast
    then show ?thesis using assms(1) Some
      by (auto simp: on_output_def recv_next_def let_in_def stop_def)
  qed
qed

text \<open>What an event of its own does to a client: it attaches, or stays where it was let in.\<close>

lemma let_in_self:
  assumes "task_step B S k e = Some (k', efs)" and "of_client e" and "\<not> attaches e"
    and "let_in P (shared k) os \<lparr>c_task = k, c_got = g, c_asked = a, c_orders = b\<rparr>"
  shows "let_in P (shared k') os \<lparr>c_task = k', c_got = g @ written efs, c_asked = a', c_orders = b'\<rparr>"
proof (cases "running k \<and> running k'")
  case False
  then have "\<not> running k'" using stopped_step assms(1) by blast
  then show ?thesis by (simp add: let_in_def)
next
  case True
  show ?thesis
  proof (cases e)
    case (FromClient r ok)
    then obtain m where r: "r = Inr m" using assms(1) True by (cases r) (auto simp: stop_def)
    then have "on_message B S k m ok = Some (k', efs)" using FromClient True assms(1) by simp
    moreover have "m \<noteq> Attach skip" for skip using assms(3) FromClient r by auto
    ultimately show ?thesis using let_in_message assms(4) by blast
  next
    case (PollOutput ok)
    then have "on_output B k ok = (k', efs)" using True assms(1) by simp
    from let_in_poll [OF this assms(4)] True show ?thesis by simp
  qed (use assms True in \<open>auto simp: stop_def\<close>)
qed

lemma attach_lets_in:
  assumes "task_step B S k (FromClient (Inr (Attach skip)) ok) = Some (k', efs)" and "fan_wf (shared k)"
    and "contents (ring (shared k)) = lastn sc (concat os)"
  shows "let_in ((=) (entry sc skip (concat os))) (shared k') os \<lparr>c_task = k', c_got = written efs, c_asked = a, c_orders = b\<rparr>"
proof (cases "running k")
  case True
  then have "on_message B S k (Attach skip) ok = Some (k', efs)" using assms(1) by simp
  then show ?thesis by (rule let_in_attach [OF _ assms(2,3)])
next
  case False
  then have "\<not> running k'" using stopped_step assms(1) by blast
  then show ?thesis by (simp add: let_in_def)
qed

lemma in_sync_self:
  assumes "task_step B S k e = Some (k', efs)" and "of_client e" and "fan_wf (shared k)"
    and "contents (ring (shared k)) = lastn sc (concat os)"
    and "in_sync (shared k) os \<lparr>c_task = k, c_got = g, c_asked = a, c_orders = b\<rparr>"
  shows "in_sync (shared k') os \<lparr>c_task = k', c_got = (if attaches e then [] else g) @ written efs, c_asked = a', c_orders = b'\<rparr>"
proof (cases "attaches e")
  case True
  then obtain skip ok where "e = FromClient (Inr (Attach skip)) ok" by (elim attaches.elims(2))
  with assms(1) have "task_step B S k (FromClient (Inr (Attach skip)) ok) = Some (k', efs)" by simp
  note attach_lets_in [OF this assms(3,4), of a' b', THEN let_in_mono [where Q = "\<lambda>_. True"]]
  with True show ?thesis by (simp add: in_sync_let_in)
next
  case False
  with let_in_self [OF assms(1,2) False] assms(5) show ?thesis by (simp add: in_sync_let_in)
qed

lemma in_sync_step:
  assumes "sys_step B S s s'" and "reachable B S sc s"
    and "\<forall>c \<in> set (conns s). in_sync (fanout (main_loop s)) (outs s) c"
  shows "\<forall>c \<in> set (conns s'). in_sync (fanout (main_loop s')) (outs s') c"
  using assms(1)
proof (cases rule: sys_step.cases)
  case (Turn t d)
  have "ring_wf (ring (fanout (main_loop s)))" using reachable_ring [OF assms(2)] by blast
  from turn_tx [OF this Turn(4,5)]
  have "tx (fanout d) = tx (fanout (main_loop s)) \<and> read_in (main_loop s) t = [] \<or>
      (\<exists>c. tx (fanout d) = bc_send B (tx (fanout (main_loop s))) c \<and> read_in (main_loop s) t = [c])"
    by auto
  then have "in_sync (fanout d) (outs s @ read_in (main_loop s) t) c" if "c \<in> set (conns s)" for c
    using in_sync_turn assms(3) that by blast
  then show ?thesis by (auto simp: Turn(1) in_sync_new)
next
  case (Event i e k efs)
  let ?f = "fanout (main_loop s)" and ?c = "conns s ! i"
  let ?k = "(c_task ?c)\<lparr>shared := ?f\<rparr>"
  have wf: "fan_wf ?f" "contents (ring ?f) = lastn sc (concat (outs s))"
    using reachable_ring [OF assms(2)] by (simp_all add: fan_wf_def)
  have old: "in_sync ?f (outs s) ?c" using assms(3) Event(2) by simp
  have "in_sync (shared ?k) (outs s) \<lparr>c_task = ?k, c_got = c_got ?c, c_asked = c_asked ?c, c_orders = c_orders ?c\<rparr>"
    using old by (simp add: in_sync_def)
  note kept = in_sync_self [OF Event(4,3) _ _ this, of sc
      "c_asked ?c @ concat (map push_of (messages [e]))" "c_orders ?c @ concat (map (control_of S) (messages [e]))"]
  have self: "in_sync (shared k) (outs s) \<lparr>c_task = k,
      c_got = (if attaches e then [] else c_got ?c) @ written efs,
      c_asked = c_asked ?c @ concat (map push_of (messages [e])),
      c_orders = c_orders ?c @ concat (map (control_of S) (messages [e]))\<rparr>"
    by (rule kept) (use wf in simp_all)
  have "in_sync (shared k) (outs s) c" if "c \<in> set (conns s)" for c
    using in_sync_other [OF Event(4,3), of "outs s" c] assms(3) that by simp
  with self show ?thesis
    unfolding Event(1) after_event_simps by (auto dest!: set_update_subset_insert [THEN subsetD])
qed

lemma reachable_in_sync:
  assumes "reachable B S sc s"
  shows "\<forall>c \<in> set (conns s). in_sync (fanout (main_loop s)) (outs s) c"
  using assms
proof induction
  case (step s s')
  then show ?case using in_sync_step by blast
qed simp

end

section \<open>Input and commands\<close>

text \<open>What client \<open>i\<close> queued.\<close>

definition queued_by :: "nat \<Rightarrow> (nat \<times> 'a) list \<Rightarrow> 'a list" where
  "queued_by i q = map snd (filter (\<lambda>p. fst p = i) q)"

lemma queued_by_append [simp]: "queued_by i (q @ r) = queued_by i q @ queued_by i r"
  by (simp add: queued_by_def)

lemma queued_by_Pair [simp]: "queued_by i (map (Pair j) ds) = (if j = i then ds else [])"
  by (induction ds) (auto simp: queued_by_def)

lemma queued_by_none: "\<forall>p \<in> set q. fst p < n \<Longrightarrow> n \<le> i \<Longrightarrow> queued_by i q = []"
  by (auto simp: queued_by_def filter_empty_conv)

text \<open>
  A queue keeps faith with its clients: nothing comes from elsewhere, and what comes from a client
  is a beginning of what it asked for, all of it while it is served.
\<close>

definition kept ::
    "(('sig, 'ch, 'rx) conn \<Rightarrow> 'a list) \<Rightarrow> (nat \<times> 'a) list \<Rightarrow> ('sig, 'ch, 'rx) conn list \<Rightarrow> bool" where
  "kept asked q cs \<longleftrightarrow>
     (\<forall>p \<in> set q. fst p < length cs)
     \<and> (\<forall>i < length cs. prefix (queued_by i q) (asked (cs ! i))
          \<and> (running (c_task (cs ! i)) \<longrightarrow> queued_by i q = asked (cs ! i)))"

lemma kept_more:
  assumes "kept asked q cs" and "asked c = []"
  shows "kept asked q (cs @ replicate n c)"
proof -
  have old: "\<forall>p \<in> set q. fst p < length cs" using assms(1) by (simp add: kept_def)
  have "prefix (queued_by i q) (asked ((cs @ replicate n c) ! i)) \<and>
      (running (c_task ((cs @ replicate n c) ! i)) \<longrightarrow> queued_by i q = asked ((cs @ replicate n c) ! i))"
    if "i < length cs + n" for i
  proof (cases "i < length cs")
    case True
    then show ?thesis using assms(1) by (simp add: kept_def nth_append)
  next
    case False
    then show ?thesis using that assms(2) queued_by_none [OF old, of i] by (simp add: nth_append)
  qed
  with old show ?thesis by (auto simp: kept_def)
qed

lemma kept_event:
  assumes "kept asked q cs" and "i < length cs" and "asked c = asked (cs ! i) @ new"
    and "ds = new \<and> running (c_task (cs ! i)) \<or> ds = [] \<and> \<not> running (c_task c)"
  shows "kept asked (q @ map (Pair i) ds) (cs[i := c])"
proof -
  have "prefix (queued_by i q) (asked (cs ! i))"
    "running (c_task (cs ! i)) \<longrightarrow> queued_by i q = asked (cs ! i)"
    using assms(1,2) by (simp_all add: kept_def)
  then have "prefix (queued_by i q @ ds) (asked c) \<and> (running (c_task c) \<longrightarrow> queued_by i q @ ds = asked c)"
    using assms(3,4) by (auto intro: prefix_prefix)
  then show ?thesis using assms(1,2) unfolding kept_def by (auto simp: nth_list_update)
qed

lemma event_sends:
  assumes "task_step B S k e = Some (k', efs)"
  shows "pushed efs = concat (map push_of (messages [e])) \<and> running k \<or> pushed efs = [] \<and> \<not> running k'"
    and "controls efs = concat (map (control_of S) (messages [e])) \<and> running k \<or> controls efs = [] \<and> \<not> running k'"
proof -
  have "(pushed efs = concat (map push_of (messages [e])) \<and> controls efs = concat (map (control_of S) (messages [e]))
      \<and> running k) \<or> (pushed efs = [] \<and> controls efs = [] \<and> \<not> running k')"
  proof (cases "running k")
    case True
    then show ?thesis using step_commands [OF True assms] by (auto split: if_splits)
  next
    case False
    then show ?thesis using stopped_step [OF False assms] by simp
  qed
  then show "pushed efs = concat (map push_of (messages [e])) \<and> running k \<or> pushed efs = [] \<and> \<not> running k'"
    and "controls efs = concat (map (control_of S) (messages [e])) \<and> running k \<or> controls efs = [] \<and> \<not> running k'"
    by blast+
qed

definition input_inv :: "('sig, 'ch, 'rx) system \<Rightarrow> bool" where
  "input_inv s \<longleftrightarrow> kept c_asked (queue_log s) (conns s) \<and> kept c_orders (command_log s) (conns s)"

lemma input_inv_step:
  assumes "sys_step B S s s'" and "input_inv s"
  shows "input_inv s'"
  using assms(1)
proof (cases rule: sys_step.cases)
  case (Turn t d)
  then show ?thesis using assms(2) by (simp add: input_inv_def kept_more new_conn_def)
next
  case (Event i e k efs)
  note sends = event_sends [OF Event(4)]
  have "kept c_asked (queue_log s') (conns s')" "kept c_orders (command_log s') (conns s')"
    unfolding Event(1) after_event_simps
    by (rule kept_event; use assms(2) Event(2) sends in \<open>simp add: input_inv_def\<close>)+
  then show ?thesis by (simp add: input_inv_def)
qed

lemma queue_step:
  assumes "sys_step B S s s'" and "ring_wf (ring (fanout (main_loop s)))"
    and "map snd (queue_log s) = ps @ push_rx (main_loop s)" "list_all2 prefix qs ps"
      "typed (main_loop s) = concat qs"
  shows "\<exists>ps qs. map snd (queue_log s') = ps @ push_rx (main_loop s') \<and> list_all2 prefix qs ps
    \<and> typed (main_loop s') = concat qs"
  using assms(1)
proof (cases rule: sys_step.cases)
  case (Turn t d)
  have none: "taken_in t_push (main_loop s) t = []"
    using Turn(2) by (simp add: taken_in_def split: phase.split)
  from turn_input [OF assms(2) Turn(5)] none obtain p q where "push_rx (main_loop s) = p @ push_rx d"
    "list_all2 prefix q p" "typed d = typed (main_loop s) @ concat q" by auto
  then show ?thesis using assms(3-5)
    by (intro exI [of _ "ps @ p"] exI [of _ "qs @ q"]) (simp add: Turn(1) list_all2_appendI)
next
  case (Event i e k efs)
  then show ?thesis using assms(3-5)
    by (intro exI [of _ ps] exI [of _ qs]) (simp add: comp_def)
qed

lemma command_step:
  assumes "sys_step B S s s'" and "ring_wf (ring (fanout (main_loop s)))"
    and "map snd (command_log s) = cs @ control_rx (main_loop s)" "subseq sigs (signals_of cs)"
      "delivered (main_loop s) = map (Pair (pgid (pty (main_loop s)))) sigs"
  shows "\<exists>cs sigs. map snd (command_log s') = cs @ control_rx (main_loop s') \<and> subseq sigs (signals_of cs)
    \<and> delivered (main_loop s') = map (Pair (pgid (pty (main_loop s')))) sigs"
  using assms(1)
proof (cases rule: sys_step.cases)
  case (Turn t d)
  have none: "taken_in t_control (main_loop s) t = []"
    using Turn(3) by (simp add: taken_in_def split: phase.split)
  from turn_signals [OF assms(2) Turn(5)] none obtain c g where "control_rx (main_loop s) = c @ control_rx d"
    "delivered d = delivered (main_loop s) @ map (Pair (pgid (pty (main_loop s)))) g"
    "subseq g (signals_of c)" "pgid (pty d) = pgid (pty (main_loop s))" by auto
  then show ?thesis using assms(3-5)
    by (intro exI [of _ "cs @ c"] exI [of _ "sigs @ g"]) (simp add: Turn(1) list_emb_append_mono)
next
  case (Event i e k efs)
  then show ?thesis using assms(3-5)
    by (intro exI [of _ cs] exI [of _ sigs]) (simp add: comp_def)
qed

lemma reachable_input:
  assumes "reachable B S sc s"
  shows "input_inv s \<and> (\<exists>ps qs. map snd (queue_log s) = ps @ push_rx (main_loop s) \<and> list_all2 prefix qs ps
    \<and> typed (main_loop s) = concat qs)
    \<and> (\<exists>cs sigs. map snd (command_log s) = cs @ control_rx (main_loop s) \<and> subseq sigs (signals_of cs)
    \<and> delivered (main_loop s) = map (Pair (pgid (pty (main_loop s)))) sigs)"
  using assms
proof induction
  case (start bc f p log)
  show ?case by (simp add: input_inv_def kept_def loop_start_def)
next
  case (step s s')
  have w: "ring_wf (ring (fanout (main_loop s)))" using reachable_ring [OF step(1)] by blast
  from step.IH show ?case
    using queue_step [OF step(2) w] command_step [OF step(2) w] input_inv_step [OF step(2)] by blast
qed

lemma reachable_bounded:
  assumes "reachable B S sc s"
  shows "length (push_rx (main_loop s)) \<le> PUSH_CAPACITY \<and> length (control_rx (main_loop s)) \<le> CONTROL_CAPACITY"
  using assms
proof induction
  case (start bc f p log)
  then show ?case by (simp add: loop_start_def)
next
  case (step s s')
  from step(2) show ?case
  proof (cases rule: sys_step.cases)
    case (Turn t d)
    have w: "ring_wf (ring (fanout (main_loop s)))" using reachable_ring [OF step(1)] by blast
    from turn_input [OF w Turn(5)] obtain ps where "push_rx (main_loop s) @ taken_in t_push (main_loop s) t = ps @ push_rx d"
      by blast
    then have "length (push_rx d) \<le> length (push_rx (main_loop s))"
      using Turn(2) by (auto simp: taken_in_def dest!: arg_cong [of _ _ length] split: phase.splits)
    moreover from turn_signals [OF w Turn(5)] obtain cs
      where "control_rx (main_loop s) @ taken_in t_control (main_loop s) t = cs @ control_rx d" by blast
    then have "length (control_rx d) \<le> length (control_rx (main_loop s))"
      using Turn(3) by (auto simp: taken_in_def dest!: arg_cong [of _ _ length] split: phase.splits)
    ultimately show ?thesis using step.IH Turn(1) by simp
  next
    case (Event i e k efs)
    then show ?thesis by (simp add: room_def)
  qed
qed

text \<open>A request to kill, from the message to the process group.\<close>

definition signal_for :: "'sig sigs \<Rightarrow> u8 \<Rightarrow> 'sig" where
  "signal_for S n = (case from_raw S (uint n) of Some g \<Rightarrow> g | None \<Rightarrow> term_sig S)"

lemma kill_delivered:
  assumes "reachable B S sc s" and "phase (main_loop s) = Looping"
    and "i < length (conns s)" "running (c_task (conns s ! i))"
    and "length (control_rx (main_loop s)) < CONTROL_CAPACITY"
  shows "\<exists>s'. sys_step B S s s' \<and> command_log s' = command_log s @ [(i, Signal (signal_for S n))]
    \<and> (\<forall>ts. length ts = Suc (length (control_rx (main_loop s))) \<and> (\<forall>t \<in> set ts. t_signal_ok t) \<longrightarrow>
        (\<exists>d. loop_run B (main_loop s') ts = Some d \<and> phase d = Looping
          \<and> (pgid (pty (main_loop s)), signal_for S n) \<in> set (delivered d)
          \<and> clock d = clock (main_loop s)))"
proof -
  let ?k = "(c_task (conns s ! i))\<lparr>shared := fanout (main_loop s)\<rparr>" and ?e = "FromClient (Inr (Kill n)) True"
  let ?efs = "[ControlTx (Signal (signal_for S n))]"
  let ?s' = "after_event S s i ?e ?k ?efs"
  have "task_step B S ?k ?e = Some (?k, ?efs)" using assms(4) by (simp add: on_message_def signal_for_def Let_def)
  moreover have "room (main_loop s) ?efs" using reachable_bounded [OF assms(1)] assms(5) by (simp add: room_def)
  ultimately have step: "sys_step B S s ?s'" using assms(3) by (intro sys_step.Event) simp_all
  have l: "phase (main_loop ?s') = Looping" "clock (main_loop ?s') = clock (main_loop s)"
    using assms(2) by (simp_all add: after_event_def Let_def)
  have "\<exists>d. loop_run B (main_loop ?s') ts = Some d \<and> phase d = Looping
      \<and> (pgid (pty (main_loop s)), signal_for S n) \<in> set (delivered d) \<and> clock d = clock (main_loop s)"
    if ts: "length ts = Suc (length (control_rx (main_loop s)))" "\<forall>t \<in> set ts. t_signal_ok t" for ts
  proof -
    have "length ts \<le> length (control_rx (main_loop ?s'))" using ts(1) by simp
    from commands_first [OF l(1) this, of B] obtain d where d: "loop_run B (main_loop ?s') ts = Some d"
      "phase d = Looping" "clock d = clock (main_loop s)"
      "(pty d, delivered d) = fold (\<lambda>(cmd, t). exec_command t cmd)
        (zip (control_rx (main_loop s) @ [Signal (signal_for S n)]) ts) (pty (main_loop s), delivered (main_loop s))"
      using l(2) by auto
    from exec_last_signal [OF ts d(4) [symmetric]] d(1-3) show ?thesis by auto
  qed
  then show ?thesis using step by (intro exI [of _ ?s']) simp
qed

section \<open>Properties\<close>

text \<open>
  Property C15. The daemon is well formed at every moment, whatever its clients do: in every
  reachable state the ring is well formed and holds exactly the last output, what went to the log
  is all of the output, and nothing that can happen next panics: no turn of the loop with any answers
  of the system, no event of any client.
\<close>

theorem system_never_panics:
  assumes "reachable B S sc s"
  shows "ring_wf (ring (fanout (main_loop s)))
    \<and> contents (ring (fanout (main_loop s))) = lastn sc (concat (outs s))
    \<and> logged (main_loop s) \<in> {None, Some (outs s)}
    \<and> (\<forall>t. loop_turn B (main_loop s) t \<noteq> None)
    \<and> (\<forall>c e. of_client e \<longrightarrow> task_step B S ((c_task c)\<lparr>shared := fanout (main_loop s)\<rparr>) e \<noteq> None)"
proof -
  note r = reachable_ring [OF assms]
  then have w: "ring_wf (ring (fanout (main_loop s)))" by blast
  have "loop_turn B (main_loop s) t \<noteq> None" for t
    using turn_total [OF w, of B t] by (metis option.distinct(1))
  moreover have "task_step B S ((c_task c)\<lparr>shared := fanout (main_loop s)\<rparr>) e \<noteq> None" if e: "of_client e" for c e
  proof -
    have "fan_wf (shared ((c_task c)\<lparr>shared := fanout (main_loop s)\<rparr>))" using w by (simp add: fan_wf_def)
    from client_step_total [OF this e, of B S] show ?thesis by blast
  qed
  ultimately show ?thesis using r by auto
qed

text \<open>
  Every client is in sync: in every reachable state, for each client that is attached
  and still served, what it was sent since it attached, followed by what waits for it, is an end of
  all the output of the session, without a gap or a repetition; and when nothing waits for it, what
  it was sent is such an end itself, however attaches, detaches, other clients and output interleave.
\<close>

theorem clients_in_sync:
  assumes "broadcast B live backlog bcap" and "reachable B S sc s" and "c \<in> set (conns s)"
    and "running (c_task c)" "attached (c_task c) = Some rx"
  shows "suffix (c_got c @ concat (backlog (tx (fanout (main_loop s))) rx)) (concat (outs s))
    \<and> (fst (bc_recv B (tx (fanout (main_loop s))) rx) = Waiting \<longrightarrow> suffix (c_got c) (concat (outs s)))"
proof -
  have l: "live (tx (fanout (main_loop s))) rx"
    and s: "suffix (c_got c @ concat (backlog (tx (fanout (main_loop s))) rx)) (concat (outs s))"
    using broadcast.reachable_in_sync [OF assms(1,2)] assms(3-5)
    by (auto simp: broadcast.in_sync_def [OF assms(1)])
  with broadcast.waiting_caught_up [OF assms(1) l] show ?thesis by auto
qed

text \<open>
  Property C11. Input of several clients: in every reachable state the program was given, chunk by
  chunk in the order they were queued, a beginning of each chunk; the chunks one client queued are
  in order a beginning of those it asked to push, all of them while it is served; nobody else's
  input is among them.
\<close>

theorem clients_input_interleaves:
  assumes "reachable B S sc s"
  shows "(\<exists>ps qs. map snd (queue_log s) = ps @ push_rx (main_loop s) \<and> list_all2 prefix qs ps
      \<and> typed (main_loop s) = concat qs)
    \<and> (\<forall>i < length (conns s). prefix (queued_by i (queue_log s)) (c_asked (conns s ! i))
        \<and> (running (c_task (conns s ! i)) \<longrightarrow> queued_by i (queue_log s) = c_asked (conns s ! i)))
    \<and> (\<forall>p \<in> set (queue_log s). fst p < length (conns s))"
  using reachable_input [OF assms] unfolding input_inv_def kept_def by blast



section \<open>A run\<close>

text \<open>A client connects, attaches and types; then the program writes.\<close>

definition run_loop :: "(int, hist_chan) loop" where
  "run_loop = loop_start small_fan \<lparr>pgid = 4711, winsize = (24, 80)\<rparr> None"

definition run_task :: "(hist_chan, nat) task" where
  "run_task = \<lparr>shared = small_fan, attached = Some 0, running = True\<rparr>"

definition typed_state :: "(int, hist_chan, nat) system" where
  "typed_state = \<lparr>main_loop = run_loop\<lparr>clients := 1, push_rx := [[65]], control_rx := [Signal 15]\<rparr>,
     conns = [\<lparr>c_task = run_task, c_got = [], c_asked = [[65]], c_orders = [Signal 15]\<rparr>], outs = [], queue_log = [(0, [65])],
     command_log = [(0, Signal 15)]\<rparr>"

definition shown_fan :: "hist_chan Fanout" where
  "shown_fan = \<lparr>ring = \<lparr>buf = [2, 3], head = 0, len = 2\<rparr>, tx = \<lparr>hist = [[1, 2, 3]], kept_cap = 4\<rparr>\<rparr>"

definition signalled_state :: "(int, hist_chan, nat) system" where
  "signalled_state = typed_state\<lparr>main_loop :=
     run_loop\<lparr>clients := 1, push_rx := [[65]], delivered := [(4711, 15)]\<rparr>\<rparr>"

definition written_state :: "(int, hist_chan, nat) system" where
  "written_state = signalled_state\<lparr>main_loop :=
     run_loop\<lparr>clients := 1, push_rx := [[65]], delivered := [(4711, 15)], fanout := shown_fan\<rparr>,
     outs := [[1, 2, 3]]\<rparr>"

lemmas run_defs = run_loop_def loop_start_def run_task_def new_conn_def room_def PUSH_CAPACITY_def
  CONTROL_CAPACITY_def

lemma typed_run:
  "sys_run hist_bcast linux_sigs \<lparr>main_loop = run_loop, conns = [], outs = [], queue_log = [], command_log = []\<rparr>
    [LoopTurn (quiet_turn\<lparr>t_accept := Some True\<rparr>), ClientEvent 0 (FromClient (Inr (Attach False)) True),
     ClientEvent 0 (FromClient (Inr (Push [65])) True), ClientEvent 0 (FromClient (Inr (Kill 15)) True)]
    = Some typed_state"
  by code_simp

lemma reach_typed: "reachable hist_bcast linux_sigs 2 typed_state"
  by (rule run_reachable [OF typed_run]) (unfold run_loop_def, rule reachable.start [OF small_fan_new])

lemma signalled_step: "sys_step hist_bcast linux_sigs typed_state signalled_state"
  by (rule do_step_sound [where a = "LoopTurn quiet_turn"]) code_simp

lemma written_step: "sys_step hist_bcast linux_sigs signalled_state written_state"
  by (rule do_step_sound [where a = "LoopTurn (quiet_turn\<lparr>t_read := [IoOk [1, 2, 3]]\<rparr>)"]) code_simp

lemma reach_signalled: "reachable hist_bcast linux_sigs 2 signalled_state"
  and reach_written: "reachable hist_bcast linux_sigs 2 written_state"
  using reach_typed signalled_step written_step by (blast intro: reachable.step)+

theorem system_never_panics_witness:
  "contents (ring (fanout (main_loop written_state))) = [2, 3]
    \<and> (\<forall>t. loop_turn hist_bcast (main_loop written_state) t \<noteq> None)"
proof -
  note safe = system_never_panics [OF reach_written]
  have "lastn 2 (concat (outs written_state)) = [2, 3]" by (simp add: written_state_def lastn_def)
  with safe show ?thesis by metis
qed

theorem clients_in_sync_witness:
  "\<exists>c. c \<in> set (conns written_state)
    \<and> suffix (c_got c @ concat (drop 0 (hist (tx (fanout (main_loop written_state)))))) [1, 2, 3]"
proof -
  let ?c = "\<lparr>c_task = run_task, c_got = [], c_asked = [[65]], c_orders = [Signal 15]\<rparr>
    :: (int, hist_chan, nat) conn"
  have "?c \<in> set (conns written_state)" "running (c_task ?c)" "attached (c_task ?c) = Some 0"
    by (simp_all add: written_state_def signalled_state_def typed_state_def run_task_def)
  from clients_in_sync [OF hb.broadcast_axioms reach_written this] this(1) show ?thesis
    by (intro exI [of _ ?c]) (simp add: written_state_def)
qed

theorem clients_input_interleaves_witness:
  "queued_by 0 (queue_log typed_state) = [[65]]
    \<and> (\<exists>ps qs. [[65]] = ps @ push_rx (main_loop typed_state) \<and> list_all2 prefix qs ps
        \<and> typed (main_loop typed_state) = concat qs)"
  using clients_input_interleaves [OF reach_typed] by (simp add: typed_state_def run_task_def)



end
