(* ===== verification/System_Spec.thy ===== *)
theory System_Spec
  imports System
begin

text \<open>
  What the daemon promises its clients, as a small machine without rings, channels and tasks: the
  output of the session is one stream of bytes, and what a client has been shown since it attached
  is a window of that stream, from the point where it was let in to the point it has reached. The
  daemon of \<open>System\<close> implements that machine: every step of the daemon is one of its steps or is
  not visible in it. The channels of requests are another small machine, a queue of bounded length.
\<close>

section \<open>Simulation\<close>

text \<open>
  The contract between a detailed and an abstract step relation: an invariant the detailed steps
  keep, and an abstraction that takes each of them to an abstract step or to none.
\<close>

locale simulation =
  fixes step :: "'c \<Rightarrow> 'c \<Rightarrow> bool"
    and inv :: "'c \<Rightarrow> bool"
    and abs_state :: "'c \<Rightarrow> 'a"
    and abs_step :: "'a \<Rightarrow> 'a \<Rightarrow> bool"
  assumes keeps: "inv s \<Longrightarrow> step s s' \<Longrightarrow> inv s'"
    and simulates: "inv s \<Longrightarrow> step s s' \<Longrightarrow> abs_state s' = abs_state s \<or> abs_step (abs_state s) (abs_state s')"
begin

lemma run_simulates:
  assumes "step\<^sup>*\<^sup>* s s'" and "inv s"
  shows "inv s' \<and> abs_step\<^sup>*\<^sup>* (abs_state s) (abs_state s')"
  using assms(1)
proof induction
  case (step t u)
  then have "inv t" "abs_step\<^sup>*\<^sup>* (abs_state s) (abs_state t)" by simp_all
  with keeps [OF this(1) step(2)] simulates [OF this(1) step(2)] show ?case
    by (auto intro: rtranclp.rtrancl_into_rtrancl)
qed (use assms(2) in simp)

text \<open>What the abstract steps keep holds along a detailed run.\<close>

lemma run_keeps:
  assumes "step\<^sup>*\<^sup>* s s'" and "inv s" and "good (abs_state s)"
    and "\<And>a a'. good a \<Longrightarrow> abs_step a a' \<Longrightarrow> good a'"
  shows "good (abs_state s')"
proof -
  have "abs_step\<^sup>*\<^sup>* (abs_state s) (abs_state s')" using run_simulates [OF assms(1,2)] ..
  then show ?thesis by (induction rule: rtranclp_induct) (use assms(3,4) in blast)+
qed

end

section \<open>The session as its clients see it\<close>

datatype view = Away | Watching nat nat | Gone

record session =
  stream :: bytes
  views :: "view list"

text \<open>\<open>sc\<close> is the length of the scrollback a newcomer is shown, unless it asks for none.\<close>

inductive spec_step :: "nat \<Rightarrow> session \<Rightarrow> session \<Rightarrow> bool" for sc :: nat where
  Emit: "chunk \<noteq> [] \<Longrightarrow> spec_step sc a (a\<lparr>stream := stream a @ chunk\<rparr>)"
| Join: "spec_step sc a (a\<lparr>views := views a @ [Away]\<rparr>)"
| Watch: "i < length (views a) \<Longrightarrow> views a ! i \<noteq> Gone \<Longrightarrow> n = length (stream a) \<Longrightarrow> start \<in> {n, n - sc} \<Longrightarrow>
    spec_step sc a (a\<lparr>views := (views a)[i := Watching start n]\<rparr>)"
| Show: "i < length (views a) \<Longrightarrow> views a ! i = Watching p q \<Longrightarrow> q \<le> q' \<Longrightarrow> q' \<le> length (stream a) \<Longrightarrow>
    spec_step sc a (a\<lparr>views := (views a)[i := Watching p q']\<rparr>)"
| Unwatch: "i < length (views a) \<Longrightarrow> views a ! i \<noteq> Gone \<Longrightarrow> spec_step sc a (a\<lparr>views := (views a)[i := Away]\<rparr>)"
| Leave: "i < length (views a) \<Longrightarrow> spec_step sc a (a\<lparr>views := (views a)[i := Gone]\<rparr>)"

text \<open>What a client has been shown.\<close>

definition window :: "view \<Rightarrow> bytes \<Rightarrow> bytes" where
  "window v bs = (case v of Watching p q \<Rightarrow> take (q - p) (drop p bs) | _ \<Rightarrow> [])"

definition window_ok :: "bytes \<Rightarrow> view \<Rightarrow> bool" where
  "window_ok bs v = (case v of Watching p q \<Rightarrow> p \<le> q \<and> q \<le> length bs | _ \<Rightarrow> True)"

lemma window_ok_simps [simp]:
  "window_ok bs Away" "window_ok bs Gone" "window_ok bs (Watching p q) \<longleftrightarrow> p \<le> q \<and> q \<le> length bs"
  by (simp_all add: window_ok_def)

lemma window_ok_more: "window_ok bs v \<Longrightarrow> window_ok (bs @ cs) v"
  by (cases v) simp_all

lemma update_keeps: "\<forall>x \<in> set xs. P x \<Longrightarrow> P y \<Longrightarrow> \<forall>x \<in> set (xs[i := y]). P x"
  by (auto dest!: set_update_subset_insert [THEN subsetD])

lemma windows_step:
  assumes "spec_step sc a a'" and "\<forall>v \<in> set (views a). window_ok (stream a) v"
  shows "\<forall>v \<in> set (views a'). window_ok (stream a') v"
  using assms(1)
proof (cases rule: spec_step.cases)
  case (Emit chunk)
  then show ?thesis using assms(2) by (simp add: window_ok_more)
next
  case Join
  then show ?thesis using assms(2) by simp
next
  case (Watch i n start)
  then have "window_ok (stream a) (Watching start n)" by auto
  then show ?thesis using Watch(1) update_keeps [OF assms(2), of "Watching start n" i] by simp
next
  case (Show i p q q')
  then have "window_ok (stream a) (Watching p q)" using assms(2) nth_mem by metis
  then have "window_ok (stream a) (Watching p q')" using Show by simp
  then show ?thesis using Show(1) update_keeps [OF assms(2), of "Watching p q'" i] by simp
next
  case (Unwatch i)
  then show ?thesis using update_keeps [OF assms(2), of Away i] by simp
next
  case (Leave i)
  then show ?thesis using update_keeps [OF assms(2), of Gone i] by simp
qed

text \<open>The stream only grows, and whoever has left stays away.\<close>

definition later :: "session \<Rightarrow> session \<Rightarrow> bool" where
  "later a a' \<longleftrightarrow> prefix (stream a) (stream a') \<and> length (views a) \<le> length (views a')
     \<and> (\<forall>i < length (views a). views a ! i = Gone \<longrightarrow> views a' ! i = Gone)"

lemma later_step: "later a b \<Longrightarrow> spec_step sc b c \<Longrightarrow> later a c"
  by (erule spec_step.cases) (auto simp: later_def nth_append nth_list_update)

section \<open>The daemon as a session\<close>

text \<open>
  A client that watches has reached the point that is as far from the end of the output as its
  backlog is long. The backlog is the part of the channel's state that its documentation speaks of.
\<close>

definition view_of ::
    "('ch \<Rightarrow> 'rx \<Rightarrow> bytes list) \<Rightarrow> 'ch Fanout \<Rightarrow> bytes list \<Rightarrow> ('sig, 'ch, 'rx) conn \<Rightarrow> view" where
  "view_of backlog f os c =
     (if \<not> running (c_task c) then Gone
      else case attached (c_task c) of
             None \<Rightarrow> Away
           | Some rx \<Rightarrow>
               let q = length (concat os) - length (concat (backlog (tx f) rx))
               in Watching (q - length (c_got c)) q)"

definition session_of :: "('ch \<Rightarrow> 'rx \<Rightarrow> bytes list) \<Rightarrow> ('sig, 'ch, 'rx) system \<Rightarrow> session" where
  "session_of backlog s =
     \<lparr>stream = concat (outs s), views = map (view_of backlog (fanout (main_loop s)) (outs s)) (conns s)\<rparr>"

lemma view_gone: "\<not> running (c_task c) \<Longrightarrow> view_of backlog f os c = Gone"
  by (simp add: view_of_def)

lemma view_unasked:
  "view_of backlog f os \<lparr>c_task = k, c_got = g, c_asked = a, c_orders = b\<rparr> =
   view_of backlog f os \<lparr>c_task = k, c_got = g, c_asked = a', c_orders = b'\<rparr>"
  by (simp add: view_of_def split: option.split)

lemma view_watching:
  "running k \<Longrightarrow> attached k = Some rx \<Longrightarrow> q = length (concat os) - length (concat (backlog (tx f) rx)) \<Longrightarrow>
    view_of backlog f os \<lparr>c_task = k, c_got = g, c_asked = a, c_orders = b\<rparr> = Watching (q - length g) q"
  by (simp add: view_of_def)

text \<open>What an event of its own does to the view of a client.\<close>

definition moves :: "nat \<Rightarrow> nat \<Rightarrow> view \<Rightarrow> view \<Rightarrow> bool" where
  "moves sc n v v' \<longleftrightarrow> v' = v \<or> v' = Gone \<or> v \<noteq> Gone \<and> v' = Away \<or> v \<noteq> Gone \<and> v' \<in> {Watching n n, Watching (n - sc) n}
     \<or> (\<exists>p q q'. v = Watching p q \<and> v' = Watching p q' \<and> q \<le> q' \<and> q' \<le> n)"

lemma moves_refl [simp]: "moves sc n v v" and moves_gone [simp]: "moves sc n v Gone"
  by (simp_all add: moves_def)

lemma moves_show: "q \<le> q' \<Longrightarrow> q' \<le> n \<Longrightarrow> moves sc n (Watching p q) (Watching p q')"
  by (simp add: moves_def)

lemma moves_step:
  assumes "moves sc (length (stream a)) (views a ! i) v" and "i < length (views a)" and "a' = a\<lparr>views := (views a)[i := v]\<rparr>"
  shows "a' = a \<or> spec_step sc a a'"
proof -
  let ?n = "length (stream a)"
  from assms(1) consider "v = views a ! i" | "v = Gone" | "views a ! i \<noteq> Gone" "v = Away"
    | start where "views a ! i \<noteq> Gone" "start \<in> {?n, ?n - sc}" "v = Watching start ?n"
    | p q q' where "views a ! i = Watching p q" "v = Watching p q'" "q \<le> q'" "q' \<le> ?n"
    unfolding moves_def by blast
  then show ?thesis
  proof cases
    case 1
    then show ?thesis using assms(3) by simp
  next
    case 2
    then show ?thesis using spec_step.Leave [OF assms(2)] assms(3) by simp
  next
    case 3
    then show ?thesis using spec_step.Unwatch [OF assms(2)] assms(3) by simp
  next
    case 4
    then show ?thesis using spec_step.Watch [OF assms(2) 4(1) refl 4(2)] assms(3) by simp
  next
    case 5
    then show ?thesis using spec_step.Show [OF assms(2) 5(1,3,4)] assms(3) by simp
  qed
qed

context broadcast
begin

lemma view_turn:
  assumes "in_sync f os c" and "tx f' = tx f \<and> ds = [] \<or> (\<exists>d. tx f' = bc_send B (tx f) d \<and> ds = [d])"
  shows "view_of backlog f' (os @ ds) c = view_of backlog f os c"
  using assms by (auto simp: view_of_def in_sync_def send split: option.split)

lemma view_other:
  assumes "task_step B S k e = Some (k', efs)" and "of_client e" and "in_sync (shared k) os c"
  shows "view_of backlog (shared k') os c = view_of backlog (shared k) os c"
  using step_channel [OF assms(1,2)]
proof
  assume "tx (shared k') = tx (shared k)"
  then show ?thesis by (simp add: view_of_def split: option.split)
next
  assume "\<exists>q. bc_subscribe B (tx (shared k)) = (q, tx (shared k'))"
  then obtain q where "bc_subscribe B (tx (shared k)) = (q, tx (shared k'))" ..
  from subscribe_other [OF this] show ?thesis using assms(3)
    by (auto simp: view_of_def in_sync_def split: option.split)
qed

lemma view_attach:
  assumes "on_message B S k (Attach skip) ok = Some (k', efs)" and "fan_wf (shared k)"
    and "contents (ring (shared k)) = lastn sc (concat os)" and "v \<noteq> Gone"
  shows "moves sc (length (concat os)) v
    (view_of backlog (shared k') os \<lparr>c_task = k', c_got = written efs, c_asked = a, c_orders = b\<rparr>)"
proof -
  obtain q ch where q: "bc_subscribe B (tx (shared k)) = (q, ch)" by fastforce
  note a = fan_attach_ok [OF assms(2) q]
  have len: "length (contents (ring (shared k))) = min sc (length (concat os))"
    unfolding assms(3) by (simp add: lastn_def)
  show ?thesis
  proof (cases "running k'")
    case True
    then have k': "attached k' = Some q" "tx (shared k') = ch"
      "written efs = (if skip then [] else contents (ring (shared k)))"
      using assms(1) a by (auto simp: on_message_def stop_def Let_def split: if_splits)
    then have "length (written efs) \<in> {0, min sc (length (concat os))}" using len by simp
    moreover have "view_of backlog (shared k') os \<lparr>c_task = k', c_got = written efs, c_asked = a, c_orders = b\<rparr>
        = Watching (length (concat os) - length (written efs)) (length (concat os))"
      by (rule view_watching [OF True k'(1)]) (simp add: k'(2) subscribe [OF q])
    ultimately have "view_of backlog (shared k') os \<lparr>c_task = k', c_got = written efs, c_asked = a, c_orders = b\<rparr>
        \<in> {Watching (length (concat os)) (length (concat os)), Watching (length (concat os) - sc) (length (concat os))}"
      by auto
    then show ?thesis using assms(4) unfolding moves_def by blast
  qed (simp add: view_gone)
qed

lemma view_message:
  assumes "on_message B S k m ok = Some (k', efs)" and "\<And>skip. m \<noteq> Attach skip" and "running k"
  shows "moves sc n (view_of backlog (shared k) os \<lparr>c_task = k, c_got = g, c_asked = a, c_orders = b\<rparr>)
    (view_of backlog (shared k') os \<lparr>c_task = k', c_got = g @ written efs, c_asked = a', c_orders = b'\<rparr>)"
proof (cases "m = Detach")
  case True
  then have "view_of backlog (shared k') os \<lparr>c_task = k', c_got = g @ written efs, c_asked = a', c_orders = b'\<rparr> = Away"
    using assms(1,3) by (auto simp: on_message_def view_of_def)
  moreover have "view_of backlog (shared k) os \<lparr>c_task = k, c_got = g, c_asked = a, c_orders = b\<rparr> \<noteq> Gone"
    using assms(3) by (simp add: view_of_def Let_def split: option.split)
  ultimately show ?thesis by (simp add: moves_def)
next
  case False
  with assms(2) have "typing (FromClient (Inr m) ok)" by (cases m) auto
  from on_message_typing [OF this, of B S k] assms(1) have w: "written efs = []" and "k' = k \<or> k' = stop k"
    by auto
  from this(2) show ?thesis
  proof
    assume "k' = k"
    then show ?thesis using w view_unasked [of backlog "shared k" os k g a b a' b'] by simp
  next
    assume "k' = stop k"
    then have "\<not> running k'" by (simp add: stop_def)
    then show ?thesis by (simp add: view_gone)
  qed
qed

lemma view_poll:
  assumes "on_output B k ok = (k', efs)" and "running k"
    and "in_sync (shared k) os \<lparr>c_task = k, c_got = g, c_asked = a, c_orders = b\<rparr>"
  shows "moves sc (length (concat os)) (view_of backlog (shared k) os \<lparr>c_task = k, c_got = g, c_asked = a, c_orders = b\<rparr>)
    (view_of backlog (shared k') os \<lparr>c_task = k', c_got = g @ written efs, c_asked = a', c_orders = b'\<rparr>)"
proof (cases "attached k")
  case None
  then have "k' = k" "written efs = []" using assms(1) by (auto simp: on_output_def recv_next_def)
  then show ?thesis using view_unasked [of backlog "shared k" os k g a b a' b'] by simp
next
  case (Some rx)
  let ?ch = "tx (shared k)" and ?b = "backlog (tx (shared k)) rx"
  have l: "live ?ch rx" "suffix (g @ concat ?b) (concat os)"
    using assms(2,3) Some by (simp_all add: in_sync_def)
  have len: "length g + length (concat ?b) \<le> length (concat os)"
    using suffix_length_le [OF l(2)] by simp
  consider "?b = []" | m ms where "?b = m # ms" "length ?b \<le> bcap ?ch" | "bcap ?ch < length ?b"
    by (metis list.exhaust not_less)
  then show ?thesis
  proof cases
    case 1
    then have "k' = k" "written efs = []" using assms(1) Some recv_empty [OF l(1)] by (auto simp: on_output_def recv_next_def)
    then show ?thesis using view_unasked [of backlog "shared k" os k g a b a' b'] by simp
  next
    case 2
    obtain q where q: "bc_recv B ?ch rx = (Got m, q)" "backlog ?ch q = ms"
      using recv_got [OF l(1) 2] by blast
    show ?thesis
    proof (cases ok)
      case True
      then have k': "k' = k\<lparr>attached := Some q\<rparr>" "written efs = m"
        using assms(1) Some q(1) by (auto simp: on_output_def recv_next_def Let_def)
      have "view_of backlog (shared k') os \<lparr>c_task = k', c_got = g @ m, c_asked = a', c_orders = b'\<rparr> =
          Watching (length (concat os) - length (concat ms) - length (g @ m)) (length (concat os) - length (concat ms))"
        using k' assms(2) by (intro view_watching [where rx = q]) (simp_all add: q(2))
      moreover have "view_of backlog (shared k) os \<lparr>c_task = k, c_got = g, c_asked = a, c_orders = b\<rparr> =
          Watching (length (concat os) - length (m @ concat ms) - length g) (length (concat os) - length (m @ concat ms))"
        using assms(2) Some by (intro view_watching [where rx = rx]) (simp_all add: 2(1))
      moreover have "length (concat os) - length (concat ms) - length (g @ m) =
          length (concat os) - length (m @ concat ms) - length g" using len 2(1) by simp
      ultimately show ?thesis unfolding k'(2) by (simp add: moves_show)
    next
      case False
      then have "\<not> running k'" using assms(1) Some q(1) by (auto simp: on_output_def recv_next_def stop_def Let_def)
      then show ?thesis by (simp add: view_gone)
    qed
  next
    case 3
    obtain q where "bc_recv B ?ch rx = (Lagged (length ?b - bcap ?ch), q)"
      using recv_lag [OF l(1) 3] by blast
    then have "\<not> running k'" using assms(1) Some by (auto simp: on_output_def recv_next_def stop_def)
    then show ?thesis by (simp add: view_gone)
  qed
qed

lemma view_self:
  assumes "task_step B S k e = Some (k', efs)" and "of_client e" and "fan_wf (shared k)"
    and "contents (ring (shared k)) = lastn sc (concat os)"
    and "in_sync (shared k) os \<lparr>c_task = k, c_got = g, c_asked = a, c_orders = b\<rparr>"
  shows "moves sc (length (concat os)) (view_of backlog (shared k) os \<lparr>c_task = k, c_got = g, c_asked = a, c_orders = b\<rparr>)
    (view_of backlog (shared k') os
      \<lparr>c_task = k', c_got = (if attaches e then [] else g) @ written efs, c_asked = a', c_orders = b'\<rparr>)"
proof (cases "running k \<and> running k'")
  case False
  then have "\<not> running k'" using stopped_step assms(1) by blast
  then show ?thesis by (simp add: view_gone)
next
  case True
  then have here: "view_of backlog (shared k) os \<lparr>c_task = k, c_got = g, c_asked = a, c_orders = b\<rparr> \<noteq> Gone"
    by (simp add: view_of_def Let_def split: option.split)
  show ?thesis
  proof (cases e)
    case (FromClient r ok)
    then obtain m where r: "r = Inr m" using assms(1) True by (cases r) (auto simp: stop_def)
    then have st: "on_message B S k m ok = Some (k', efs)" using FromClient True assms(1) by simp
    show ?thesis
    proof (cases "\<exists>skip. m = Attach skip")
      case True
      then show ?thesis using view_attach [OF _ assms(3,4) here] st FromClient r by auto
    next
      case False
      then have "\<not> attaches e" using FromClient r by (cases m) auto
      then show ?thesis using view_message [OF st] False True by simp
    qed
  next
    case ClientEof
    then show ?thesis using True assms(1) by (auto simp: stop_def)
  next
    case (PollOutput ok)
    then have "on_output B k ok = (k', efs)" using True assms(1) by simp
    from view_poll [OF this _ assms(5)] True PollOutput show ?thesis by simp
  next
    case (DaemonPush d)
    then show ?thesis using assms(2) by simp
  qed
qed

lemma session_step:
  assumes "reachable B S sc s" and "sys_step B S s s'"
  shows "session_of backlog s' = session_of backlog s \<or> spec_step sc (session_of backlog s) (session_of backlog s')"
  using assms(2)
proof (cases rule: sys_step.cases)
  case (Turn t d)
  let ?f = "fanout (main_loop s)" and ?new = "read_in (main_loop s) t"
  have "ring_wf (ring ?f)" using reachable_ring [OF assms(1)] by blast
  from turn_tx [OF this Turn(4,5)]
  have r: "tx (fanout d) = tx ?f \<and> ?new = [] \<and> clients d \<in> {clients (main_loop s), Suc (clients (main_loop s))}
      \<or> (\<exists>c. tx (fanout d) = bc_send B (tx ?f) c \<and> ?new = [c] \<and> clients d = clients (main_loop s))"
    by auto
  then have "view_of backlog (fanout d) (outs s @ ?new) c = view_of backlog ?f (outs s) c" if "c \<in> set (conns s)" for c
    using view_turn [of ?f "outs s" c "fanout d" ?new] reachable_in_sync [OF assms(1)] that by blast
  then have v: "map (view_of backlog (fanout d) (outs s @ ?new)) (conns s) = views (session_of backlog s)"
    by (simp add: session_of_def)
  have new: "view_of backlog f os (new_conn g) = Away" for f os g
    by (simp add: view_of_def new_conn_def task_start_def)
  from r consider "?new = []" "clients d = clients (main_loop s)" | "?new = []" "clients d = Suc (clients (main_loop s))"
    | c where "?new = [c]" "clients d = clients (main_loop s)" by auto
  then show ?thesis
  proof cases
    case 1
    then show ?thesis using v by (simp add: Turn(1) session_of_def)
  next
    case 2
    then have "session_of backlog s' = (session_of backlog s)\<lparr>views := views (session_of backlog s) @ [Away]\<rparr>"
      using v by (simp add: Turn(1) session_of_def new)
    then show ?thesis using spec_step.Join by metis
  next
    case (3 c)
    then have "session_of backlog s' = (session_of backlog s)\<lparr>stream := stream (session_of backlog s) @ c\<rparr>"
      using v by (simp add: Turn(1) session_of_def)
    moreover have "c \<noteq> []" using read_in_size [of c "main_loop s" t] 3(1) by simp
    ultimately show ?thesis using spec_step.Emit by metis
  qed
next
  case (Event i e k efs)
  let ?f = "fanout (main_loop s)" and ?c = "conns s ! i"
  let ?k = "(c_task ?c)\<lparr>shared := ?f\<rparr>"
  let ?new = "\<lparr>c_task = k, c_got = (if attaches e then [] else c_got ?c) @ written efs,
    c_asked = c_asked ?c @ concat (map push_of (messages [e])),
    c_orders = c_orders ?c @ concat (map (control_of S) (messages [e]))\<rparr>"
  have wf: "fan_wf (shared ?k)" "contents (ring (shared ?k)) = lastn sc (concat (outs s))"
    using reachable_ring [OF assms(1)] by (simp_all add: fan_wf_def)
  have sync: "in_sync ?f (outs s) c" if "c \<in> set (conns s)" for c
    using reachable_in_sync [OF assms(1)] that by blast
  have "in_sync (shared ?k) (outs s) \<lparr>c_task = ?k, c_got = c_got ?c, c_asked = c_asked ?c, c_orders = c_orders ?c\<rparr>"
    using sync [of ?c] Event(2) by (simp add: in_sync_def)
  note own = view_self [OF Event(4,3) wf this]
  have "view_of backlog (shared ?k) (outs s) \<lparr>c_task = ?k, c_got = c_got ?c, c_asked = c_asked ?c, c_orders = c_orders ?c\<rparr>
      = view_of backlog ?f (outs s) ?c"
    by (simp add: view_of_def split: option.split)
  then have "moves sc (length (concat (outs s))) (view_of backlog ?f (outs s) ?c) (view_of backlog (shared k) (outs s) ?new)"
    using own by metis
  moreover have v: "map (view_of backlog (shared k) (outs s)) (conns s) = views (session_of backlog s)"
    using sync by (auto simp: session_of_def intro!: view_other [OF Event(4,3), simplified])
  moreover have "session_of backlog s' = (session_of backlog s)\<lparr>views :=
      (map (view_of backlog (shared k) (outs s)) (conns s))[i := view_of backlog (shared k) (outs s) ?new]\<rparr>"
    unfolding Event(1) by (simp add: session_of_def map_update split del: if_split)
  then have "session_of backlog s' = (session_of backlog s)\<lparr>views :=
      (views (session_of backlog s))[i := view_of backlog (shared k) (outs s) ?new]\<rparr>"
    unfolding v .
  ultimately show ?thesis using Event(2) by (intro moves_step [where i = i]) (simp_all add: session_of_def)
qed

lemma shown_window:
  assumes "in_sync f os c"
  shows "window_ok (concat os) (view_of backlog f os c)
    \<and> (running (c_task c) \<and> attached (c_task c) \<noteq> None \<longrightarrow> c_got c = window (view_of backlog f os c) (concat os))"
proof (cases "running (c_task c)")
  case True
  show ?thesis
  proof (cases "attached (c_task c)")
    case None
    then show ?thesis by (simp add: view_of_def)
  next
    case (Some rx)
    then have "suffix (c_got c @ concat (backlog (tx f) rx)) (concat os)"
      using assms True by (simp add: in_sync_def)
    then obtain zs where zs: "concat os = zs @ c_got c @ concat (backlog (tx f) rx)" by (auto simp: suffix_def)
    have "view_of backlog f os c = Watching (length zs) (length zs + length (c_got c))"
      using True Some by (simp add: view_of_def Let_def zs)
    then show ?thesis by (simp add: window_def zs)
  qed
qed (simp add: view_gone)

end

sublocale broadcast \<subseteq> sessions: simulation "sys_step B S" "reachable B S sc" "session_of backlog" "spec_step sc" for S sc
  by unfold_locales (blast intro: reachable.step, rule session_step)

context broadcast
begin

lemma session_run:
  assumes "reachable B S sc s" and "(sys_step B S)\<^sup>*\<^sup>* s s'"
  shows "(spec_step sc)\<^sup>*\<^sup>* (session_of backlog s) (session_of backlog s')
    \<and> later (session_of backlog s) (session_of backlog s')
    \<and> (\<forall>c \<in> set (conns s'). in_sync (fanout (main_loop s')) (outs s') c)"
proof -
  have r: "reachable B S sc s'" and "(spec_step sc)\<^sup>*\<^sup>* (session_of backlog s) (session_of backlog s')"
    using sessions.run_simulates [OF assms(2,1)] by blast+
  moreover have "later (session_of backlog s) (session_of backlog s')"
    by (rule sessions.run_keeps [OF assms(2,1)]) (simp add: later_def, rule later_step)
  ultimately show ?thesis using reachable_in_sync [OF r] by blast
qed

end

section \<open>The queues\<close>

text \<open>A queue of bounded length: what was posted, and how much of it has been taken.\<close>

record 'a mail =
  posted :: "'a list"
  taken :: nat

inductive mail_step :: "nat \<Rightarrow> 'a mail \<Rightarrow> 'a mail \<Rightarrow> bool" for cap :: nat where
  Post: "length (posted m) + length xs \<le> taken m + cap \<Longrightarrow> mail_step cap m (m\<lparr>posted := posted m @ xs\<rparr>)"
| Take: "taken m \<le> n \<Longrightarrow> n \<le> length (posted m) \<Longrightarrow> mail_step cap m (m\<lparr>taken := n\<rparr>)"

definition mail_of :: "(nat \<times> 'a) list \<Rightarrow> 'a list \<Rightarrow> (nat \<times> 'a) mail" where
  "mail_of log waiting = \<lparr>posted = log, taken = length log - length waiting\<rparr>"

lemma mail_post:
  assumes "length waiting \<le> length log" and "length waiting + length xs \<le> cap"
  shows "mail_step cap (mail_of log waiting) (mail_of (log @ map (Pair i) xs) (waiting @ xs))"
proof -
  have "mail_step cap (mail_of log waiting) ((mail_of log waiting)\<lparr>posted := posted (mail_of log waiting) @ map (Pair i) xs\<rparr>)"
    by (rule mail_step.Post) (use assms in \<open>simp add: mail_of_def\<close>)
  then show ?thesis by (simp add: mail_of_def)
qed

lemma mail_take:
  assumes "length waiting \<le> length log" and "waiting = front @ rest"
  shows "mail_step cap (mail_of log waiting) (mail_of log rest)"
proof -
  have "mail_step cap (mail_of log waiting) ((mail_of log waiting)\<lparr>taken := length log - length rest\<rparr>)"
    by (rule mail_step.Take) (use assms in \<open>simp_all add: mail_of_def\<close>)
  then show ?thesis by (simp add: mail_of_def)
qed

definition commands_of :: "('sig, 'ch, 'rx) system \<Rightarrow> (nat \<times> 'sig ControlCommand) mail" where
  "commands_of s = mail_of (command_log s) (control_rx (main_loop s))"

definition input_of :: "('sig, 'ch, 'rx) system \<Rightarrow> (nat \<times> bytes) mail" where
  "input_of s = mail_of (queue_log s) (push_rx (main_loop s))"

lemma waiting_logged:
  assumes "reachable B S sc s"
  shows "length (control_rx (main_loop s)) \<le> length (command_log s)"
    and "length (push_rx (main_loop s)) \<le> length (queue_log s)"
proof -
  from reachable_input [OF assms] obtain ps cs where
    "map snd (queue_log s) = ps @ push_rx (main_loop s)" "map snd (command_log s) = cs @ control_rx (main_loop s)"
    by blast
  then show "length (control_rx (main_loop s)) \<le> length (command_log s)"
    and "length (push_rx (main_loop s)) \<le> length (queue_log s)"
    by (metis le_add2 length_append length_map)+
qed

lemma queues_step:
  assumes "reachable B S sc s" and "sys_step B S s s'"
  shows "mail_step CONTROL_CAPACITY (commands_of s) (commands_of s')
    \<and> mail_step PUSH_CAPACITY (input_of s) (input_of s')"
  using assms(2)
proof (cases rule: sys_step.cases)
  case (Turn t d)
  have w: "ring_wf (ring (fanout (main_loop s)))" using reachable_ring [OF assms(1)] by blast
  obtain ps cs where q: "push_rx (main_loop s) = ps @ push_rx d" "control_rx (main_loop s) = cs @ control_rx d"
    using turn_input [OF w Turn(5)] turn_signals [OF w Turn(5)] Turn(2,3)
    by (auto simp: taken_in_def split: phase.splits)
  show ?thesis
    using mail_take [OF waiting_logged(1) [OF assms(1)] q(2)] mail_take [OF waiting_logged(2) [OF assms(1)] q(1)]
    by (simp add: Turn(1) commands_of_def input_of_def)
next
  case (Event i e k efs)
  show ?thesis
    using mail_post [OF waiting_logged(1) [OF assms(1)], of "controls efs" CONTROL_CAPACITY i]
      mail_post [OF waiting_logged(2) [OF assms(1)], of "pushed efs" PUSH_CAPACITY i] Event(5)
    by (simp add: Event(1) commands_of_def input_of_def room_def)
qed

interpretation requests: simulation "sys_step B S" "reachable B S sc" commands_of "mail_step CONTROL_CAPACITY" for B S sc
  by unfold_locales (blast intro: reachable.step, use queues_step in blast)

interpretation inputs: simulation "sys_step B S" "reachable B S sc" input_of "mail_step PUSH_CAPACITY" for B S sc
  by unfold_locales (blast intro: reachable.step, use queues_step in blast)

section \<open>Properties\<close>

text \<open>
  Property C3. The daemon implements the session it promises: along every run of the daemon each
  step, of the loop or of any client, is a step of the abstract session or is not visible in it;
  the output only grows, whoever has left stays away, and at every moment each client that is
  attached and served has been sent exactly the window of the output its view names.
\<close>

theorem system_refines_session:
  assumes "broadcast B live backlog bcap" and "reachable B S sc s" and "(sys_step B S)\<^sup>*\<^sup>* s s'"
  shows "(spec_step sc)\<^sup>*\<^sup>* (session_of backlog s) (session_of backlog s')
    \<and> later (session_of backlog s) (session_of backlog s')
    \<and> (\<forall>c \<in> set (conns s').
        window_ok (concat (outs s')) (view_of backlog (fanout (main_loop s')) (outs s') c)
        \<and> (running (c_task c) \<and> attached (c_task c) \<noteq> None \<longrightarrow>
            c_got c = window (view_of backlog (fanout (main_loop s')) (outs s') c) (concat (outs s'))))"
  using broadcast.session_run [OF assms] broadcast.shown_window [OF assms(1)] by blast

text \<open>Output that is not delivered yet: the stream grows, the client's window does not.\<close>

theorem system_refines_session_witness:
  "(spec_step 2)\<^sup>*\<^sup>* \<lparr>stream = [], views = [Watching 0 0]\<rparr> \<lparr>stream = [1, 2, 3], views = [Watching 0 0]\<rparr>"
proof -
  let ?b = "\<lambda>(ch :: hist_chan) q. drop q (hist ch)"
  have r: "(sys_step hist_bcast linux_sigs)\<^sup>*\<^sup>* typed_state written_state"
    using signalled_step written_step by (meson converse_rtranclp_into_rtranclp r_into_rtranclp)
  have "session_of ?b typed_state = \<lparr>stream = [], views = [Watching 0 0]\<rparr>"
    by (simp add: session_of_def view_of_def typed_state_def run_defs small_fan_def Let_def)
  moreover have "session_of ?b written_state = \<lparr>stream = [1, 2, 3], views = [Watching 0 0]\<rparr>"
    by (simp add: session_of_def view_of_def written_state_def signalled_state_def typed_state_def run_defs
        shown_fan_def Let_def)
  ultimately show ?thesis
    using system_refines_session [OF hb.broadcast_axioms reach_typed r] by simp
qed



section \<open>Catching up\<close>

context broadcast
begin

lemma poll_delivers:
  assumes "reachable B S sc s" and "i < length (conns s)" and "running (c_task (conns s ! i))"
    and "attached (c_task (conns s ! i)) = Some rx" and "backlog (tx (fanout (main_loop s))) rx = m # ms"
    and "length (m # ms) \<le> bcap (tx (fanout (main_loop s)))"
  shows "\<exists>s' q. sys_step B S s s' \<and> outs s' = outs s \<and> fanout (main_loop s') = fanout (main_loop s)
    \<and> length (conns s') = length (conns s) \<and> running (c_task (conns s' ! i))
    \<and> attached (c_task (conns s' ! i)) = Some q \<and> backlog (tx (fanout (main_loop s))) q = ms
    \<and> c_got (conns s' ! i) = c_got (conns s ! i) @ m"
proof -
  let ?f = "fanout (main_loop s)" and ?c = "conns s ! i" and ?e = "PollOutput True"
  have "live (tx ?f) rx" using reachable_in_sync [OF assms(1)] assms(2-4) nth_mem [OF assms(2)]
    unfolding in_sync_def by blast
  from recv_got [OF this assms(5)] assms(5,6)
  obtain q where q: "bc_recv B (tx ?f) rx = (Got m, q)" "backlog (tx ?f) q = ms" by auto
  let ?k = "(c_task ?c)\<lparr>shared := ?f, attached := Some q\<rparr>"
  let ?s' = "after_event S s i ?e ?k [WriteOut m]"
  have "task_step B S ((c_task ?c)\<lparr>shared := ?f\<rparr>) ?e = Some (?k, [WriteOut m])"
    using assms(3,4) q(1) by (simp add: on_output_def recv_next_def Let_def)
  moreover have "room (main_loop s) [WriteOut m]" using reachable_bounded [OF assms(1)] by (simp add: room_def)
  ultimately have "sys_step B S s ?s'" using assms(2) by (intro sys_step.Event) simp_all
  then show ?thesis using assms(2,3) q(2)
    by (intro exI [of _ ?s'] exI [of _ q]) (simp add: after_event_def Let_def)
qed

lemma polls_deliver:
  assumes "reachable B S sc s" and "i < length (conns s)" and "running (c_task (conns s ! i))"
    and "attached (c_task (conns s ! i)) = Some rx" and "backlog (tx (fanout (main_loop s))) rx = ms"
    and "length ms \<le> bcap (tx (fanout (main_loop s)))"
  shows "\<exists>s' q. (sys_step B S ^^ length ms) s s' \<and> reachable B S sc s' \<and> outs s' = outs s
    \<and> fanout (main_loop s') = fanout (main_loop s) \<and> i < length (conns s') \<and> running (c_task (conns s' ! i))
    \<and> attached (c_task (conns s' ! i)) = Some q \<and> backlog (tx (fanout (main_loop s))) q = []
    \<and> c_got (conns s' ! i) = c_got (conns s ! i) @ concat ms"
  using assms
proof (induction ms arbitrary: s rx)
  case Nil
  then show ?case by (intro exI [of _ s] exI [of _ rx]) simp
next
  case (Cons m ms)
  obtain u q where u: "sys_step B S s u" "outs u = outs s" "fanout (main_loop u) = fanout (main_loop s)"
    "length (conns u) = length (conns s)" "running (c_task (conns u ! i))" "attached (c_task (conns u ! i)) = Some q"
    "backlog (tx (fanout (main_loop u))) q = ms" "c_got (conns u ! i) = c_got (conns s ! i) @ m"
    using poll_delivers [OF Cons.prems] by metis
  have "reachable B S sc u" using Cons.prems(1) u(1) by (rule reachable.step)
  from Cons.IH [OF this _ u(5-7)] u Cons.prems(2,6) obtain s' q' where
    s': "(sys_step B S ^^ length ms) u s'" "reachable B S sc s'" "outs s' = outs s"
    "fanout (main_loop s') = fanout (main_loop s)" "i < length (conns s')" "running (c_task (conns s' ! i))"
    "attached (c_task (conns s' ! i)) = Some q'" "backlog (tx (fanout (main_loop s))) q' = []"
    "c_got (conns s' ! i) = (c_got (conns s ! i) @ m) @ concat ms" by auto
  have "(sys_step B S ^^ length (m # ms)) s s'" using relpowp_Suc_I2 [of "sys_step B S", OF u(1) s'(1)] by simp
  then show ?case using s'(2-9) by (intro exI [of _ s'] exI [of _ q']) simp
qed

lemma polled_catches_up:
  assumes "reachable B S sc s" and "i < length (conns s)" and "running (c_task (conns s ! i))"
    and "attached (c_task (conns s ! i)) = Some rx"
    and "length (backlog (tx (fanout (main_loop s))) rx) \<le> bcap (tx (fanout (main_loop s)))"
  shows "\<exists>s' p. (sys_step B S ^^ length (backlog (tx (fanout (main_loop s))) rx)) s s' \<and> outs s' = outs s
    \<and> view_of backlog (fanout (main_loop s')) (outs s') (conns s' ! i) = Watching p (length (concat (outs s)))
    \<and> c_got (conns s' ! i) = drop p (concat (outs s))
    \<and> c_got (conns s' ! i) = c_got (conns s ! i) @ concat (backlog (tx (fanout (main_loop s))) rx)"
proof -
  obtain s' q where s': "(sys_step B S ^^ length (backlog (tx (fanout (main_loop s))) rx)) s s'" "reachable B S sc s'"
    "outs s' = outs s" "fanout (main_loop s') = fanout (main_loop s)" "i < length (conns s')"
    "running (c_task (conns s' ! i))" "attached (c_task (conns s' ! i)) = Some q"
    "backlog (tx (fanout (main_loop s))) q = []"
    "c_got (conns s' ! i) = c_got (conns s ! i) @ concat (backlog (tx (fanout (main_loop s))) rx)"
    using polls_deliver [OF assms(1-4) refl assms(5)] by blast
  let ?n = "length (concat (outs s))" and ?c = "conns s' ! i"
  have v: "view_of backlog (fanout (main_loop s')) (outs s') ?c = Watching (?n - length (c_got ?c)) ?n"
    by (simp add: view_of_def s'(3,4,6,7,8) Let_def)
  have "in_sync (fanout (main_loop s')) (outs s') ?c" using reachable_in_sync [OF s'(2)] s'(5) by simp
  from shown_window [OF this] have "c_got ?c = window (view_of backlog (fanout (main_loop s')) (outs s') ?c) (concat (outs s))"
    using s'(3,6,7) by simp
  then have "c_got ?c = drop (?n - length (c_got ?c)) (concat (outs s))"
    unfolding v by (simp add: window_def)
  with s'(1,3,9) v show ?thesis by blast
qed

end

text \<open>
  Property C8. A client that is polled catches up: in every reachable state, for each client that is
  attached and served and no further behind than the channel keeps, as many steps of that client as
  chunks wait for it, with writes that succeed, bring its window to the end of the output: it has
  been sent everything from where it was let in, each byte once.
\<close>

theorem polled_client_catches_up:
  assumes "broadcast B live backlog bcap" and "reachable B S sc s" and "i < length (conns s)"
    and "running (c_task (conns s ! i))" "attached (c_task (conns s ! i)) = Some rx"
    and "length (backlog (tx (fanout (main_loop s))) rx) \<le> bcap (tx (fanout (main_loop s)))"
  shows "\<exists>s' p. (sys_step B S ^^ length (backlog (tx (fanout (main_loop s))) rx)) s s' \<and> outs s' = outs s
    \<and> view_of backlog (fanout (main_loop s')) (outs s') (conns s' ! i) = Watching p (length (concat (outs s)))
    \<and> c_got (conns s' ! i) = drop p (concat (outs s))
    \<and> c_got (conns s' ! i) = c_got (conns s ! i) @ concat (backlog (tx (fanout (main_loop s))) rx)"
  using broadcast.polled_catches_up [OF assms] .

theorem polled_client_catches_up_witness:
  "\<exists>s'. sys_step hist_bcast linux_sigs written_state s' \<and> c_got (conns s' ! 0) = [1, 2, 3]"
proof -
  have c: "0 < length (conns written_state)" "running (c_task (conns written_state ! 0))"
    "attached (c_task (conns written_state ! 0)) = Some 0" "c_got (conns written_state ! 0) = []"
    "tx (fanout (main_loop written_state)) = \<lparr>hist = [[1, 2, 3]], kept_cap = 4\<rparr>"
    by (simp_all add: written_state_def signalled_state_def typed_state_def run_defs shown_fan_def)
  from polled_client_catches_up [OF hb.broadcast_axioms reach_written c(1-3)] c(4,5)
  show ?thesis by auto
qed

section \<open>The life of a daemon\<close>

text \<open>What reached the program and its terminal.\<close>

definition program_side :: "('sig, 'ch, 'rx) system \<Rightarrow> Pty \<times> bytes \<times> (int \<times> 'sig) list \<times> bytes list" where
  "program_side s = (pty (main_loop s), typed (main_loop s), delivered (main_loop s), outs s)"

lemma step_advances:
  assumes "reachable B S sc s" and "sys_step B S s s'"
  shows "phase (main_loop s) \<le> phase (main_loop s')
    \<and> (phase (main_loop s) \<noteq> Looping \<longrightarrow> program_side s' = program_side s \<and> clients (main_loop s') = clients (main_loop s))"
  using assms(2)
proof (cases rule: sys_step.cases)
  case (Turn t d)
  have w: "ring_wf (ring (fanout (main_loop s)))" using reachable_ring [OF assms(1)] by blast
  have "program_side s' = program_side s \<and> clients d = clients (main_loop s)" if p: "phase (main_loop s) \<noteq> Looping"
  proof -
    have "read_in (main_loop s) t = []" using p by (simp add: read_in_def)
    then show ?thesis using p Turn(5)
      by (cases "phase (main_loop s)") (auto simp: Turn(1) program_side_def loop_turn_def)
  qed
  then show ?thesis using turn_advances [OF w Turn(5)] by (simp add: Turn(1))
next
  case (Event i e k efs)
  then show ?thesis by (simp add: program_side_def after_event_def Let_def)
qed

lemma run_advances:
  assumes "(sys_step B S)\<^sup>*\<^sup>* s s'" and "reachable B S sc s"
  shows "phase (main_loop s) \<le> phase (main_loop s')
    \<and> (phase (main_loop s) \<noteq> Looping \<longrightarrow> program_side s' = program_side s \<and> clients (main_loop s') = clients (main_loop s))"
  using assms(1)
proof induction
  case (step t u)
  have "reachable B S sc t" using requests.run_simulates [OF step(1) assms(2)] ..
  note s = step_advances [OF this step(2)]
  have "phase (main_loop t) \<noteq> Looping" if "phase (main_loop s) \<noteq> Looping"
    using step.IH that by (auto simp: less_eq_phase_def)
  moreover have "phase (main_loop s) \<le> phase (main_loop u)" using step.IH s by (blast intro: order_trans)
  ultimately show ?case using step.IH s by simp
qed simp

text \<open>
  Property C28. A daemon only goes forward: from looping to waiting for its child to stopped. Once the
  terminal of its program has closed it can only stop with the exit of the child, never because of a
  signal, and from then on, whatever its clients send, nothing more is read from the program or reaches it, no
  connection is accepted, and a daemon that has stopped stays stopped with the same reason.
\<close>

theorem daemon_only_advances:
  assumes "reachable B S sc s" and "(sys_step B S)\<^sup>*\<^sup>* s s'"
  shows "phase (main_loop s) \<le> phase (main_loop s')
    \<and> (phase (main_loop s) \<noteq> Looping \<longrightarrow>
        phase (main_loop s') \<notin> {Looping, Stopped DaemonSignaled} - {phase (main_loop s)}
        \<and> program_side s' = program_side s \<and> clients (main_loop s') = clients (main_loop s))
    \<and> (\<forall>r. phase (main_loop s) = Stopped r \<longrightarrow> phase (main_loop s') = Stopped r)"
proof -
  note r = run_advances [OF assms(2,1)]
  have "phase (main_loop s') \<notin> {Looping, Stopped DaemonSignaled} - {phase (main_loop s)}"
    if "phase (main_loop s) \<noteq> Looping"
    using r that by (cases "phase (main_loop s)") auto
  with r show ?thesis by auto
qed

definition closed_state :: "(int, hist_chan, nat) system" where
  "closed_state = written_state\<lparr>main_loop := (main_loop written_state)\<lparr>phase := AwaitingChild\<rparr>\<rparr>"

text \<open>The program closes its terminal, then exits with code 3.\<close>

lemma reach_closed: "reachable hist_bcast linux_sigs 2 closed_state"
proof (rule run_reachable [OF _ reach_written])
  show "sys_run hist_bcast linux_sigs written_state [LoopTurn (quiet_turn\<lparr>t_read := [IoError]\<rparr>)] = Some closed_state"
    by code_simp
qed

theorem daemon_only_advances_witness:
  "\<exists>s'. sys_step hist_bcast linux_sigs closed_state s' \<and> phase (main_loop s') = Stopped (ChildExited (Some 3))
     \<and> program_side s' = program_side closed_state"
proof -
  let ?s' = "closed_state\<lparr>main_loop := (main_loop closed_state)\<lparr>phase := Stopped (ChildExited (Some 3))\<rparr>\<rparr>"
  have s: "sys_step hist_bcast linux_sigs closed_state ?s'"
    by (rule do_step_sound [where a = "LoopTurn (quiet_turn\<lparr>t_exit := Some (Some 3)\<rparr>)"]) code_simp
  have "phase (main_loop closed_state) \<noteq> Looping" by (simp add: closed_state_def)
  with daemon_only_advances [OF reach_closed r_into_rtranclp [of "sys_step hist_bcast linux_sigs", OF s]]
  have "program_side ?s' = program_side closed_state" by blast
  with s show ?thesis by (intro exI [of _ ?s']) simp
qed

end
