(* ===== verification/Attach_Loop.thy ===== *)
theory Attach_Loop
  imports Framing
begin

text \<open>
  The attach side: the loop of crates/client/src/attach.rs. The loop waits for terminal input,
  for output of the daemon and for window sizes, whichever comes first; a run is a list of such
  events, and the theorems hold for every list. What each write achieves is part of the event: a
  write to the connection either succeeds or fails after some bytes.
\<close>

section \<open>Options, outcomes, state\<close>

record AttachOptions =
  detach_char :: "u8 option"
  suspend_char :: "u8 option"
  redraw_method :: RedrawMethod
  rows :: u16
  cols :: u16
  skip_ring :: bool

datatype AttachOutcome = Detached | Suspended | SessionEnded | InputClosed

datatype attach_error = InputError | SendError | ConnError | OutputError | FlushError

text \<open>
  What has been sent to the daemon and written to the terminal, and the receiver of window sizes:
  none, or its queue and whether the sender is gone.
\<close>

record client =
  conn_out :: bytes
  screen :: bytes
  resize_rx :: "((u16 \<times> u16) list \<times> bool) option"

text \<open>\<open>None\<close>: the write succeeds; \<open>Some k\<close>: it fails after \<open>k\<close> bytes.\<close>

type_synonym send_result = "nat option"

definition IO_BUFFER :: nat where "IO_BUFFER = 4096"

datatype attach_event =
    InputReady "bytes option" send_result send_result
  | ConnReady "bytes option" bool bool
  | ResizePolled send_result
  | WindowChanged "u16 \<times> u16"
  | WatcherGone

section \<open>The loop\<close>

text \<open>The earliest special byte; where both are the same byte it counts as suspend.\<close>

fun find_special_char :: "bytes \<Rightarrow> u8 option \<Rightarrow> u8 option \<Rightarrow> (nat \<times> AttachOutcome) option" where
  "find_special_char [] detach suspend = None"
| "find_special_char (b # bs) detach suspend =
     (if Some b = suspend then Some (0, Suspended)
      else if Some b = detach then Some (0, Detached)
      else map_option (\<lambda>(i, r). (Suc i, r)) (find_special_char bs detach suspend))"

definition send :: "send_result \<Rightarrow> client \<Rightarrow> Message \<Rightarrow> attach_error option \<times> client" where
  "send r c msg =
     (let out = encode msg [] in
      case r of
        None \<Rightarrow> (None, c\<lparr>conn_out := conn_out c @ out\<rparr>)
      | Some k \<Rightarrow> (Some SendError, c\<lparr>conn_out := conn_out c @ take k out\<rparr>))"

text \<open>\<open>None\<close>: pending.\<close>

definition recv_resize ::
    "((u16 \<times> u16) list \<times> bool) option
      \<Rightarrow> (u16 \<times> u16) option option \<times> ((u16 \<times> u16) list \<times> bool) option" where
  "recv_resize rx =
     (case rx of
        None \<Rightarrow> (None, None)
      | Some (sz # q, gone) \<Rightarrow> (Some (Some sz), Some (q, gone))
      | Some ([], gone) \<Rightarrow> (if gone then Some None else None, Some ([], gone)))"

definition on_input ::
    "AttachOptions \<Rightarrow> bytes option \<Rightarrow> send_result \<Rightarrow> send_result \<Rightarrow> client
      \<Rightarrow> (attach_error + AttachOutcome) option \<times> client" where
  "on_input opts r s1 s2 c =
     (case r of
        None \<Rightarrow> (Some (Inl InputError), c)
      | Some avail \<Rightarrow>
          let chunk = take IO_BUFFER avail in
          if chunk = [] then (Some (Inr InputClosed), c)
          else
            (case find_special_char chunk (detach_char opts) (suspend_char opts) of
               Some (pos, outcome) \<Rightarrow>
                 (case (if pos > 0 then send s1 c (Push (take pos chunk)) else (None, c)) of
                    (Some e, c) \<Rightarrow> (Some (Inl e), c)
                  | (None, c) \<Rightarrow>
                      if outcome = Suspended
                      then (case send s2 c Detach of
                              (Some e, c) \<Rightarrow> (Some (Inl e), c)
                            | (None, c) \<Rightarrow> (Some (Inr outcome), c))
                      else (Some (Inr outcome), c))
             | None \<Rightarrow>
                 (case send s1 c (Push chunk) of
                    (Some e, c) \<Rightarrow> (Some (Inl e), c)
                  | (None, c) \<Rightarrow> (None, c))))"

definition on_conn ::
    "bytes option \<Rightarrow> bool \<Rightarrow> bool \<Rightarrow> client \<Rightarrow> (attach_error + AttachOutcome) option \<times> client" where
  "on_conn r write_ok flush_ok c =
     (case r of
        None \<Rightarrow> (Some (Inl ConnError), c)
      | Some avail \<Rightarrow>
          let out = take IO_BUFFER avail in
          if out = [] then (Some (Inr SessionEnded), c)
          else if \<not> write_ok then (Some (Inl OutputError), c)
          else
            let c = c\<lparr>screen := screen c @ out\<rparr> in
            if \<not> flush_ok then (Some (Inl FlushError), c) else (None, c))"

definition on_resize :: "send_result \<Rightarrow> client \<Rightarrow> (attach_error + AttachOutcome) option \<times> client" where
  "on_resize s c =
     (case recv_resize (resize_rx c) of
        (None, rx) \<Rightarrow> (None, c\<lparr>resize_rx := rx\<rparr>)
      | (Some None, rx) \<Rightarrow> (None, c\<lparr>resize_rx := rx\<rparr>)
      | (Some (Some (r, w)), rx) \<Rightarrow>
          (case send s (c\<lparr>resize_rx := rx\<rparr>) (Winch r w) of
             (Some e, c) \<Rightarrow> (Some (Inl e), c)
           | (None, c) \<Rightarrow> (None, c)))"

text \<open>One event; the watcher's side only feeds the queue.\<close>

fun attach_step ::
    "AttachOptions \<Rightarrow> client \<Rightarrow> attach_event \<Rightarrow> (attach_error + AttachOutcome) option \<times> client" where
  "attach_step opts c (InputReady r s1 s2) = on_input opts r s1 s2 c"
| "attach_step opts c (ConnReady r w f) = on_conn r w f c"
| "attach_step opts c (ResizePolled s) = on_resize s c"
| "attach_step opts c (WindowChanged sz) =
     (None, c\<lparr>resize_rx := map_option (\<lambda>(q, gone). (q @ [sz], gone)) (resize_rx c)\<rparr>)"
| "attach_step opts c WatcherGone =
     (None, c\<lparr>resize_rx := map_option (\<lambda>(q, gone). (q, True)) (resize_rx c)\<rparr>)"

fun attach_loop ::
    "AttachOptions \<Rightarrow> client \<Rightarrow> attach_event list \<Rightarrow> (attach_error + AttachOutcome) option \<times> client" where
  "attach_loop opts c [] = (None, c)"
| "attach_loop opts c (e # es) =
     (case attach_step opts c e of
        (Some r, c') \<Rightarrow> (Some r, c')
      | (None, c') \<Rightarrow> attach_loop opts c' es)"

text \<open>The handshake, then the loop. \<open>None\<close> as a result: still running.\<close>

definition attach_run ::
    "AttachOptions \<Rightarrow> ((u16 \<times> u16) list \<times> bool) option \<Rightarrow> send_result \<Rightarrow> send_result \<Rightarrow> attach_event list
      \<Rightarrow> (attach_error + AttachOutcome) option \<times> client" where
  "attach_run opts rx s1 s2 es =
     (let c = \<lparr>conn_out = [], screen = [], resize_rx = rx\<rparr> in
      case send s1 c (Attach (skip_ring opts)) of
        (Some e, c) \<Rightarrow> (Some (Inl e), c)
      | (None, c) \<Rightarrow>
          (case send s2 c (Redraw (redraw_method opts) (rows opts) (cols opts)) of
             (Some e, c) \<Rightarrow> (Some (Inl e), c)
           | (None, c) \<Rightarrow> attach_loop opts c es))"

section \<open>Typed bytes\<close>

definition plain :: "AttachOptions \<Rightarrow> u8 \<Rightarrow> bool" where
  "plain opts b \<longleftrightarrow> Some b \<noteq> detach_char opts \<and> Some b \<noteq> suspend_char opts"

fun typed_at :: "attach_event \<Rightarrow> bytes" where
  "typed_at (InputReady (Some avail) _ _) = take IO_BUFFER avail"
| "typed_at _ = []"

fun shown_at :: "attach_event \<Rightarrow> bytes" where
  "shown_at (ConnReady (Some avail) _ _) = take IO_BUFFER avail"
| "shown_at _ = []"

abbreviation wire :: "Message list \<Rightarrow> bytes" where
  "wire ms \<equiv> concat (map (\<lambda>m. encode m []) ms)"

abbreviation is_error :: "('e + 'a) option \<Rightarrow> bool" where
  "is_error r \<equiv> (\<exists>e. r = Some (Inl e))"

lemma find_special_None:
  "find_special_char bs d s = None \<Longrightarrow> takeWhile (\<lambda>b. Some b \<noteq> d \<and> Some b \<noteq> s) bs = bs"
  by (induction bs) (auto split: if_splits)

lemma find_special_Some:
  "find_special_char bs d s = Some (pos, r) \<Longrightarrow>
    take pos bs = takeWhile (\<lambda>b. Some b \<noteq> d \<and> Some b \<noteq> s) bs \<and> pos < length bs \<and> r \<in> {Detached, Suspended}
    \<and> Some (bs ! pos) = (if r = Suspended then s else d)"
  by (induction bs arbitrary: pos) (auto split: if_splits)

lemma send_frame:
  "send r c m = (e, c') \<Longrightarrow> screen c' = screen c \<and> resize_rx c' = resize_rx c \<and>
    (\<exists>z. conn_out c' = conn_out c @ z \<and> prefix z (encode m []) \<and> (e = None \<longrightarrow> z = encode m []))
    \<and> e \<in> {None, Some SendError}"
  by (auto simp: send_def Let_def take_is_prefix split: option.splits)

text \<open>Window sizes: in the queue, arriving with an event, and in the messages sent.\<close>

definition size_queue :: "client \<Rightarrow> (u16 \<times> u16) list" where
  "size_queue c = (case resize_rx c of None \<Rightarrow> [] | Some (q, _) \<Rightarrow> q)"

fun changed_at :: "attach_event \<Rightarrow> (u16 \<times> u16) list" where
  "changed_at (WindowChanged sz) = [sz]"
| "changed_at _ = []"

fun winch_of :: "Message \<Rightarrow> (u16 \<times> u16) list" where
  "winch_of (Winch r w) = [(r, w)]"
| "winch_of _ = []"

text \<open>With a watcher, the sizes sent and those still queued are together those that came.\<close>

definition sizes_kept :: "client \<Rightarrow> client \<Rightarrow> (u16 \<times> u16) list \<Rightarrow> Message list \<Rightarrow> bool" where
  "sizes_kept c c' new ms \<longleftrightarrow>
     (resize_rx c \<noteq> None \<longrightarrow> resize_rx c' \<noteq> None \<and> concat (map winch_of ms) @ size_queue c' = size_queue c @ new)"

lemma encodable_push: "length d \<le> IO_BUFFER \<Longrightarrow> encodable default_codec (Push d)"
  by (simp add: encodable_def default_codec_def DEFAULT_MAX_FRAME_LEN_def IO_BUFFER_def)

lemma encodable_small [simp]:
  "encodable default_codec (Attach k)" "encodable default_codec Detach"
  "encodable default_codec (Winch a b)" "encodable default_codec (Redraw m a b)"
  by (simp_all add: encodable_def default_codec_def DEFAULT_MAX_FRAME_LEN_def put_u16_def)

text \<open>The messages of the loop, as against those of the handshake.\<close>

fun sendable :: "Message \<Rightarrow> bool" where
  "sendable (Push d) = encodable default_codec (Push d)"
| "sendable Detach = True"
| "sendable (Winch r w) = True"
| "sendable _ = False"

lemma sendable_push: "length d \<le> IO_BUFFER \<Longrightarrow> sendable (Push d)"
  by (simp add: encodable_push)

lemma sendable_encodable: "sendable m \<Longrightarrow> encodable default_codec m"
  by (cases m) simp_all

text \<open>What one event sends, as messages: \<open>ms\<close> is what the client set out to send.\<close>

definition sends :: "AttachOptions \<Rightarrow> client \<Rightarrow> client \<Rightarrow> (attach_error + AttachOutcome) option
    \<Rightarrow> bytes \<Rightarrow> (u16 \<times> u16) list \<Rightarrow> Message list \<Rightarrow> bool" where
  "sends opts c c' r inp new ms \<longleftrightarrow>
     (\<exists>z. conn_out c' = conn_out c @ z \<and> prefix z (wire ms) \<and> (\<not> is_error r \<longrightarrow> z = wire ms))
     \<and> (\<forall>m \<in> set ms. sendable m)
     \<and> concat (concat (map push_of ms)) = takeWhile (plain opts) inp
     \<and> (r = None \<longrightarrow> (\<forall>b \<in> set inp. plain opts b))
     \<and> (r \<in> {Some (Inr Detached), Some (Inr Suspended)} \<longrightarrow> (\<exists>b \<in> set inp. \<not> plain opts b))
     \<and> (\<not> is_error r \<longrightarrow> (Detach \<in> set ms \<longleftrightarrow> r = Some (Inr Suspended)) \<and> sizes_kept c c' new ms)"

lemma sizes_same: "resize_rx c' = resize_rx c \<Longrightarrow> concat (map winch_of ms) = [] \<Longrightarrow> sizes_kept c c' [] ms"
  by (simp add: sizes_kept_def size_queue_def)

lemma on_input_sends:
  assumes "on_input opts r s1 s2 c = (res, c')"
  shows "\<exists>ms. sends opts c c' res (typed_at (InputReady r s1 s2)) [] ms \<and> screen c' = screen c"
proof (cases r)
  case None
  then show ?thesis using assms by (intro exI [of _ "[]"]) (auto simp: on_input_def sends_def sizes_same)
next
  case (Some avail)
  define chunk where "chunk = take IO_BUFFER avail"
  note ch = chunk_def [symmetric]
  have len: "length chunk \<le> IO_BUFFER" by (simp add: chunk_def)
  show ?thesis
  proof (cases "chunk = []")
    case True
    then show ?thesis using assms Some
      by (intro exI [of _ "[]"]) (auto simp: on_input_def sends_def Let_def ch sizes_same)
  next
    case ne: False
    show ?thesis
    proof (cases "find_special_char chunk (detach_char opts) (suspend_char opts)")
      case n: None
      have all: "takeWhile (plain opts) chunk = chunk"
        using find_special_None [OF n] by (simp add: plain_def [abs_def])
      obtain e c1 where s: "send s1 c (Push chunk) = (e, c1)" by fastforce
      note f = send_frame [OF s]
      have "res = map_option Inl e \<and> c' = c1"
        using assms Some ne n s by (simp add: on_input_def Let_def ch split: option.splits)
      moreover have "\<forall>b \<in> set chunk. plain opts b" using all by (simp only: takeWhile_eq_all_conv)
      ultimately show ?thesis using f Some sendable_push [OF len]
        by (intro exI [of _ "[Push chunk]"]) (auto simp: sends_def ch all sizes_same)
    next
      case sp: (Some po)
      obtain pos out where po: "po = (pos, out)" by fastforce
      note fs = find_special_Some [OF sp [unfolded po]]
      have tw: "take pos chunk = takeWhile (plain opts) chunk"
        using fs by (simp add: plain_def [abs_def])
      have spec: "\<exists>b \<in> set chunk. \<not> plain opts b"
        using fs nth_mem [of pos chunk] by (auto simp: plain_def split: if_splits)
      define ms where "ms = (if pos > 0 then [Push (take pos chunk)] else [])"
      obtain e c1 where s: "(if pos > 0 then send s1 c (Push (take pos chunk)) else (None, c)) = (e, c1)"
        by fastforce
      have f: "screen c1 = screen c \<and> resize_rx c1 = resize_rx c \<and> (\<exists>z. conn_out c1 = conn_out c @ z \<and> prefix z (wire ms)
          \<and> (e = None \<longrightarrow> z = wire ms))"
        using s send_frame [of s1 c "Push (take pos chunk)" e c1]
        by (auto simp: ms_def simp del: encode.simps split: if_splits)
      have pushes: "concat (concat (map push_of ms)) = takeWhile (plain opts) chunk"
        using tw by (cases "pos = 0") (simp_all add: ms_def)
      have enc: "\<forall>m \<in> set ms. sendable m"
        using sendable_push len by (simp add: ms_def)
      have nd: "Detach \<notin> set ms" "concat (map winch_of ms) = []" by (simp_all add: ms_def)
      show ?thesis
      proof (cases e)
        case (Some x)
        then have "res = Some (Inl x)" "c' = c1"
          using assms \<open>r = Some avail\<close> ne sp po s by (simp_all add: on_input_def Let_def ch)
        then show ?thesis using f pushes enc \<open>r = Some avail\<close>
          by (intro exI [of _ ms]) (auto simp: sends_def ch nd sizes_same)
      next
        case None
        show ?thesis
        proof (cases "out = Suspended")
          case False
          then have "res = Some (Inr out)" "c' = c1" "out = Detached"
            using assms \<open>r = Some avail\<close> ne sp po s None fs by (auto simp: on_input_def Let_def ch)
          then show ?thesis using f pushes enc \<open>r = Some avail\<close> spec None
            by (intro exI [of _ ms]) (auto simp: sends_def ch nd sizes_same)
        next
          case True
          obtain e2 c2 where s2: "send s2 c1 Detach = (e2, c2)" by fastforce
          note f2 = send_frame [OF s2]
          have r: "res = (case e2 of Some x \<Rightarrow> Some (Inl x) | None \<Rightarrow> Some (Inr Suspended))" "c' = c2"
            using assms \<open>r = Some avail\<close> ne sp po s None True s2
            by (simp_all add: on_input_def Let_def ch split: option.splits)
          obtain z z2 where z: "conn_out c2 = conn_out c @ wire ms @ z2" "prefix z2 (encode Detach [])"
            "e2 = None \<longrightarrow> z2 = encode Detach []"
            using f f2 None by auto
          have "concat (concat (map push_of (ms @ [Detach]))) = takeWhile (plain opts) chunk"
            using pushes by simp
          then show ?thesis using z r f f2 enc \<open>r = Some avail\<close> spec
            by (intro exI [of _ "ms @ [Detach]"]) (auto simp: sends_def ch nd sizes_same split: option.splits)
        qed
      qed
    qed
  qed
qed

lemma recv_resize_cases:
  assumes "recv_resize rx = (r, rx')"
  shows "r = Some (Some sz) \<Longrightarrow> \<exists>q gone. rx = Some (sz # q, gone) \<and> rx' = Some (q, gone)"
    and "r \<in> {None, Some None} \<Longrightarrow> rx' = rx"
  using assms by (auto simp: recv_resize_def split: option.splits list.splits if_splits)

lemma sizes_kept_trans:
  "sizes_kept c c1 new ms \<Longrightarrow> sizes_kept c1 c2 new' ms' \<Longrightarrow> sizes_kept c c2 (new @ new') (ms @ ms')"
  unfolding sizes_kept_def by (metis append.assoc concat_append map_append)

lemma sizes_kept_more:
  assumes "sizes_kept c c1 new ms" and "resize_rx c \<noteq> None"
    and "resize_rx c1 \<noteq> None \<longrightarrow> prefix (concat (map winch_of ms')) (size_queue c1 @ new')"
  shows "prefix (concat (map winch_of (ms @ ms'))) (size_queue c @ new @ new')"
proof -
  have "concat (map winch_of ms) @ size_queue c1 @ new' = size_queue c @ new @ new'"
    "prefix (concat (map winch_of ms')) (size_queue c1 @ new')"
    using assms by (simp_all add: sizes_kept_def)
  then show ?thesis by (metis concat_append map_append same_prefix_prefix)
qed

lemma on_resize_sends:
  assumes "on_resize s c = (res, c')"
  shows "\<exists>ms. sends opts c c' res [] [] ms \<and> screen c' = screen c"
proof (cases "fst (recv_resize (resize_rx c))")
  case None
  then obtain rx where rx: "recv_resize (resize_rx c) = (None, rx)" by (metis prod.collapse)
  have "rx = resize_rx c" by (rule recv_resize_cases(2) [OF rx]) simp
  then show ?thesis using assms rx
    by (intro exI [of _ "[]"]) (auto simp: on_resize_def sends_def sizes_same)
next
  case (Some sz)
  obtain rx where rx: "recv_resize (resize_rx c) = (Some sz, rx)" using Some by (metis prod.collapse)
  show ?thesis
  proof (cases sz)
    case None
    have "rx = resize_rx c" by (rule recv_resize_cases(2) [OF rx]) (simp add: None)
    then show ?thesis using assms rx None
      by (intro exI [of _ "[]"]) (auto simp: on_resize_def sends_def sizes_same)
  next
    case (Some rw)
    obtain r w where rw: "rw = (r, w)" by fastforce
    obtain e c1 where s: "send s (c\<lparr>resize_rx := rx\<rparr>) (Winch r w) = (e, c1)" by fastforce
    have "res = map_option Inl e \<and> c' = c1"
      using assms rx Some rw s by (simp add: on_resize_def split: option.splits)
    moreover obtain q gone where "resize_rx c = Some ((r, w) # q, gone)" "rx = Some (q, gone)"
      using recv_resize_cases(1) [OF rx] Some rw by blast
    ultimately show ?thesis using send_frame [OF s]
      by (intro exI [of _ "[Winch r w]"]) (auto simp: sends_def sizes_kept_def size_queue_def)
  qed
qed

lemma step_sends:
  assumes "attach_step opts c e = (res, c')"
  shows "\<exists>ms. sends opts c c' res (typed_at e) (changed_at e) ms"
proof (cases e)
  case (InputReady r s1 s2)
  then show ?thesis using assms on_input_sends [of opts r s1 s2 c res c'] by auto
next
  case (ConnReady r w f)
  then show ?thesis using assms
    by (intro exI [of _ "[]"])
      (auto simp: on_conn_def sends_def sizes_same Let_def split: option.splits if_splits)
next
  case (ResizePolled s)
  then show ?thesis using assms on_resize_sends [of s c res c' opts] by auto
next
  case (WindowChanged sz)
  then show ?thesis using assms
    by (intro exI [of _ "[]"]) (auto simp: sends_def sizes_kept_def size_queue_def)
next
  case WatcherGone
  then show ?thesis using assms
    by (intro exI [of _ "[]"]) (auto simp: sends_def sizes_kept_def size_queue_def)
qed

lemma takeWhile_plain_append:
  "takeWhile P (xs @ ys) = (if \<forall>x \<in> set xs. P x then xs @ takeWhile P ys else takeWhile P xs)"
  by (induction xs) auto

lemma takeWhile_plain_prefix: "prefix (takeWhile P xs) (takeWhile P (xs @ ys))"
  by (induction xs) auto

lemma loop_sends:
  assumes "attach_loop opts c es = (res, c')"
  shows "\<exists>ms z. conn_out c' = conn_out c @ z \<and> prefix z (wire ms) \<and> (\<not> is_error res \<longrightarrow> z = wire ms)
    \<and> (\<forall>m \<in> set ms. sendable m)
    \<and> prefix (concat (concat (map push_of ms))) (takeWhile (plain opts) (concat (map typed_at es)))
    \<and> (res \<in> {None, Some (Inr Detached), Some (Inr Suspended)} \<longrightarrow>
        concat (concat (map push_of ms)) = takeWhile (plain opts) (concat (map typed_at es)))
    \<and> (\<not> is_error res \<longrightarrow> (Detach \<in> set ms \<longleftrightarrow> res = Some (Inr Suspended)))
    \<and> (\<not> is_error res \<and> resize_rx c \<noteq> None \<longrightarrow>
        prefix (concat (map winch_of ms)) (size_queue c @ concat (map changed_at es)))
    \<and> (res = None \<longrightarrow> sizes_kept c c' (concat (map changed_at es)) ms)"
  using assms
proof (induction es arbitrary: c)
  case Nil
  then show ?case by (intro exI [of _ "[]"]) (auto simp: sizes_same)
next
  case (Cons e es)
  obtain r c1 where st: "attach_step opts c e = (r, c1)" by fastforce
  obtain ms1 where 1: "sends opts c c1 r (typed_at e) (changed_at e) ms1" using step_sends [OF st] by blast
  obtain z1 where z1: "conn_out c1 = conn_out c @ z1" "prefix z1 (wire ms1)"
    "\<not> is_error r \<longrightarrow> z1 = wire ms1"
    using 1 by (auto simp: sends_def)
  note 1 = 1 [unfolded sends_def]
  show ?case
  proof (cases r)
    case (Some x)
    then have "res = Some x" "c' = c1" using Cons.prems st by simp_all
    moreover have "prefix (takeWhile (plain opts) (typed_at e))
        (takeWhile (plain opts) (concat (map typed_at (e # es))))"
      using takeWhile_plain_prefix by simp
    moreover have "takeWhile (plain opts) (concat (map typed_at (e # es))) = takeWhile (plain opts) (typed_at e)"
      if "r \<in> {Some (Inr Detached), Some (Inr Suspended)}"
      using that 1 by (auto simp: takeWhile_plain_append)
    moreover have "prefix (concat (map winch_of ms1)) (size_queue c @ concat (map changed_at (e # es)))"
      if "\<not> is_error r" "resize_rx c \<noteq> None"
      using sizes_kept_more [of c c1 "changed_at e" ms1 "[]" "concat (map changed_at es)"] 1 that by simp
    ultimately show ?thesis using 1 z1 Some
      by (intro exI [of _ ms1] exI [of _ z1]) (simp del: concat.simps list.map)
  next
    case None
    then have "attach_loop opts c1 es = (res, c')" using Cons.prems st by simp
    from Cons.IH [OF this] obtain ms z where 2: "conn_out c' = conn_out c1 @ z" "prefix z (wire ms)"
      "\<not> is_error res \<longrightarrow> z = wire ms" "\<forall>m \<in> set ms. sendable m"
      "prefix (concat (concat (map push_of ms))) (takeWhile (plain opts) (concat (map typed_at es)))"
      "res \<in> {None, Some (Inr Detached), Some (Inr Suspended)} \<longrightarrow>
        concat (concat (map push_of ms)) = takeWhile (plain opts) (concat (map typed_at es))"
      "\<not> is_error res \<longrightarrow> (Detach \<in> set ms \<longleftrightarrow> res = Some (Inr Suspended))"
      "\<not> is_error res \<and> resize_rx c1 \<noteq> None \<longrightarrow>
        prefix (concat (map winch_of ms)) (size_queue c1 @ concat (map changed_at es))"
      "res = None \<longrightarrow> sizes_kept c1 c' (concat (map changed_at es)) ms" by blast
    have k: "sizes_kept c c1 (changed_at e) ms1" using 1 None by simp
    have "prefix (concat (map winch_of (ms1 @ ms))) (size_queue c @ concat (map changed_at (e # es)))"
      if "\<not> is_error res" "resize_rx c \<noteq> None"
      using sizes_kept_more [OF k that(2), of ms "concat (map changed_at es)"] 2(8) that(1) by simp
    moreover have "sizes_kept c c' (concat (map changed_at (e # es))) (ms1 @ ms)" if "res = None"
      using sizes_kept_trans [OF k] 2(9) that by simp
    moreover have p: "\<forall>b \<in> set (typed_at e). plain opts b" "Detach \<notin> set ms1" "z1 = wire ms1"
      "concat (concat (map push_of ms1)) = typed_at e" "\<forall>m \<in> set ms1. sendable m"
      using 1 z1(3) None by (simp_all add: takeWhile_eq_all_conv [THEN iffD2])
    moreover have "concat (concat (map push_of (ms1 @ ms))) = typed_at e @ concat (concat (map push_of ms))"
      by (simp add: p(4))
    moreover have "takeWhile (plain opts) (concat (map typed_at (e # es))) =
        typed_at e @ takeWhile (plain opts) (concat (map typed_at es))"
      using p(1) by (simp add: takeWhile_plain_append)
    ultimately show ?thesis using 2 p(2,3,5) z1(1)
      by (intro exI [of _ "ms1 @ ms"] exI [of _ "z1 @ z"]) (simp add: ball_Un)
  qed
qed

text \<open>The terminal is given what the daemon sent.\<close>

lemma step_screen:
  assumes "attach_step opts c e = (res, c')"
  shows "prefix (screen c') (screen c @ shown_at e) \<and> prefix (screen c) (screen c')
    \<and> (res = None \<longrightarrow> screen c' = screen c @ shown_at e)"
proof (cases e)
  case (InputReady r s1 s2)
  then show ?thesis using assms on_input_sends [of opts r s1 s2 c res c'] by auto
next
  case (ConnReady r w f)
  then show ?thesis using assms
    by (auto simp: on_conn_def Let_def split: option.splits if_splits)
next
  case (ResizePolled s)
  then show ?thesis using assms on_resize_sends [of s c res c' opts] by auto
qed (use assms in auto)

lemma loop_screen:
  "attach_loop opts c es = (res, c') \<Longrightarrow>
    prefix (screen c') (screen c @ concat (map shown_at es))
    \<and> (res = None \<longrightarrow> screen c' = screen c @ concat (map shown_at es))"
proof (induction es arbitrary: c)
  case (Cons e es)
  obtain r c1 where st: "attach_step opts c e = (r, c1)" by fastforce
  note s = step_screen [OF st]
  show ?case
  proof (cases r)
    case None
    then show ?thesis using Cons.IH [of c1] Cons.prems st s by simp
  next
    case (Some x)
    then have "res = Some x" "c' = c1" using Cons.prems st by simp_all
    moreover have "prefix (screen c1) (screen c @ shown_at e @ concat (map shown_at es))"
      using s prefix_prefix by (metis append.assoc)
    ultimately show ?thesis by simp
  qed
qed simp

text \<open>The whole run, handshake included.\<close>

lemma run_sends:
  assumes "attach_run opts rx s1 s2 es = (res, c)"
  shows "\<exists>ms. prefix (conn_out c) (wire ms) \<and> (\<not> is_error res \<longrightarrow> conn_out c = wire ms)
    \<and> (\<forall>m \<in> set ms. encodable default_codec m)
    \<and> prefix (concat (concat (map push_of ms))) (takeWhile (plain opts) (concat (map typed_at es)))
    \<and> (res \<in> {None, Some (Inr Detached), Some (Inr Suspended)} \<longrightarrow>
        concat (concat (map push_of ms)) = takeWhile (plain opts) (concat (map typed_at es)))
    \<and> (\<not> is_error res \<longrightarrow> (Detach \<in> set ms \<longleftrightarrow> res = Some (Inr Suspended))
        \<and> (\<exists>ms'. ms = [Attach (skip_ring opts), Redraw (redraw_method opts) (rows opts) (cols opts)] @ ms'
            \<and> (\<forall>m \<in> set ms'. sendable m)
            \<and> (rx \<noteq> None \<longrightarrow> prefix (concat (map winch_of ms')) (fst (the rx) @ concat (map changed_at es)))
            \<and> (res = None \<and> rx \<noteq> None \<longrightarrow>
                concat (map winch_of ms') @ size_queue c = fst (the rx) @ concat (map changed_at es))))"
proof -
  let ?c = "\<lparr>conn_out = [], screen = [], resize_rx = rx\<rparr>"
  let ?a = "Attach (skip_ring opts)" and ?r = "Redraw (redraw_method opts) (rows opts) (cols opts)"
  obtain e1 c1 where a: "send s1 ?c ?a = (e1, c1)" by fastforce
  note fa = send_frame [OF a]
  show ?thesis
  proof (cases e1)
    case (Some x)
    then have "res = Some (Inl x)" "c = c1" using assms a by (simp_all add: attach_run_def Let_def)
    then show ?thesis using fa Some by (intro exI [of _ "[?a]"]) (auto simp del: encode.simps)
  next
    case n1: None
    then have o1: "conn_out c1 = encode ?a []" using fa by auto
    obtain e2 c2 where r: "send s2 c1 ?r = (e2, c2)" by fastforce
    note fr = send_frame [OF r]
    show ?thesis
    proof (cases e2)
      case (Some x)
      then have "res = Some (Inl x)" "c = c2" using assms a n1 r by (simp_all add: attach_run_def Let_def)
      then show ?thesis using fr Some o1
        by (intro exI [of _ "[?a, ?r]"]) (auto simp del: encode.simps)
    next
      case None
      then have l: "attach_loop opts c2 es = (res, c)" using assms a n1 r by (simp add: attach_run_def Let_def)
      have o2: "conn_out c2 = wire [?a, ?r]" using fr None o1 by auto
      obtain ms z where "conn_out c = conn_out c2 @ z" "prefix z (wire ms)" "\<not> is_error res \<longrightarrow> z = wire ms"
        "\<forall>m \<in> set ms. sendable m"
        "prefix (concat (concat (map push_of ms))) (takeWhile (plain opts) (concat (map typed_at es)))"
        "res \<in> {None, Some (Inr Detached), Some (Inr Suspended)} \<longrightarrow>
          concat (concat (map push_of ms)) = takeWhile (plain opts) (concat (map typed_at es))"
        "\<not> is_error res \<longrightarrow> (Detach \<in> set ms \<longleftrightarrow> res = Some (Inr Suspended))"
        "\<not> is_error res \<and> resize_rx c2 \<noteq> None \<longrightarrow>
          prefix (concat (map winch_of ms)) (size_queue c2 @ concat (map changed_at es))"
        "res = None \<longrightarrow> sizes_kept c2 c (concat (map changed_at es)) ms"
        using loop_sends [OF l] by blast
      moreover have "resize_rx c2 = rx" using fr fa by simp
      moreover from this have "rx \<noteq> None \<longrightarrow> size_queue c2 = fst (the rx)"
        by (auto simp: size_queue_def)
      ultimately show ?thesis
        by (intro exI [of _ "[?a, ?r] @ ms"]) (auto simp: o2 sendable_encodable sizes_kept_def simp del: encode.simps)
    qed
  qed
qed

lemma run_screen:
  assumes "attach_run opts rx s1 s2 es = (res, c)"
  shows "prefix (screen c) (concat (map shown_at es))
    \<and> (res = None \<longrightarrow> screen c = concat (map shown_at es))"
proof -
  let ?c = "\<lparr>conn_out = [], screen = [], resize_rx = rx\<rparr>"
  obtain e1 c1 where a: "send s1 ?c (Attach (skip_ring opts)) = (e1, c1)" by fastforce
  obtain e2 c2 where r: "send s2 c1 (Redraw (redraw_method opts) (rows opts) (cols opts)) = (e2, c2)"
    by fastforce
  show ?thesis using assms a r send_frame [OF a] send_frame [OF r] loop_screen [of opts c2 es res c]
    by (auto simp: attach_run_def Let_def split: option.splits)
qed

text \<open>A run that goes on, with more events.\<close>

lemma loop_more:
  "attach_loop opts c es = (None, c') \<Longrightarrow> attach_loop opts c (es @ fs) = attach_loop opts c' fs"
  by (induction es arbitrary: c) (auto split: prod.splits option.splits)

lemma run_more:
  "attach_run opts rx s1 s2 es = (None, c) \<Longrightarrow> attach_run opts rx s1 s2 (es @ fs) = attach_loop opts c fs"
  by (auto simp: attach_run_def Let_def loop_more split: prod.splits option.splits)

lemma find_special_first:
  "b \<notin> set xs \<Longrightarrow> find_special_char (xs @ b # ys) (Some b) None = Some (length xs, Detached)"
  by (induction xs) auto

section \<open>Properties\<close>

definition usual_options :: AttachOptions where
  "usual_options = \<lparr>detach_char = Some 0x1c, suspend_char = Some 0x1a, redraw_method = WinchRedraw,
     rows = 24, cols = 80, skip_ring = False\<rparr>"

text \<open>What the daemon's decoder makes of a run, however the connection cuts it into reads.\<close>

lemma run_arrives:
  assumes "attach_run opts rx s1 s2 es = (res, c)" and "\<forall>e. res \<noteq> Some (Inl e)"
    and "concat reads = conn_out c"
  shows "\<exists>ms. feed default_codec [] reads =
        ([Attach (skip_ring opts), Redraw (redraw_method opts) (rows opts) (cols opts)] @ ms, None, [])
    \<and> (\<forall>m \<in> set ms. sendable m)
    \<and> prefix (concat (concat (map push_of ms))) (takeWhile (plain opts) (concat (map typed_at es)))
    \<and> (res \<in> {None, Some (Inr Detached), Some (Inr Suspended)} \<longrightarrow>
        concat (concat (map push_of ms)) = takeWhile (plain opts) (concat (map typed_at es)))
    \<and> (Detach \<in> set ms \<longleftrightarrow> res = Some (Inr Suspended))
    \<and> (rx \<noteq> None \<longrightarrow> prefix (concat (map winch_of ms)) (fst (the rx) @ concat (map changed_at es)))
    \<and> (res = None \<and> rx \<noteq> None \<longrightarrow>
        concat (map winch_of ms) @ size_queue c = fst (the rx) @ concat (map changed_at es))"
proof -
  let ?hello = "[Attach (skip_ring opts), Redraw (redraw_method opts) (rows opts) (cols opts)]"
  have "\<not> is_error res" using assms(2) by blast
  then obtain m ms where m: "m = ?hello @ ms" and c: "conn_out c = wire m" "\<forall>m \<in> set m. encodable default_codec m"
    and s: "\<forall>m \<in> set ms. sendable m"
    and push: "prefix (concat (concat (map push_of m))) (takeWhile (plain opts) (concat (map typed_at es)))"
      "res \<in> {None, Some (Inr Detached), Some (Inr Suspended)} \<longrightarrow>
        concat (concat (map push_of m)) = takeWhile (plain opts) (concat (map typed_at es))"
    and d: "Detach \<in> set m \<longleftrightarrow> res = Some (Inr Suspended)"
    and size: "rx \<noteq> None \<longrightarrow> prefix (concat (map winch_of ms)) (fst (the rx) @ concat (map changed_at es))"
      "res = None \<and> rx \<noteq> None \<longrightarrow>
        concat (map winch_of ms) @ size_queue c = fst (the rx) @ concat (map changed_at es)"
    using run_sends [OF assms(1)] by blast
  have "feed default_codec [] reads = (m, None, [])"
    by (rule ctl.fd_any_split) (use c assms(3) in \<open>simp_all only: wire_encode\<close>)
  moreover have "concat (concat (map push_of m)) = concat (concat (map push_of ms))" "Detach \<in> set m \<longleftrightarrow> Detach \<in> set ms"
    by (simp_all add: m)
  ultimately show ?thesis using s push d size unfolding m by (intro exI [of _ ms]) simp
qed

lemma typed_arrives:
  assumes "attach_run opts rx s1 s2 es = (res, c)" and "\<forall>e. res \<noteq> Some (Inl e)"
    and "concat reads = conn_out c"
  shows "\<exists>ms. feed default_codec [] reads = (ms, None, [])
    \<and> prefix [Attach (skip_ring opts), Redraw (redraw_method opts) (rows opts) (cols opts)] ms
    \<and> prefix (concat (concat (map push_of ms))) (takeWhile (plain opts) (concat (map typed_at es)))
    \<and> (res \<in> {None, Some (Inr Detached), Some (Inr Suspended)} \<longrightarrow>
        concat (concat (map push_of ms)) = takeWhile (plain opts) (concat (map typed_at es)))
    \<and> (Detach \<in> set ms \<longleftrightarrow> res = Some (Inr Suspended))"
proof -
  let ?hello = "[Attach (skip_ring opts), Redraw (redraw_method opts) (rows opts) (cols opts)]"
  obtain ms where "feed default_codec [] reads = (?hello @ ms, None, [])"
    "prefix (concat (concat (map push_of ms))) (takeWhile (plain opts) (concat (map typed_at es)))"
    "res \<in> {None, Some (Inr Detached), Some (Inr Suspended)} \<longrightarrow>
      concat (concat (map push_of ms)) = takeWhile (plain opts) (concat (map typed_at es))"
    "Detach \<in> set ms \<longleftrightarrow> res = Some (Inr Suspended)"
    using run_arrives [OF assms] by blast
  then show ?thesis by (intro exI [of _ "?hello @ ms"]) simp
qed

text \<open>
  Typing arrives: however terminal input, output and resizes interleave, and however
  the connection cuts the stream into reads, the daemon's decoder gets the attach and the redraw
  first and then messages whose pushed bytes are the typed bytes up to the first special byte, in
  order, none lost, repeated or reordered (a beginning of them if the session ended or the input
  ran dry first); it is told to detach exactly when the user suspended. Nothing typed after the
  special byte, nor the byte itself, is ever sent.
\<close>

theorem typed_input_arrives:
  assumes "attach_run opts rx s1 s2 es = (res, c)" and "\<forall>e. res \<noteq> Some (Inl e)"
    and "concat reads = conn_out c"
  shows "\<exists>ms. feed default_codec [] reads = (ms, None, [])
    \<and> prefix [Attach (skip_ring opts), Redraw (redraw_method opts) (rows opts) (cols opts)] ms
    \<and> prefix (concat (concat (map push_of ms))) (takeWhile (plain opts) (concat (map typed_at es)))
    \<and> (res \<in> {None, Some (Inr Detached), Some (Inr Suspended)} \<longrightarrow>
        concat (concat (map push_of ms)) = takeWhile (plain opts) (concat (map typed_at es)))
    \<and> (Detach \<in> set ms \<longleftrightarrow> res = Some (Inr Suspended))"
  using assms by (rule typed_arrives)

theorem typed_input_arrives_witness:
  "\<exists>ms. feed default_codec [] [[1, 0, 0, 0, 1], [0, 4, 0, 0, 0, 5, 3, 0, 24, 0, 80, 0, 0, 0], [0, 2, 108, 115]]
      = (ms, None, [])
    \<and> concat (concat (map push_of ms)) = [108, 115]"
proof -
  have r: "attach_run usual_options None None None
      [ConnReady (Some [36, 32]) True True, InputReady (Some [108, 115, 0x1c, 120]) None None] =
      (Some (Inr Detached), \<lparr>conn_out = [1, 0, 0, 0, 1, 0, 4, 0, 0, 0, 5, 3, 0, 24, 0, 80, 0, 0, 0, 0, 2, 108, 115],
        screen = [36, 32], resize_rx = None\<rparr>)"
    by code_simp
  from typed_input_arrives [OF r, of "[[1, 0, 0, 0, 1], [0, 4, 0, 0, 0, 5, 3, 0, 24, 0, 80, 0, 0, 0], [0, 2, 108, 115]]"]
  show ?thesis by (auto simp: usual_options_def plain_def IO_BUFFER_def)
qed

text \<open>
  Output is shown as it comes: at every moment of a run the terminal has been given
  an unchanged beginning of what the daemon sent, and all of it, flushed, while the loop goes on.
\<close>

theorem output_is_shown:
  assumes "attach_run opts rx s1 s2 es = (res, c)"
  shows "prefix (screen c) (concat (map shown_at es))
    \<and> (res = None \<longrightarrow> screen c = concat (map shown_at es))"
  using assms by (rule run_screen)

theorem output_is_shown_witness:
  "\<exists>c. attach_run usual_options None None None
        [ConnReady (Some [36, 32]) True True, ConnReady (Some [7]) True False] = (Some (Inl FlushError), c)
    \<and> prefix (screen c) [36, 32, 7]"
proof -
  have r: "attach_run usual_options None None None
        [ConnReady (Some [36, 32]) True True, ConnReady (Some [7]) True False] =
      (Some (Inl FlushError), \<lparr>conn_out = [1, 0, 0, 0, 1, 0, 4, 0, 0, 0, 5, 3, 0, 24, 0, 80],
        screen = [36, 32, 7], resize_rx = None\<rparr>)"
    by code_simp
  from output_is_shown [OF r] r show ?thesis by (simp add: IO_BUFFER_def)
qed

text \<open>
  A lost resize watcher makes the loop spin: once the sender of the window sizes is
  gone and its queue empty, that branch of the select is ready in every turn and changes nothing,
  so the loop never waits again.
\<close>

theorem closed_watcher_spins:
  assumes "resize_rx c = Some ([], True)"
  shows "fst (recv_resize (resize_rx c)) = Some None
    \<and> attach_loop opts c (replicate n (ResizePolled s)) = (None, c)"
proof -
  have "attach_step opts c (ResizePolled s) = (None, c)"
    using assms by (cases c) (simp add: on_resize_def recv_resize_def)
  then have "attach_loop opts c (replicate n (ResizePolled s)) = (None, c)"
    by (induction n) simp_all
  then show ?thesis using assms by (simp add: recv_resize_def)
qed

theorem closed_watcher_spins_witness:
  "fst (recv_resize (resize_rx \<lparr>conn_out = [], screen = [], resize_rx = Some ([], True)\<rparr>)) = Some None
   \<and> attach_loop usual_options \<lparr>conn_out = [], screen = [], resize_rx = Some ([], True)\<rparr>
       (replicate 9 (ResizePolled None)) = (None, \<lparr>conn_out = [], screen = [], resize_rx = Some ([], True)\<rparr>)"
  by (rule closed_watcher_spins) simp

end
