(* ===== verification/Polling.thy ===== *)
theory Polling
  imports Hytch_Prelude
begin

text \<open>
  The loop the command line waits with (\<open>wait_gone\<close> of crates/cli/src/commands.rs,
  \<open>wait_for_socket\<close> of crates/cli/src/spawn.rs): look, sleep for a period, until there is what one
  waits for or the deadline has passed, then look once more. The locale is what the two loops
  share; \<open>late\<close> is how much longer than the period the sleep begun at a time took.
\<close>

primrec poll_time :: "nat \<Rightarrow> (nat \<Rightarrow> nat) \<Rightarrow> nat \<Rightarrow> nat \<Rightarrow> nat" where
  "poll_time period late now 0 = now"
| "poll_time period late now (Suc k) =
     poll_time period late now k + period + late (poll_time period late now k)"

lemma poll_time_ge: "now + period * k \<le> poll_time period late now k"
  by (induction k) auto

lemma poll_time_Suc:
  "poll_time period late (now + period + late now) k = poll_time period late now (Suc k)"
  by (induction k) simp_all

locale polling =
  fixes period :: nat
    and poll :: "(nat \<Rightarrow> bool) \<Rightarrow> (nat \<Rightarrow> nat) \<Rightarrow> nat \<Rightarrow> nat \<Rightarrow> bool \<times> nat"
  assumes period_pos: "0 < period"
    and poll_unfold: "poll ready late deadline now =
      (if now < deadline
       then if ready now then (True, now) else poll ready late deadline (now + period + late now)
       else (ready now, now))"
begin

text \<open>It stops at the first look that succeeds or is past the deadline, and tells what it saw.\<close>

lemma poll_stops:
  "\<exists>k. poll ready late deadline now = (ready (poll_time period late now k), poll_time period late now k)
    \<and> (\<forall>j < k. poll_time period late now j < deadline \<and> \<not> ready (poll_time period late now j))
    \<and> (deadline \<le> poll_time period late now k \<or> ready (poll_time period late now k))"
proof (induction "deadline - now" arbitrary: now rule: less_induct)
  case less
  note step = poll_unfold [of ready late deadline now]
  show ?case
  proof (cases "now < deadline \<and> \<not> ready now")
    case go: True
    have "deadline - (now + period + late now) < deadline - now" using go period_pos by linarith
    from less [OF this] obtain k where k:
      "poll ready late deadline (now + period + late now) =
        (ready (poll_time period late now (Suc k)), poll_time period late now (Suc k))"
      "\<forall>j < k. poll_time period late now (Suc j) < deadline \<and> \<not> ready (poll_time period late now (Suc j))"
      "deadline \<le> poll_time period late now (Suc k) \<or> ready (poll_time period late now (Suc k))"
      unfolding poll_time_Suc by blast
    have "poll_time period late now j < deadline \<and> \<not> ready (poll_time period late now j)" if "j < Suc k" for j
      using that k(2) go by (cases j) auto
    with k(1,3) go step show ?thesis by (intro exI [of _ "Suc k"]) simp
  next
    case False
    with step show ?thesis by (intro exI [of _ 0]) auto
  qed
qed

lemma poll_looks:
  assumes "\<forall>j < k. poll_time period late now j < deadline"
  shows "k \<le> (deadline - now + (period - 1)) div period"
proof (cases k)
  case (Suc j)
  have "now + period * j < deadline"
    using assms Suc poll_time_ge [of now period j late] by (meson lessI le_less_trans)
  then have "period * k \<le> deadline - now + (period - 1)" using Suc period_pos by simp
  then show ?thesis using period_pos by (simp add: less_eq_div_iff_mult_less_eq mult.commute)
qed simp

lemma poll_props:
  assumes "poll ready late deadline now = (r, t)" and "\<And>i. late i \<le> L"
  shows "(r \<longleftrightarrow> ready t) \<and> now \<le> t \<and> (\<not> r \<longrightarrow> deadline \<le> t) \<and> t \<le> max now (deadline + period + L)"
proof -
  obtain k where k: "t = poll_time period late now k" "r \<longleftrightarrow> ready t"
    "\<forall>j < k. poll_time period late now j < deadline" "deadline \<le> t \<or> ready t"
    using poll_stops [of ready late deadline now] assms(1) by auto
  have "t \<le> max now (deadline + period + L)"
  proof (cases k)
    case (Suc j)
    then have "poll_time period late now j < deadline" using k(3) by simp
    moreover have "t = poll_time period late now j + period + late (poll_time period late now j)"
      using k(1) Suc by simp
    ultimately show ?thesis using assms(2) [of "poll_time period late now j"] by simp
  qed (simp add: k(1))
  moreover have "now \<le> t" using poll_time_ge [of now period k late] k(1) by simp
  ultimately show ?thesis using k(2,4) by blast
qed

end

end
