(* ===== verification/Commands.thy ===== *)
theory Commands
  imports Polling Attach_Loop Session "HOL-Library.Char_ord" "HOL-Library.List_Lexorder"
begin

text \<open>
  The one-shot commands of crates/cli/src/commands.rs: the detach-character specification, kill,
  push, clear, rm, list and current. A command returns its exit code and the lines it prints;
  what the machine answers is a parameter: results of connecting and writing, a file system, and
  for the waiting loops what exists at which moment (in milliseconds) and how much longer than
  asked each sleep takes.
\<close>

section \<open>The detach character\<close>

definition to_ascii_uppercase :: "u8 \<Rightarrow> u8" where
  "to_ascii_uppercase b = (if 97 \<le> b \<and> b \<le> 122 then b - 32 else b)"

definition is_ascii_uppercase :: "u8 \<Rightarrow> bool" where
  "is_ascii_uppercase b \<longleftrightarrow> 65 \<le> b \<and> b \<le> 90"

text \<open>The specification is given by its bytes; 94 is \<open>^\<close>, 63 \<open>?\<close>, 64 \<open>@\<close>, 91 to 95 \<open>[\<close> to \<open>_\<close>.\<close>

definition parse_char_spec :: "bytes \<Rightarrow> u8 option" where
  "parse_char_spec bs =
     (let first = (case bs of [] \<Rightarrow> None | b # _ \<Rightarrow> Some b) in
      if length bs = 2 \<and> bs ! 0 = 94
      then
        let c = to_ascii_uppercase (bs ! 1) in
        if c = 63 then Some 0x7f
        else if is_ascii_uppercase c \<or> c = 64 \<or> 91 \<le> c \<and> c \<le> 95 then Some (c AND 0x1f)
        else first
      else first)"

section \<open>Connecting\<close>

datatype conn_error = NotFound | ConnectionRefused | OtherError string

definition print_connect_error :: "string \<Rightarrow> conn_error \<Rightarrow> string" where
  "print_connect_error name e =
     (case e of
        NotFound \<Rightarrow> ''hytch: session '' @ [CHR 0x27] @ name @ [CHR 0x27] @ '' does not exist''
      | ConnectionRefused \<Rightarrow> ''hytch: session '' @ [CHR 0x27] @ name @ [CHR 0x27] @ '' is not running''
      | OtherError s \<Rightarrow> ''hytch: '' @ name @ '': '' @ s)"

text \<open>
  One control message over its own connection: the result of connecting, then of writing
  (\<open>Some (k, e)\<close>: error \<open>e\<close> after \<open>k\<close> bytes). The second component is what went out.
\<close>

definition send_control ::
    "conn_error option \<Rightarrow> (nat \<times> conn_error) option \<Rightarrow> Message \<Rightarrow> conn_error option \<times> bytes" where
  "send_control conn wr msg =
     (case conn of
        Some e \<Rightarrow> (Some e, [])
      | None \<Rightarrow>
          let out = encode msg [] in
          (case wr of None \<Rightarrow> (None, out) | Some (k, e) \<Rightarrow> (Some e, take k out)))"

section \<open>Kill\<close>

text \<open>
  Polls every 100 ms until the socket is gone or the deadline has passed, with one last look.
  The result, and the time it took.
\<close>

function poll_gone :: "(nat \<Rightarrow> bool) \<Rightarrow> (nat \<Rightarrow> nat) \<Rightarrow> nat \<Rightarrow> nat \<Rightarrow> bool \<times> nat" where
  "poll_gone present late deadline now =
     (if now < deadline
      then if \<not> present now then (True, now)
           else poll_gone present late deadline (now + 100 + late now)
      else (\<not> present now, now))"
  by pat_completeness auto
termination
  by (relation "measure (\<lambda>(present, late, deadline, now). deadline - now)") auto

declare poll_gone.simps [simp del]

definition wait_gone :: "(nat \<Rightarrow> bool) \<Rightarrow> (nat \<Rightarrow> nat) \<Rightarrow> nat \<Rightarrow> nat \<Rightarrow> bool \<times> nat" where
  "wait_gone present late now timeout = poll_gone present late (now + timeout) now"

record kill_env =
  conn1 :: "conn_error option"
  write1 :: "(nat \<times> conn_error) option"
  conn2 :: "conn_error option"
  write2 :: "(nat \<times> conn_error) option"
  sock_at :: "nat \<Rightarrow> bool"
  lag :: "nat \<Rightarrow> nat"

text \<open>Exit code, lines printed, what was sent on each connection, and the time at the end.\<close>

definition kill ::
    "kill_env \<Rightarrow> string \<Rightarrow> bool \<Rightarrow> bool \<Rightarrow> int \<times> string list \<times> bytes list \<times> nat" where
  "kill E name force quiet =
     (let sig = (if force then 9 else 15 :: u8);
          line = (\<lambda>what. ''hytch: session '' @ [CHR 0x27] @ name @ [CHR 0x27] @ what)
      in case send_control (conn1 E) (write1 E) (Kill sig) of
           (Some e, b1) \<Rightarrow> (1, [print_connect_error name e], [b1], 0)
         | (None, b1) \<Rightarrow>
             let max_wait = (if force then 2000 else 5000) in
             (case wait_gone (sock_at E) (lag E) 0 max_wait of
                (True, t) \<Rightarrow> (0, if \<not> quiet then [line '' stopped''] else [], [b1], t)
              | (False, t) \<Rightarrow>
                  if \<not> force
                  then
                    let b2 = snd (send_control (conn2 E) (write2 E) (Kill 9)) in
                    (case wait_gone (sock_at E) (lag E) t 2000 of
                       (True, t') \<Rightarrow> (0, if \<not> quiet then [line '' killed''] else [], [b1, b2], t')
                     | (False, t') \<Rightarrow> (1, [line '' did not stop''], [b1, b2], t'))
                  else (1, [line '' did not stop''], [b1], t)))"

section \<open>Push\<close>

definition PUSH_CHUNK_SIZE :: nat where "PUSH_CHUNK_SIZE = 32 * 1024"

text \<open>
  Standard input read by read, with the result of the write that follows (\<open>Some k\<close>: it fails
  after \<open>k\<close> bytes): no more reads stands for an input that never ends. Exit code once there is
  one, lines printed, bytes sent.
\<close>

datatype stdin_read = StdinError string | StdinBytes bytes

fun push_loop ::
    "string \<Rightarrow> (stdin_read \<times> send_result) list \<Rightarrow> int option \<times> string list \<times> bytes" where
  "push_loop name [] = (None, [], [])"
| "push_loop name ((StdinError e, _) # rs) = (Some 1, [''hytch: '' @ name @ '': '' @ e], [])"
| "push_loop name ((StdinBytes avail, w) # rs) =
     (let chunk = take PUSH_CHUNK_SIZE avail in
      if chunk = [] then (Some 0, [], [])
      else
        let out = encode (Push chunk) [] in
        (case w of
           Some k \<Rightarrow>
             (Some 1, [''hytch: '' @ name @ '': connection to session lost mid-push''], take k out)
         | None \<Rightarrow>
             (case push_loop name rs of (code, lines, sent) \<Rightarrow> (code, lines, out @ sent))))"

definition push_stdin ::
    "conn_error option \<Rightarrow> string \<Rightarrow> (stdin_read \<times> send_result) list \<Rightarrow> int option \<times> string list \<times> bytes" where
  "push_stdin conn name rs =
     (case conn of
        Some e \<Rightarrow> (Some 1, [print_connect_error name e], [])
      | None \<Rightarrow> push_loop name rs)"

section \<open>Files: clear, rm\<close>

text \<open>
  Paths to what is there. A socket is marked with whether a daemon listens on it.
\<close>

datatype node = SocketNode bool | FileNode bytes | DirNode

type_synonym files = "string \<Rightarrow> node option"

text \<open>
  \<open>denied\<close>: the error of opening an existing file for writing, if it fails; \<open>undeletable\<close>:
  paths whose removal fails.
\<close>

record fs_env =
  denied :: "string \<Rightarrow> string option"
  truncate_ok :: bool
  undeletable :: "string \<Rightarrow> bool"

definition clear_log :: "fs_env \<Rightarrow> files \<Rightarrow> string \<Rightarrow> string \<Rightarrow> bool \<Rightarrow> int \<times> string list \<times> files" where
  "clear_log E fs log_path name quiet =
     (case fs log_path of
        None \<Rightarrow> (0, [], fs)
      | Some n \<Rightarrow>
          (case (case n of
                   FileNode _ \<Rightarrow> denied E log_path
                 | DirNode \<Rightarrow> Some ''Is a directory''
                 | SocketNode _ \<Rightarrow> Some ''No such device or address'') of
             None \<Rightarrow> (0, [], if truncate_ok E then fs(log_path \<mapsto> FileNode []) else fs)
           | Some e \<Rightarrow> (1, if \<not> quiet then [''hytch: '' @ name @ '': '' @ e] else [], fs)))"

definition probe :: "files \<Rightarrow> string \<Rightarrow> bool" where
  "probe fs p \<longleftrightarrow> fs p = Some (SocketNode True)"

definition remove_file :: "fs_env \<Rightarrow> files \<Rightarrow> string \<Rightarrow> files" where
  "remove_file E fs p = (if undeletable E p \<or> fs p = Some DirNode then fs else fs(p := None))"

definition rm_session ::
    "fs_env \<Rightarrow> files \<Rightarrow> string \<Rightarrow> string \<Rightarrow> string \<Rightarrow> bool \<Rightarrow> int \<times> string list \<times> files" where
  "rm_session E fs socket_path log_path name quiet =
     (let q = [CHR 0x27] @ name @ [CHR 0x27] in
      if probe fs socket_path
      then (1, [''hytch: session '' @ q @ '' is running (use '' @ [CHR 0x27] @ ''hytch kill '' @ name @
              [CHR 0x27] @ '' first)''], fs)
      else
        let had_socket = (fs socket_path \<noteq> None);
            had_log = (fs log_path \<noteq> None);
            fs = remove_file E (remove_file E fs socket_path) log_path
        in if \<not> had_socket \<and> \<not> had_log
           then (1, [''hytch: session '' @ q @ '' does not exist''], fs)
           else (0, if \<not> quiet then [''hytch: session '' @ q @ '' removed''] else [], fs))"

section \<open>List, current\<close>

definition starts_with_dot :: "string \<Rightarrow> bool" where
  "starts_with_dot s = (case s of c # _ \<Rightarrow> c = CHR ''.'' | [] \<Rightarrow> False)"

definition strip_log :: "string \<Rightarrow> string option" where
  "strip_log s =
     (if 4 \<le> length s \<and> drop (length s - 4) s = ''.log'' then Some (take (length s - 4) s) else None)"

definition padded :: "string \<Rightarrow> string" where
  "padded s = s @ replicate (24 - length s) (CHR '' '')"

text \<open>
  The directory is its entries in any order, or an error: missing (\<open>Inl None\<close>), or another with
  its text.
\<close>

definition session_lines :: "files \<Rightarrow> string \<Rightarrow> string list \<Rightarrow> string list" where
  "session_lines fs dir names =
     map (\<lambda>n. padded n @ (if probe fs (path_join dir n) then '' [running]'' else '' [stale]''))
       (filter (\<lambda>n. \<not> starts_with_dot n \<and> strip_log n = None) names)"

definition exited_lines :: "files \<Rightarrow> string \<Rightarrow> string list \<Rightarrow> string list" where
  "exited_lines fs dir names =
     map (\<lambda>b. padded b @ '' [exited]'')
       (filter (\<lambda>b. fs (path_join dir b) = None) (List.map_filter strip_log names))"

definition list_sessions ::
    "files \<Rightarrow> string \<Rightarrow> string option + string list \<Rightarrow> bool \<Rightarrow> bool \<Rightarrow> int \<times> string list" where
  "list_sessions fs dir entries show_all quiet =
     (case entries of
        Inl None \<Rightarrow> (0, if \<not> quiet then [''(no sessions)''] else [])
      | Inl (Some e) \<Rightarrow> (1, [''hytch: '' @ dir @ '': '' @ e])
      | Inr es \<Rightarrow>
          let names = sort es;
              out = session_lines fs dir names @ (if show_all then exited_lines fs dir names else [])
          in (0, if out = [] \<and> \<not> quiet then [''(no sessions)''] else out))"

definition current_session :: "string option \<Rightarrow> int \<times> string list" where
  "current_session env =
     (case env of
        Some chain \<Rightarrow> if chain \<noteq> [] then (0, [short_name chain]) else (1, [])
      | None \<Rightarrow> (1, []))"

definition print_started :: "string \<Rightarrow> bool \<Rightarrow> string list" where
  "print_started name quiet =
     (if \<not> quiet then [''hytch: session '' @ [CHR 0x27] @ name @ [CHR 0x27] @ '' started''] else [])"

section \<open>Lemmas\<close>

interpretation gone: polling 100 "\<lambda>ready. poll_gone (\<lambda>t. \<not> ready t)"
  by unfold_locales (simp, subst poll_gone.simps, simp)

lemma wait_gone_props:
  assumes "wait_gone present late now timeout = (gone, t)" and "\<And>i. late i \<le> L"
  shows "(gone \<longleftrightarrow> \<not> present t) \<and> now \<le> t \<and> (\<not> gone \<longrightarrow> now + timeout \<le> t) \<and> t \<le> now + timeout + 100 + L"
  using gone.poll_props [of "\<lambda>t. \<not> present t" late "now + timeout" now gone t L] assms
  by (auto simp: wait_gone_def)

lemma send_control_ok [simp]: "send_control None None m = (None, encode m [])"
  by (simp add: send_control_def)

text \<open>The input up to its end, or to an error.\<close>

fun stdin_data :: "(stdin_read \<times> send_result) list \<Rightarrow> bytes" where
  "stdin_data [] = []"
| "stdin_data ((StdinError _, _) # rs) = []"
| "stdin_data ((StdinBytes b, _) # rs) =
     (if take PUSH_CHUNK_SIZE b = [] then [] else take PUSH_CHUNK_SIZE b @ stdin_data rs)"

lemma push_loop_sends:
  assumes "push_loop name rs = (code, out, sent)"
  shows "\<exists>ds. prefix sent (wire (map Push ds)) \<and> (code \<noteq> Some 1 \<longrightarrow> sent = wire (map Push ds))
    \<and> (\<forall>d \<in> set ds. length d \<le> PUSH_CHUNK_SIZE) \<and> code \<in> {None, Some 0, Some 1}
    \<and> prefix (concat ds) (stdin_data rs) \<and> (code \<noteq> Some 1 \<longrightarrow> concat ds = stdin_data rs)"
  using assms
proof (induction rs arbitrary: code out sent)
  case Nil
  then show ?case by (intro exI [of _ "[]"]) simp
next
  case (Cons r rs)
  obtain x w where r: "r = (x, w)" by fastforce
  show ?case
  proof (cases x)
    case (StdinError e)
    then show ?thesis using Cons.prems r by (intro exI [of _ "[]"]) auto
  next
    case (StdinBytes avail)
    define chunk where "chunk = take PUSH_CHUNK_SIZE avail"
    note ch = chunk_def [symmetric]
    have len: "length chunk \<le> PUSH_CHUNK_SIZE" by (simp add: chunk_def)
    show ?thesis
    proof (cases "chunk = []")
      case True
      then show ?thesis using Cons.prems r StdinBytes
        by (intro exI [of _ "[]"]) (auto simp: ch)
    next
      case ne: False
      show ?thesis
      proof (cases w)
        case (Some k)
        then have "sent = take k (encode (Push chunk) [])" "code = Some 1"
          using Cons.prems r StdinBytes ne by (auto simp: Let_def ch simp del: encode.simps)
        then show ?thesis using r StdinBytes len
          by (intro exI [of _ "[chunk]"]) (auto simp: ch take_is_prefix simp del: encode.simps)
      next
        case None
        obtain c l t where t: "push_loop name rs = (c, l, t)" by (metis prod_cases3)
        then have s: "sent = encode (Push chunk) [] @ t" "code = c"
          using Cons.prems r StdinBytes ne None by (auto simp: Let_def ch simp del: encode.simps)
        from Cons.IH [OF t] obtain ds where "prefix t (wire (map Push ds))" "c \<noteq> Some 1 \<longrightarrow> t = wire (map Push ds)"
          "\<forall>d \<in> set ds. length d \<le> PUSH_CHUNK_SIZE" "c \<in> {None, Some 0, Some 1}"
          "prefix (concat ds) (stdin_data rs)" "c \<noteq> Some 1 \<longrightarrow> concat ds = stdin_data rs"
          by blast
        then show ?thesis using s r StdinBytes len ne
          by (intro exI [of _ "chunk # ds"]) (simp add: ch del: encode.simps)
      qed
    qed
  qed
qed

section \<open>Properties\<close>

definition vanishing :: kill_env where
  "vanishing = \<lparr>conn1 = None, write1 = None, conn2 = None, write2 = None,
     sock_at = (\<lambda>t. t < 5200), lag = (\<lambda>_. 5000)\<rparr>"

text \<open>
  Property C25. Kill tells the truth and keeps its schedule: it reports success only if the socket
  is gone at that moment, and failure only if the socket is still there or the request could not
  be sent. The first signal is the one asked for; a SIGKILL of its own follows only a polite
  request whose socket is still there after the full grace period, and the whole command is over
  within the two waits, one poll each and the delays of the clock.
\<close>

theorem kill_tells_truth:
  assumes "kill E name force quiet = (code, out, conns, t)" and "\<And>i. lag E i \<le> L"
  shows "code \<in> {0, 1} \<and> (code = 0 \<longrightarrow> \<not> sock_at E t)
    \<and> (code = 1 \<longrightarrow> sock_at E t \<or> conn1 E \<noteq> None \<or> write1 E \<noteq> None)
    \<and> conns \<noteq> [] \<and> (conn1 E = None \<and> write1 E = None \<longrightarrow>
        hd conns = encode (Kill (if force then 9 else 15)) [])
    \<and> (tl conns \<noteq> [] \<longrightarrow> \<not> force \<and> (\<exists>t0. 5000 \<le> t0 \<and> t0 \<le> t \<and> sock_at E t0)
        \<and> tl conns = [snd (send_control (conn2 E) (write2 E) (Kill 9))])
    \<and> t \<le> 7200 + 2 * L"
proof -
  let ?m = "Kill (if force then 9 else 15)"
  obtain e b1 where s: "send_control (conn1 E) (write1 E) ?m = (e, b1)" by fastforce
  have ok: "conn1 E = None \<and> write1 E = None \<Longrightarrow> e = None \<and> b1 = encode ?m []" using s by simp
  show ?thesis
  proof (cases e)
    case (Some x)
    then have "code = 1 \<and> conns = [b1] \<and> t = 0" using assms(1) s by (auto simp: kill_def Let_def)
    moreover have "conn1 E \<noteq> None \<or> write1 E \<noteq> None" using ok Some
      by (cases "conn1 E"; cases "write1 E") auto
    ultimately show ?thesis by (auto simp del: encode.simps)
  next
    case None
    let ?w = "if force then 2000 else 5000"
    obtain g t1 where w: "wait_gone (sock_at E) (lag E) 0 ?w = (g, t1)" by fastforce
    note p1 = wait_gone_props [OF w assms(2)]
    have hd: "conn1 E = None \<and> write1 E = None \<longrightarrow> b1 = encode ?m []" using ok by blast
    show ?thesis
    proof (cases "g \<or> force")
      case True
      then have "conns = [b1] \<and> t = t1 \<and> code = (if g then 0 else 1)"
        using assms(1) s None w by (auto simp: kill_def Let_def split: if_splits)
      then show ?thesis using p1 hd by (auto split: if_splits)
    next
      case False
      obtain g2 t2 where w2: "wait_gone (sock_at E) (lag E) t1 2000 = (g2, t2)" by fastforce
      note p2 = wait_gone_props [OF w2 assms(2)]
      have "conns = [b1, snd (send_control (conn2 E) (write2 E) (Kill 9))] \<and> t = t2
          \<and> code = (if g2 then 0 else 1)"
        using assms(1) s None w w2 False by (auto simp: kill_def Let_def split: if_splits)
      then show ?thesis using p1 p2 hd False by (auto split: if_splits)
    qed
  qed
qed

theorem kill_tells_truth_witness:
  "kill vanishing ''a'' False True = (0, [], [[5, 0, 0, 0, 1, 15], [5, 0, 0, 0, 1, 9]], 10200)
   \<and> \<not> sock_at vanishing 10200 \<and> (\<exists>t0. 5000 \<le> t0 \<and> t0 \<le> 10200 \<and> sock_at vanishing t0)"
proof -
  have r: "kill vanishing ''a'' False True = (0, [], [[5, 0, 0, 0, 1, 15], [5, 0, 0, 0, 1, 9]], 10200)"
    by (simp add: kill_def vanishing_def wait_gone_def poll_gone.simps Let_def write_header_def
        put_u32_def type_tags)
  have "lag vanishing i \<le> 5000" for i by (simp add: vanishing_def)
  from kill_tells_truth [OF r this] r show ?thesis by simp
qed

text \<open>
  Property C35. Push delivers standard input: in whatever pieces it is read and the connection cuts
  the stream, the daemon decodes push messages only, each well under its frame limit, whose data
  is the input read, in order; all of it while the command runs on, and when it reports success
  everything it read before the end of input.
\<close>

theorem push_delivers_stdin:
  assumes "push_stdin None name rs = (code, out, sent)" and "code \<noteq> Some 1" and "concat reads = sent"
  shows "\<exists>ds. feed default_codec [] reads = (map Push ds, None, [])
    \<and> (\<forall>d \<in> set ds. 2 * length d \<le> DEFAULT_MAX_FRAME_LEN) \<and> concat ds = stdin_data rs"
proof -
  obtain ds where ds: "sent = wire (map Push ds)" "\<forall>d \<in> set ds. length d \<le> PUSH_CHUNK_SIZE"
    "concat ds = stdin_data rs"
    using push_loop_sends [of name rs code out sent] assms(1,2) by (auto simp: push_stdin_def)
  have l: "\<forall>d \<in> set ds. 2 * length d \<le> DEFAULT_MAX_FRAME_LEN"
    using ds(2) by (simp add: PUSH_CHUNK_SIZE_def DEFAULT_MAX_FRAME_LEN_def)
  then have "\<forall>m \<in> set (map Push ds). encodable default_codec m"
    by (auto simp: encodable_def default_codec_def DEFAULT_MAX_FRAME_LEN_def)
  then have "feed default_codec [] reads = (map Push ds, None, [])"
    by (rule ctl.fd_any_split) (use ds(1) assms(3) in \<open>simp add: wire_encode\<close>)
  then show ?thesis using l ds(3) by blast
qed

theorem push_delivers_stdin_witness:
  "\<exists>ds. feed default_codec [] [[0, 0, 0], [0, 1, 65, 0, 0, 0, 0, 2, 66], [10]] = (map Push ds, None, [])
    \<and> (\<forall>d \<in> set ds. 2 * length d \<le> DEFAULT_MAX_FRAME_LEN)
    \<and> concat ds = stdin_data [(StdinBytes [65], None), (StdinBytes [66, 10], None), (StdinBytes [], None)]"
proof (rule push_delivers_stdin)
  show "push_stdin None ''a'' [(StdinBytes [65], None), (StdinBytes [66, 10], None), (StdinBytes [], None)] =
      (Some 0, [], [0, 0, 0, 0, 1, 65, 0, 0, 0, 0, 2, 66, 10])"
    by (simp add: push_stdin_def PUSH_CHUNK_SIZE_def write_header_def put_u32_def type_tags Let_def)
qed simp_all

text \<open>
  Property C36. Rm spares a running session and everything else: with a daemon listening it changes
  nothing and fails; otherwise it succeeds exactly if the socket or the log was there, no path but
  these two is touched, and both are gone unless their removal fails. What is at the log's path is
  not looked at: if another session's socket lies there it goes too, listened to or not.
\<close>

theorem rm_spares_running:
  assumes "rm_session E fs sp lp name quiet = (code, out, fs')"
  shows "(probe fs sp \<longrightarrow> code = 1 \<and> fs' = fs)
    \<and> (\<forall>p. p \<noteq> sp \<and> p \<noteq> lp \<longrightarrow> fs' p = fs p)
    \<and> (code = 0 \<longleftrightarrow> \<not> probe fs sp \<and> (fs sp \<noteq> None \<or> fs lp \<noteq> None))
    \<and> (\<forall>p \<in> {sp, lp}. \<not> probe fs sp \<and> \<not> undeletable E p \<and> fs p \<noteq> Some DirNode \<longrightarrow> fs' p = None)"
  using assms by (auto simp: rm_session_def remove_file_def Let_def split: if_splits)

definition two_sessions :: files where
  "two_sessions = [''/s/a'' \<mapsto> SocketNode False, ''/s/a.log'' \<mapsto> SocketNode True, ''/s/b'' \<mapsto> SocketNode True]"

theorem rm_spares_running_witness:
  "\<exists>fs'. rm_session \<lparr>denied = (\<lambda>_. None), truncate_ok = True, undeletable = (\<lambda>_. False)\<rparr>
        two_sessions ''/s/a'' ''/s/a.log'' ''a'' True = (0, [], fs')
    \<and> fs' ''/s/b'' = Some (SocketNode True) \<and> fs' ''/s/a'' = None \<and> fs' ''/s/a.log'' = None"
proof -
  let ?E = "\<lparr>denied = (\<lambda>_. None), truncate_ok = True, undeletable = (\<lambda>_. False)\<rparr> :: fs_env"
  obtain fs' where r: "rm_session ?E two_sessions ''/s/a'' ''/s/a.log'' ''a'' True = (0, [], fs')"
    by (simp add: rm_session_def two_sessions_def probe_def Let_def)
  from rm_spares_running [OF r] r show ?thesis by (simp add: two_sessions_def probe_def)
qed

end
