(* ===== verification/Terminal.thy ===== *)
theory Terminal
  imports Commands
begin

text \<open>
  The real terminal around the attach loop: the raw-mode guard (crates/client/src/raw_mode.rs),
  window sizes (crates/client/src/resize.rs) and \<open>attach_foreground\<close> with the self-attach check
  and the log replay (crates/cli/src/attach.rs). Terminal settings are a type of their own, a
  parameter, with the function that makes them raw.
\<close>

section \<open>Raw mode and window size\<close>

record 'tm tty_env =
  is_tty :: bool
  tcgetattr_ok :: bool
  tcsetattr_ok :: bool
  restore_ok :: bool
  make_raw :: "'tm \<Rightarrow> 'tm"
  winsize_is :: "(u16 \<times> u16) option"
  watcher_ok :: bool

text \<open>The guard holds the original settings; the settings of the terminal are the state.\<close>

definition raw_enable :: "'tm tty_env \<Rightarrow> 'tm \<Rightarrow> 'tm option \<times> 'tm" where
  "raw_enable E st =
     (if \<not> tcgetattr_ok E then (None, st)
      else
        let original = st;
            raw = make_raw E original
        in if \<not> tcsetattr_ok E then (None, st) else (Some original, raw))"

definition raw_drop :: "'tm tty_env \<Rightarrow> 'tm \<Rightarrow> 'tm \<Rightarrow> 'tm" where
  "raw_drop E original st = (if restore_ok E then original else st)"

definition terminal_size :: "'tm tty_env \<Rightarrow> (u16 \<times> u16) option" where
  "terminal_size E = winsize_is E"

text \<open>
  The watcher's task, signal by signal: the size it reads (\<open>None\<close>: an error, the signal is
  skipped) and whether the receiver is still there. What it sends, and whether it has returned.
\<close>

fun watcher :: "((u16 \<times> u16) option \<times> bool) list \<Rightarrow> (u16 \<times> u16) list \<times> bool" where
  "watcher [] = ([], False)"
| "watcher ((None, _) # ss) = watcher ss"
| "watcher ((Some sz, receiver) # ss) =
     (if \<not> receiver then ([], True) else (case watcher ss of (q, r) \<Rightarrow> (sz # q, r)))"

section \<open>Attaching in the foreground\<close>

datatype cli_error = SelfAttach | ConnectFailed conn_error | RawModeFailed | ClientFailed attach_error

definition self_attach_error :: "string option \<Rightarrow> string \<Rightarrow> cli_error option" where
  "self_attach_error chain socket_path =
     (if ancestry_contains chain socket_path then Some SelfAttach else None)"

text \<open>
  One attempt: the result of connecting, the terminal, and what happens in the attach loop. The
  result is \<open>None\<close> while the loop goes on. The settings and the lines on standard error are what
  they are when the function returns; the last component is what the client did.
\<close>

record 'tm attempt_env =
  connection :: "conn_error option"
  tty :: "'tm tty_env"
  hello1 :: send_result
  hello2 :: send_result
  happens :: "attach_event list"

definition attach_foreground ::
    "'tm attempt_env \<Rightarrow> string option \<Rightarrow> string \<Rightarrow> u8 option \<Rightarrow> bool \<Rightarrow> bool \<Rightarrow> 'tm
      \<Rightarrow> (cli_error + AttachOutcome) option \<times> 'tm \<times> string list \<times> client option" where
  "attach_foreground E chain socket_path detach replayed quiet st =
     (case self_attach_error chain socket_path of
        Some e \<Rightarrow> (Some (Inl e), st, [], None)
      | None \<Rightarrow>
          (case connection E of
             Some e \<Rightarrow> (Some (Inl (ConnectFailed e)), st, [], None)
           | None \<Rightarrow>
               (case (if is_tty (tty E) then (case raw_enable (tty E) st of
                        (None, st) \<Rightarrow> (None, st) | (Some g, st) \<Rightarrow> (Some (Some g), st))
                      else (Some None, st)) of
                  (None, st) \<Rightarrow> (Some (Inl RawModeFailed), st, [], None)
                | (Some guard, st) \<Rightarrow>
                    let resize_events = (if is_tty (tty E) \<and> watcher_ok (tty E) then Some ([], False) else None);
                        (r, w) = (if is_tty (tty E)
                                  then case terminal_size (tty E) of Some s \<Rightarrow> s | None \<Rightarrow> (24, 80)
                                  else (24, 80));
                        said = (if \<not> quiet \<and> \<not> replayed then [[]] else []);
                        opts = \<lparr>detach_char = detach, suspend_char = None, redraw_method = WinchRedraw,
                                rows = r, cols = w, skip_ring = replayed\<rparr>;
                        st_after = (case guard of Some g \<Rightarrow> raw_drop (tty E) g st | None \<Rightarrow> st)
                    in (case attach_run opts resize_events (hello1 E) (hello2 E) (happens E) of
                          (None, c) \<Rightarrow> (None, st, said, Some c)
                        | (Some (Inl e), c) \<Rightarrow> (Some (Inl (ClientFailed e)), st_after, said, Some c)
                        | (Some (Inr outcome), c) \<Rightarrow>
                            (Some (Inr outcome), st_after,
                             said @ (if \<not> quiet \<and> outcome = SessionEnded then [''hytch: session ended''] else []),
                             Some c)))))"

section \<open>Replaying the log\<close>

text \<open>DECSTR, SGR reset, leave the alternate screen, show the cursor.\<close>

definition PRE_REPLAY_RESET :: bytes where
  "PRE_REPLAY_RESET = [0x1b] @ as_bytes ''[!p'' @ [0x1b] @ as_bytes ''[0m'' @ [0x1b] @ as_bytes ''[?1049l'' @
     [0x1b] @ as_bytes ''[?25h''"

text \<open>The contents of the log (\<open>None\<close>: it cannot be read); whether it was shown, and the output.\<close>

definition replay_log_to_stdout :: "bytes option \<Rightarrow> bool \<times> bytes" where
  "replay_log_to_stdout log =
     (case log of
        Some bs \<Rightarrow> if bs \<noteq> [] then (True, PRE_REPLAY_RESET @ bs) else (False, [])
      | None \<Rightarrow> (False, []))"

section \<open>An attempt that goes on\<close>

text \<open>What one more event makes of it: the result of the loop, as a result of the attempt.\<close>

definition as_cli :: "(attach_error + AttachOutcome) option \<Rightarrow> (cli_error + AttachOutcome) option" where
  "as_cli r = map_option (map_sum ClientFailed id) r"

lemma foreground_more:
  assumes "attach_foreground E chain path detach replayed quiet st = (None, st', said, c)"
  obtains opts k where "detach_char opts = detach" "suspend_char opts = None"
    "\<And>e. fst (attach_foreground (E\<lparr>happens := happens E @ [e]\<rparr>) chain path detach replayed quiet st) =
       as_cli (fst (attach_step opts k e))"
proof -
  define rx :: "((u16 \<times> u16) list \<times> bool) option" where "rx = (if is_tty (tty E) \<and> watcher_ok (tty E) then Some ([], False) else None)"
  define opts where "opts = \<lparr>detach_char = detach, suspend_char = None, redraw_method = WinchRedraw,
    rows = fst (if is_tty (tty E) then case terminal_size (tty E) of Some s \<Rightarrow> s | None \<Rightarrow> (24, 80) else (24, 80)),
    cols = snd (if is_tty (tty E) then case terminal_size (tty E) of Some s \<Rightarrow> s | None \<Rightarrow> (24, 80) else (24, 80)),
    skip_ring = replayed\<rparr>"
  have conn: "self_attach_error chain path = None" "connection E = None"
    "is_tty (tty E) \<longrightarrow> (\<exists>g st1. raw_enable (tty E) st = (Some g, st1))"
    using assms by (auto simp: attach_foreground_def split: option.splits if_splits prod.splits)
  have fst_eq: "fst (attach_foreground (E\<lparr>happens := es\<rparr>) chain path detach replayed quiet st) =
      as_cli (fst (attach_run opts rx (hello1 E) (hello2 E) es))" for es
  proof -
    obtain h w where size: "(if is_tty (tty E) then case terminal_size (tty E) of Some s \<Rightarrow> s | None \<Rightarrow> (24, 80)
        else (24, 80)) = (h, w)" by fastforce
    obtain r k where k: "attach_run opts rx (hello1 E) (hello2 E) es = (r, k)" by fastforce
    have o: "opts = \<lparr>detach_char = detach, suspend_char = None, redraw_method = WinchRedraw,
        rows = h, cols = w, skip_ring = replayed\<rparr>" by (simp add: opts_def size)
    show ?thesis
    proof (cases "is_tty (tty E)")
      case True
      then obtain g st1 where "raw_enable (tty E) st = (Some g, st1)" using conn(3) by blast
      with True k size show ?thesis
        by (simp add: attach_foreground_def conn(1,2) o rx_def)
          (simp add: Let_def as_cli_def split: option.split sum.split)
    next
      case False
      with k size show ?thesis
        by (simp add: attach_foreground_def conn(1,2) o rx_def)
          (simp add: Let_def as_cli_def split: option.split sum.split)
    qed
  qed
  then obtain k where "attach_run opts rx (hello1 E) (hello2 E) (happens E) = (None, k)"
    using fst_eq [of "happens E"] assms by (cases "attach_run opts rx (hello1 E) (hello2 E) (happens E)") (auto simp: as_cli_def)
  from run_more [OF this] have "fst (attach_run opts rx (hello1 E) (hello2 E) (happens E @ [e])) = fst (attach_step opts k e)" for e
    by (auto split: prod.split option.split)
  with fst_eq that [of opts k] show ?thesis by (simp add: opts_def)
qed

section \<open>Properties\<close>

text \<open>
  Property C32. The terminal is given back: whenever attaching returns, by any outcome or error,
  the settings of the terminal are what they were (if they can be set back at all), and only while
  the attach loop goes on they are raw; a session one is inside of is refused before anything is
  opened or changed.
\<close>

theorem terminal_restored:
  assumes "attach_foreground E chain path detach replayed quiet st = (res, st', said, c)"
    and "restore_ok (tty E)"
  shows "(res \<noteq> None \<longrightarrow> st' = st)
    \<and> (res = None \<longrightarrow> st' = (if is_tty (tty E) then make_raw (tty E) st else st))
    \<and> (ancestry_contains chain path \<longrightarrow> res = Some (Inl SelfAttach) \<and> c = None \<and> st' = st)"
  using assms
  by (auto simp: attach_foreground_def self_attach_error_def raw_enable_def raw_drop_def Let_def
      split: if_splits option.splits prod.splits sum.splits)

definition plain_tty :: "nat tty_env" where
  "plain_tty = \<lparr>is_tty = True, tcgetattr_ok = True, tcsetattr_ok = True, restore_ok = True,
     make_raw = (\<lambda>_. 0), winsize_is = Some (50, 132), watcher_ok = True\<rparr>"

theorem terminal_restored_witness:
  "\<exists>said c. attach_foreground \<lparr>connection = None, tty = plain_tty, hello1 = None, hello2 = None,
        happens = [ConnReady (Some []) True True]\<rparr> None ''/s/a'' (Some 0x1c) True True 7
      = (Some (Inr SessionEnded), 7, said, c)"
proof -
  let ?E = "\<lparr>connection = None, tty = plain_tty, hello1 = None, hello2 = None,
        happens = [ConnReady (Some []) True True]\<rparr> :: nat attempt_env"
  let ?r = "attach_foreground ?E None ''/s/a'' (Some 0x1c) True True 7"
  have f: "fst ?r = Some (Inr SessionEnded)" by code_simp
  obtain st' said c where r: "?r = (Some (Inr SessionEnded), st', said, c)"
    using f by (metis prod.collapse)
  have "restore_ok (tty ?E)" by (simp add: plain_tty_def)
  from terminal_restored [OF r this] r show ?thesis by simp
qed

end
