(* ===== verification/Launch.thy ===== *)
theory Launch
  imports Commands Daemon
begin

text \<open>
  Launching the daemon (crates/cli/src/spawn.rs) and the environment's part in paths
  (crates/cli/src/paths.rs): the request, the arguments it travels in, the wait for the socket, the
  race of that wait with the exit of the daemon process, and what the daemon process makes of it.
  Times are milliseconds since the process was started.
\<close>

section \<open>Paths\<close>

definition session_dir :: "string option \<Rightarrow> u32 \<Rightarrow> string" where
  "session_dir env_home uid = resolve_session_dir env_home None ''hytch'' uid"

definition socket_path_of :: "string option \<Rightarrow> u32 \<Rightarrow> string \<Rightarrow> string" where
  "socket_path_of env_home uid name = resolve_socket_path name (session_dir env_home uid)"

section \<open>Launching the daemon\<close>

definition DAEMON_SUBCOMMAND :: string where "DAEMON_SUBCOMMAND = ''__daemon-run''"

record SpawnRequest =
  req_socket :: string
  req_log :: "string option"
  req_log_max :: u64
  req_scrollback :: nat
  req_rows :: u16
  req_cols :: u16
  req_program :: string
  req_args :: "string list"

definition daemon_run_args :: "SpawnRequest \<Rightarrow> string list" where
  "daemon_run_args req =
     [DAEMON_SUBCOMMAND, req_socket req, case req_log req of Some p \<Rightarrow> p | None \<Rightarrow> ''-'',
      dec_string (unat (req_log_max req)), dec_string (req_scrollback req),
      dec_string (unat (req_rows req)), dec_string (unat (req_cols req)), req_program req]
     @ req_args req"

text \<open>
  Waiting for the socket: polls every 20 ms, with one last look at the deadline. \<open>sockets t\<close>:
  there is a socket at the path at time \<open>t\<close>.
\<close>

function poll_socket :: "(nat \<Rightarrow> bool) \<Rightarrow> (nat \<Rightarrow> nat) \<Rightarrow> nat \<Rightarrow> nat \<Rightarrow> bool \<times> nat" where
  "poll_socket sockets late deadline now =
     (if now < deadline
      then if sockets now then (True, now)
           else poll_socket sockets late deadline (now + 20 + late now)
      else (sockets now, now))"
  by pat_completeness auto
termination
  by (relation "measure (\<lambda>(sockets, late, deadline, now). deadline - now)") auto

declare poll_socket.simps [simp del]

definition wait_for_socket :: "(nat \<Rightarrow> bool) \<Rightarrow> (nat \<Rightarrow> nat) \<Rightarrow> nat \<Rightarrow> bool \<times> nat" where
  "wait_for_socket sockets late timeout = poll_socket sockets late timeout 0"

text \<open>
  The launch: errors of finding the executable and of starting it, when the daemon process exits
  and with what (if it does), what lies at the socket's path at each moment, and which branch of
  the select goes first when both are ready at once.
\<close>

record launch_env =
  exe_error :: "string option"
  start_error :: "string option"
  exits :: "(nat \<times> (string + string)) option"
  node_at :: "nat \<Rightarrow> node option"
  nap :: "nat \<Rightarrow> nat"
  exit_first :: bool

definition is_socket :: "node option \<Rightarrow> bool" where
  "is_socket n = (case n of Some (SocketNode _) \<Rightarrow> True | _ \<Rightarrow> False)"

text \<open>\<open>None\<close> is success.\<close>

definition spawn_detached :: "launch_env \<Rightarrow> string option" where
  "spawn_detached E =
     (case exe_error E of
        Some e \<Rightarrow> Some e
      | None \<Rightarrow>
          (case start_error E of
             Some e \<Rightarrow> Some e
           | None \<Rightarrow>
               let (found, t) = wait_for_socket (\<lambda>t. is_socket (node_at E t)) (nap E) 3000;
                   waited = (if found then None
                             else Some ''daemon did not report ready within the timeout'')
               in (case exits E of
                     None \<Rightarrow> waited
                   | Some (x, status) \<Rightarrow>
                       if x < t \<or> x = t \<and> exit_first E
                       then (case status of
                               Inl e \<Rightarrow> Some e
                             | Inr s \<Rightarrow> Some (''daemon process exited immediately ('' @ s @
                                 '') -- check the program name/path''))
                       else waited)))"

text \<open>\<open>run_daemon_foreground\<close>: the configuration it builds and the exit code it makes of the reason.\<close>

definition config_of :: "SpawnRequest \<Rightarrow> DaemonConfig" where
  "config_of req =
     \<lparr>socket_path = req_socket req, log_path = req_log req, log_max_size = req_log_max req,
      scrollback_size = req_scrollback req, cfg_program = req_program req, cfg_args = req_args req,
      initial_rows = req_rows req, initial_cols = req_cols req\<rparr>"

definition daemon_exit_code :: "ShutdownReason \<Rightarrow> int" where
  "daemon_exit_code reason =
     (case reason of
        ChildExited code \<Rightarrow> (case code of Some c \<Rightarrow> c | None \<Rightarrow> 0)
      | DaemonSignaled \<Rightarrow> 0)"

text \<open>The daemon's \<open>run\<close> is a parameter here: the reason it ended, or its error.\<close>

definition run_daemon_foreground ::
    "(DaemonConfig \<Rightarrow> string + ShutdownReason) \<Rightarrow> SpawnRequest \<Rightarrow> string + int" where
  "run_daemon_foreground daemon req =
     (case daemon (config_of req) of Inl e \<Rightarrow> Inl e | Inr reason \<Rightarrow> Inr (daemon_exit_code reason))"

section \<open>Lemmas\<close>

interpretation sock: polling 20 poll_socket
  by unfold_locales (simp, rule poll_socket.simps)

lemma spawn_detached_cases:
  assumes "spawn_detached E = None"
  shows "exe_error E = None \<and> start_error E = None
    \<and> (\<exists>t. is_socket (node_at E t) \<and> (\<forall>x status. exits E = Some (x, status) \<longrightarrow> t \<le> x))"
proof -
  obtain found t where w: "wait_for_socket (\<lambda>t. is_socket (node_at E t)) (nap E) 3000 = (found, t)"
    by fastforce
  have "found \<longleftrightarrow> is_socket (node_at E t)"
    using w sock.poll_stops [of "\<lambda>t. is_socket (node_at E t)" "nap E" 3000 0]
    by (auto simp: wait_for_socket_def)
  then show ?thesis using assms w
    by (auto simp: spawn_detached_def Let_def split: option.splits if_splits sum.splits intro!: exI [of _ t])
qed

lemma spawn_detached_at_once:
  assumes "exe_error E = None" "start_error E = None" "is_socket (node_at E 0)"
    and "\<And>status. exits E \<noteq> Some (0, status)"
  shows "spawn_detached E = None"
proof -
  have "wait_for_socket (\<lambda>t. is_socket (node_at E t)) (nap E) 3000 = (True, 0)"
    using assms by (simp add: wait_for_socket_def poll_socket.simps)
  then show ?thesis using assms by (auto simp: spawn_detached_def split: option.split)
qed

section \<open>Properties\<close>

text \<open>
  Property C40. Waiting for the socket ends: after at most one poll per 20 ms of the timeout and a
  last look, at the first poll that finds a socket or is past the deadline, and the answer is what
  lies at the path at that very moment.
\<close>

theorem wait_for_socket_ends:
  "\<exists>k \<le> (timeout + 19) div 20.
     wait_for_socket sockets late timeout = (sockets (poll_time 20 late 0 k), poll_time 20 late 0 k)
     \<and> (timeout \<le> poll_time 20 late 0 k \<or> sockets (poll_time 20 late 0 k))
     \<and> (\<forall>j < k. poll_time 20 late 0 j < timeout \<and> \<not> sockets (poll_time 20 late 0 j))"
proof -
  obtain k where k: "wait_for_socket sockets late timeout = (sockets (poll_time 20 late 0 k), poll_time 20 late 0 k)"
    "\<forall>j < k. poll_time 20 late 0 j < timeout \<and> \<not> sockets (poll_time 20 late 0 j)"
    "timeout \<le> poll_time 20 late 0 k \<or> sockets (poll_time 20 late 0 k)"
    using sock.poll_stops [of sockets late timeout 0] by (auto simp: wait_for_socket_def)
  moreover have "k \<le> (timeout + 19) div 20" using sock.poll_looks [of k late 0 timeout] k(2) by simp
  ultimately show ?thesis by blast
qed

theorem wait_for_socket_ends_witness:
  "\<exists>k \<le> 3. wait_for_socket (\<lambda>t. t > 50) (\<lambda>_. 5) 60 =
       (50 < poll_time 20 (\<lambda>_. 5) 0 k, poll_time 20 (\<lambda>_. 5) 0 k)
     \<and> (60 \<le> poll_time 20 (\<lambda>_. 5) 0 k \<or> 50 < poll_time 20 (\<lambda>_. 5) 0 k)"
  using wait_for_socket_ends [of 60 "\<lambda>t. t > 50" "\<lambda>_. 5"] by auto

end
