(* ===== verification/Cli.thy ===== *)
theory Cli
  imports Terminal Launch
begin

text \<open>
  The command line (crates/cli/src/main.rs): the commands, their dispatch and exit codes. Parsing
  of the arguments is clap's, a package: what it hands over (\<open>Cli\<close>, \<open>Command\<close>) is the start here,
  and for the way from the launcher's arguments to the daemon's fields it is a parameter.
  Everything the machine answers is a parameter (\<open>cli_env\<close>); commands return their exit code (\<open>None\<close> while an attach
  loop goes on) and what they did, in order.
\<close>

section \<open>The log cap\<close>

definition DEFAULT_LOG_MAX_SIZE :: u64 where "DEFAULT_LOG_MAX_SIZE = 1024 * 1024"
definition SCROLLBACK_SIZE :: nat where "SCROLLBACK_SIZE = 128 * 1024"

text \<open>The product wraps, as it does in a release build (a debug build panics).\<close>

definition parse_log_cap :: "string option \<Rightarrow> u64" where
  "parse_log_cap spec =
     (case spec of
        None \<Rightarrow> DEFAULT_LOG_MAX_SIZE
      | Some s \<Rightarrow>
          let (digits, mult) =
            (if s = [] then (s, 1)
             else if last s = CHR ''k'' \<or> last s = CHR ''K'' then (butlast s, 1024)
             else if last s = CHR ''m'' \<or> last s = CHR ''M'' then (butlast s, 1024 * 1024)
             else (s, 1))
          in case parse_uint 64 digits of
               Some n \<Rightarrow> word_of_nat n * mult
             | None \<Rightarrow> DEFAULT_LOG_MAX_SIZE)"

section \<open>What the commands see and do\<close>

record 'tm cli_env =
  env_home :: "string option"
  env_uid :: u32
  env_shell :: "string option"
  env_session :: "string option"
  terminal :: "'tm tty_env"
  settings :: 'tm
  files_now :: files
  files_env :: fs_env
  attempt :: "nat \<Rightarrow> 'tm attempt_env"
  launch :: launch_env
  os_error :: "cli_error \<Rightarrow> conn_error"

text \<open>
  What a command does that can be seen: output of a log replay, an attach attempt (with whether
  the daemon is told to skip its scrollback), a daemon launched, bytes sent over a connection of
  its own, a line printed. \<open>os_error\<close> gives the kind and text of errors of the terminal and of
  the attach loop, which are the system's.
\<close>

datatype cli_effect =
    Replayed bytes
  | Attempted string bool
  | Launched SpawnRequest
  | Sent bytes
  | Says string

definition build_spawn_request ::
    "'tm cli_env \<Rightarrow> string \<Rightarrow> string list \<Rightarrow> u64 \<Rightarrow> string + SpawnRequest" where
  "build_spawn_request E session cmd log_max =
     (if sep \<notin> set session \<and> \<not> is_valid_bare_name session
      then Inl ([CHR 0x27] @ session @ [CHR 0x27] @ '' is not a valid session name'')
      else
        let sock = socket_path_of (env_home E) (env_uid E) session;
            (program, args) =
              (case cmd of
                 p # rest \<Rightarrow> (p, rest)
               | [] \<Rightarrow> (case env_shell E of Some sh \<Rightarrow> sh | None \<Rightarrow> ''/bin/sh'', []));
            (r, c) =
              (if is_tty (terminal E)
               then case terminal_size (terminal E) of Some s \<Rightarrow> s | None \<Rightarrow> (24, 80)
               else (24, 80))
        in Inr \<lparr>req_socket = sock, req_log = (if log_max > 0 then Some (log_path_for sock) else None),
               req_log_max = log_max, req_scrollback = SCROLLBACK_SIZE, req_rows = r, req_cols = c,
               req_program = program, req_args = args\<rparr>)"

definition EXIT_SESSION_ENDED :: int where "EXIT_SESSION_ENDED = 90"

definition exit_code_for_outcome :: "AttachOutcome \<Rightarrow> int" where
  "exit_code_for_outcome outcome =
     (case outcome of
        SessionEnded \<Rightarrow> EXIT_SESSION_ENDED
      | Detached \<Rightarrow> 0
      | Suspended \<Rightarrow> 0
      | InputClosed \<Rightarrow> 0)"

definition cli_error_line :: "'tm cli_env \<Rightarrow> string \<Rightarrow> cli_error \<Rightarrow> string" where
  "cli_error_line E name e =
     print_connect_error name
       (case e of
          ConnectFailed ce \<Rightarrow> ce
        | SelfAttach \<Rightarrow> OtherError ''cannot attach to session from within itself''
        | _ \<Rightarrow> os_error E e)"

section \<open>The commands\<close>

definition read_file :: "files \<Rightarrow> string \<Rightarrow> bytes option" where
  "read_file fs p = (case fs p of Some (FileNode bs) \<Rightarrow> Some bs | _ \<Rightarrow> None)"

definition replay :: "'tm cli_env \<Rightarrow> string \<Rightarrow> bool \<times> cli_effect list" where
  "replay E path =
     (case replay_log_to_stdout (read_file (files_now E) path) of
        (True, out) \<Rightarrow> (True, [Replayed out])
      | (False, _) \<Rightarrow> (False, []))"

text \<open>The \<open>n\<close>-th attach attempt of this process.\<close>

definition attach_attempt ::
    "'tm cli_env \<Rightarrow> nat \<Rightarrow> string \<Rightarrow> u8 option \<Rightarrow> bool \<Rightarrow> bool
      \<Rightarrow> (cli_error + AttachOutcome) option \<times> cli_effect list" where
  "attach_attempt E n sock detach replayed quiet =
     (case attach_foreground (attempt E n) (env_session E) sock detach replayed quiet (settings E) of
        (res, _, said, _) \<Rightarrow> (res, Attempted sock replayed # map Says said))"

definition cmd_attach_replayed ::
    "'tm cli_env \<Rightarrow> nat \<Rightarrow> string \<Rightarrow> string \<Rightarrow> u8 option \<Rightarrow> bool \<Rightarrow> bool \<Rightarrow> int option \<times> cli_effect list" where
  "cmd_attach_replayed E n session sock detach replayed quiet =
     (case attach_attempt E n sock detach replayed quiet of
        (None, es) \<Rightarrow> (None, es)
      | (Some (Inr outcome), es) \<Rightarrow> (Some (exit_code_for_outcome outcome), es)
      | (Some (Inl e), es) \<Rightarrow> (Some 1, es @ [Says (cli_error_line E session e)]))"

definition cmd_attach ::
    "'tm cli_env \<Rightarrow> string \<Rightarrow> u8 option \<Rightarrow> bool \<Rightarrow> int option \<times> cli_effect list" where
  "cmd_attach E session detach quiet =
     (let sock = socket_path_of (env_home E) (env_uid E) session;
          (replayed, es) = replay E (log_path_for sock);
          (code, es') = cmd_attach_replayed E 0 session sock detach replayed quiet
      in (code, es @ es'))"

text \<open>\<open>n\<close> counts the attempts made before.\<close>

definition cmd_new_after_replay ::
    "'tm cli_env \<Rightarrow> nat \<Rightarrow> string \<Rightarrow> string list \<Rightarrow> u64 \<Rightarrow> u8 option \<Rightarrow> bool \<Rightarrow> bool
      \<Rightarrow> int option \<times> cli_effect list" where
  "cmd_new_after_replay E n session cmd log_max detach replayed quiet =
     (case build_spawn_request E session cmd log_max of
        Inl e \<Rightarrow> (Some 1, [Says (''hytch: '' @ e)])
      | Inr req \<Rightarrow>
          (case spawn_detached (launch E) of
             Some e \<Rightarrow> (Some 1, [Launched req, Says (''hytch: '' @ session @ '': '' @ e)])
           | None \<Rightarrow>
               let sock = socket_path_of (env_home E) (env_uid E) session;
                   said = (if \<not> quiet
                           then [Says (''hytch: session '' @ [CHR 0x27] @ session @ [CHR 0x27] @ '' created'')]
                           else []);
                   (code, es) = cmd_attach_replayed E n session sock detach replayed quiet
               in (code, Launched req # said @ es)))"

definition cmd_new ::
    "'tm cli_env \<Rightarrow> string \<Rightarrow> string list \<Rightarrow> u64 \<Rightarrow> u8 option \<Rightarrow> bool \<Rightarrow> int option \<times> cli_effect list" where
  "cmd_new E session cmd log_max detach quiet =
     (let sock = socket_path_of (env_home E) (env_uid E) session;
          (replayed, es) = replay E (log_path_for sock);
          (code, es') = cmd_new_after_replay E 0 session cmd log_max detach replayed quiet
      in (code, es @ es'))"

definition cmd_start ::
    "'tm cli_env \<Rightarrow> string \<Rightarrow> string list \<Rightarrow> u64 \<Rightarrow> bool \<Rightarrow> int option \<times> cli_effect list" where
  "cmd_start E session cmd log_max quiet =
     (case build_spawn_request E session cmd log_max of
        Inl e \<Rightarrow> (Some 1, [Says (''hytch: '' @ e)])
      | Inr req \<Rightarrow>
          (case spawn_detached (launch E) of
             None \<Rightarrow> (Some 0, Launched req # map Says (print_started session quiet))
           | Some e \<Rightarrow> (Some 1, [Launched req, Says (''hytch: '' @ session @ '': '' @ e)])))"

definition cmd_default ::
    "'tm cli_env \<Rightarrow> string list \<Rightarrow> u64 \<Rightarrow> u8 option \<Rightarrow> bool \<Rightarrow> int option \<times> cli_effect list" where
  "cmd_default E rest log_max detach quiet =
     (case rest of
        [] \<Rightarrow> (Some 1, [Says ''hytch: a session name is required. Try `hytch --help`.''])
      | session # cmd \<Rightarrow>
          let sock = socket_path_of (env_home E) (env_uid E) session;
              (replayed, es) = replay E (log_path_for sock)
          in if files_now E sock \<noteq> None
             then (case attach_attempt E 0 sock detach replayed quiet of
                     (None, es') \<Rightarrow> (None, es @ es')
                   | (Some (Inr outcome), es') \<Rightarrow> (Some (exit_code_for_outcome outcome), es @ es')
                   | (Some (Inl e), es') \<Rightarrow>
                       (case cmd_new_after_replay E 1 session cmd log_max detach replayed quiet of
                          (code, es'') \<Rightarrow> (code, es @ es' @ es'')))
             else (case cmd_new_after_replay E 0 session cmd log_max detach replayed quiet of
                     (code, es'') \<Rightarrow> (code, es @ es'')))"

definition cmd_clear ::
    "'tm cli_env \<Rightarrow> string option \<Rightarrow> bool \<Rightarrow> int \<times> string list \<times> files" where
  "cmd_clear E session quiet =
     (case (case session of Some n \<Rightarrow> Some n | None \<Rightarrow> map_option short_name (env_session E)) of
        None \<Rightarrow> (1, [''hytch: no session specified and not inside one''], files_now E)
      | Some name \<Rightarrow>
          clear_log (files_env E) (files_now E)
            (log_path_for (socket_path_of (env_home E) (env_uid E) name)) name quiet)"

definition cmd_rm ::
    "'tm cli_env \<Rightarrow> bool \<Rightarrow> string option \<Rightarrow> bool \<Rightarrow> int \<times> string list \<times> files" where
  "cmd_rm E all session quiet =
     (if all
      then (1, [''hytch: rm -a is not implemented yet; remove sessions by name for now''], files_now E)
      else case session of
             None \<Rightarrow> (1, [''hytch: a session name is required (or use -a)''], files_now E)
           | Some name \<Rightarrow>
               let sock = socket_path_of (env_home E) (env_uid E) name
               in rm_session (files_env E) (files_now E) sock (log_path_for sock) name quiet)"

text \<open>The detach character from the options: \<open>-E\<close>, and the specification given with \<open>-e\<close>.\<close>

definition detach_option :: "bool \<Rightarrow> bytes option \<Rightarrow> u8 option" where
  "detach_option no_detach spec =
     (if no_detach then None
      else Some (case Option.bind spec parse_char_spec of Some b \<Rightarrow> b | None \<Rightarrow> 0x1c))"

section \<open>The command line\<close>

datatype Command =
    AttachCmd string
  | NewCmd string "string list"
  | StartCmd string "string list"
  | PushCmd string
  | KillCmd bool string
  | ClearCmd "string option"
  | ListCmd bool
  | RmCmd bool "string option"
  | CurrentCmd
  | DaemonRun string string u64 nat u16 u16 string "string list"
  | DefaultCmd "string list"

record Cli =
  cli_detach_char :: "bytes option"
  cli_no_detach :: bool
  cli_quiet :: bool
  cli_log_cap :: "string option"
  command :: "Command option"

text \<open>The fields of the hidden subcommand as a request; \<open>-\<close> stands for no log.\<close>

fun run_request :: "Command \<Rightarrow> SpawnRequest option" where
  "run_request (DaemonRun sock log log_max ring_size r c program rest) =
     Some \<lparr>req_socket = sock, req_log = (if log \<noteq> ''-'' then Some log else None),
       req_log_max = log_max, req_scrollback = ring_size, req_rows = r, req_cols = c,
       req_program = program, req_args = rest\<rparr>"
| "run_request _ = None"

record 'tm main_env =
  io :: "'tm cli_env"
  push_connection :: "conn_error option"
  stdin :: "(stdin_read \<times> send_result) list"
  killing :: kill_env
  dir_entries :: "string option + string list"
  daemon_body :: "DaemonConfig \<Rightarrow> string + ShutdownReason"

text \<open>
  The dispatch of \<open>main\<close>: exit code, effects (what a command sends comes before what it prints
  about it), and the files after what the command itself did to them.
\<close>

fun run_command ::
    "'tm main_env \<Rightarrow> u64 \<Rightarrow> u8 option \<Rightarrow> bool \<Rightarrow> Command \<Rightarrow> int option \<times> cli_effect list \<times> files" where
  "run_command M cap detach quiet (AttachCmd session) =
     (case cmd_attach (io M) session detach quiet of (code, es) \<Rightarrow> (code, es, files_now (io M)))"
| "run_command M cap detach quiet (NewCmd session cmd) =
     (case cmd_new (io M) session cmd cap detach quiet of (code, es) \<Rightarrow> (code, es, files_now (io M)))"
| "run_command M cap detach quiet (StartCmd session cmd) =
     (case cmd_start (io M) session cmd cap quiet of (code, es) \<Rightarrow> (code, es, files_now (io M)))"
| "run_command M cap detach quiet (PushCmd session) =
     (case push_stdin (push_connection M) session (stdin M) of
        (code, said, sent) \<Rightarrow> (code, Sent sent # map Says said, files_now (io M)))"
| "run_command M cap detach quiet (KillCmd force session) =
     (case kill (killing M) session force quiet of
        (code, said, sent, _) \<Rightarrow> (Some code, map Sent sent @ map Says said, files_now (io M)))"
| "run_command M cap detach quiet (ClearCmd session) =
     (case cmd_clear (io M) session quiet of (code, said, fs) \<Rightarrow> (Some code, map Says said, fs))"
| "run_command M cap detach quiet (ListCmd show_all) =
     (case list_sessions (files_now (io M)) (session_dir (env_home (io M)) (env_uid (io M)))
         (dir_entries M) show_all quiet of
        (code, said) \<Rightarrow> (Some code, map Says said, files_now (io M)))"
| "run_command M cap detach quiet (RmCmd all_of session) =
     (case cmd_rm (io M) all_of session quiet of (code, said, fs) \<Rightarrow> (Some code, map Says said, fs))"
| "run_command M cap detach quiet CurrentCmd =
     (case current_session (env_session (io M)) of
        (code, said) \<Rightarrow> (Some code, map Says said, files_now (io M)))"
| "run_command M cap detach quiet (DefaultCmd rest) =
     (case cmd_default (io M) rest cap detach quiet of (code, es) \<Rightarrow> (code, es, files_now (io M)))"
| "run_command M cap detach quiet (DaemonRun sock log log_max ring_size r c program rest) =
     (case run_request (DaemonRun sock log log_max ring_size r c program rest) of
        None \<Rightarrow> (None, [], files_now (io M))
      | Some req \<Rightarrow>
          (case run_daemon_foreground (daemon_body M) req of
             Inr code \<Rightarrow> (Some code, [], files_now (io M))
           | Inl e \<Rightarrow> (Some 1, [Says (''hytch: daemon: '' @ e)], files_now (io M))))"

definition main_run :: "'tm main_env \<Rightarrow> Cli \<Rightarrow> int option \<times> cli_effect list \<times> files" where
  "main_run M cli =
     (let quiet = cli_quiet cli;
          detach = detach_option (cli_no_detach cli) (cli_detach_char cli);
          cap = parse_log_cap (cli_log_cap cli)
      in case command cli of
           Some cmd \<Rightarrow> run_command M cap detach quiet cmd
         | None \<Rightarrow> (Some 1, [Says ''hytch: a session name is required. Try `hytch --help`.''],
                    files_now (io M)))"

section \<open>Lemmas\<close>

fun replays :: "cli_effect list \<Rightarrow> bytes list" where
  "replays [] = []"
| "replays (Replayed b # es) = b # replays es"
| "replays (_ # es) = replays es"

fun skip_flags :: "cli_effect list \<Rightarrow> bool list" where
  "skip_flags [] = []"
| "skip_flags (Attempted _ f # es) = f # skip_flags es"
| "skip_flags (_ # es) = skip_flags es"

lemma replays_append [simp]: "replays (xs @ ys) = replays xs @ replays ys"
  by (induction xs rule: replays.induct) auto

lemma skip_flags_append [simp]: "skip_flags (xs @ ys) = skip_flags xs @ skip_flags ys"
  by (induction xs rule: skip_flags.induct) auto

lemma says_silent [simp]: "replays (map Says xs) = []" "skip_flags (map Says xs) = []"
  by (induction xs) simp_all

lemma attempt_effects:
  assumes "attach_attempt E n sock detach replayed quiet = (res, es)"
  shows "replays es = []" and "skip_flags es = [replayed]"
  using assms by (auto simp: attach_attempt_def split: prod.splits)

lemma attach_replayed_effects:
  assumes "cmd_attach_replayed E n session sock detach replayed quiet = (code, es)"
  shows "replays es = []" and "skip_flags es = [replayed]"
proof -
  obtain res es0 where a: "attach_attempt E n sock detach replayed quiet = (res, es0)" by fastforce
  note ae = attempt_effects [OF a]
  obtain more where es: "es = es0 @ map Says more"
  proof (cases res)
    case None
    then show ?thesis using assms a that [of "[]"] by (simp add: cmd_attach_replayed_def)
  next
    case (Some r)
    show ?thesis
    proof (cases r)
      case (Inl e)
      then show ?thesis using Some assms a that [of "[cli_error_line E session e]"]
        by (simp add: cmd_attach_replayed_def)
    next
      case (Inr o')
      then show ?thesis using Some assms a that [of "[]"] by (simp add: cmd_attach_replayed_def)
    qed
  qed
  show "replays es = []" by (simp add: es ae)
  show "skip_flags es = [replayed]" by (simp add: es ae)
qed

lemma new_after_replay_effects:
  assumes "cmd_new_after_replay E n session cmd log_max detach replayed quiet = (code, es)"
  shows "replays es = []" and "skip_flags es = [] \<or> skip_flags es = [replayed]"
proof -
  obtain c es0 where a: "cmd_attach_replayed E n session
      (socket_path_of (env_home E) (env_uid E) session) detach replayed quiet = (c, es0)" by fastforce
  note ae = attach_replayed_effects [OF a]
  have "replays es = [] \<and> (skip_flags es = [] \<or> skip_flags es = [replayed])"
  proof (cases "build_spawn_request E session cmd log_max")
    case (Inl e)
    then show ?thesis using assms by (auto simp: cmd_new_after_replay_def)
  next
    case (Inr req)
    then show ?thesis using assms a ae
      by (cases "spawn_detached (launch E)")
        (auto simp: cmd_new_after_replay_def Let_def split: if_splits)
  qed
  then show "replays es = []" and "skip_flags es = [] \<or> skip_flags es = [replayed]" by blast+
qed

lemma replay_effects:
  assumes "replay E path = (shown, es)"
  shows "replays es = (case read_file (files_now E) path of
      Some bs \<Rightarrow> if bs = [] then [] else [PRE_REPLAY_RESET @ bs] | None \<Rightarrow> [])
    \<and> skip_flags es = [] \<and> (shown \<longleftrightarrow> replays es \<noteq> [])"
  using assms by (auto simp: replay_def replay_log_to_stdout_def split: option.splits if_splits)

lemma default_cases:
  assumes "cmd_default E (session # cmd) log_max detach quiet = (code, es)"
    and "sock = socket_path_of (env_home E) (env_uid E) session"
    and "replay E (log_path_for sock) = (shown, es0)"
  obtains (created) es2 where "files_now E sock = None" "es = es0 @ es2"
      "cmd_new_after_replay E 0 session cmd log_max detach shown quiet = (code, es2)"
    | (going) es1 where "files_now E sock \<noteq> None" "es = es0 @ es1" "code = None"
      "attach_attempt E 0 sock detach shown quiet = (None, es1)"
    | (attached) outcome es1 where "files_now E sock \<noteq> None" "es = es0 @ es1"
      "code = Some (exit_code_for_outcome outcome)"
      "attach_attempt E 0 sock detach shown quiet = (Some (Inr outcome), es1)"
    | (failed) e es1 es2 where "files_now E sock \<noteq> None" "es = es0 @ es1 @ es2"
      "attach_attempt E 0 sock detach shown quiet = (Some (Inl e), es1)"
      "cmd_new_after_replay E 1 session cmd log_max detach shown quiet = (code, es2)"
proof (cases "files_now E sock = None")
  case True
  obtain c es2 where n: "cmd_new_after_replay E 0 session cmd log_max detach shown quiet = (c, es2)"
    by fastforce
  show ?thesis by (rule created) (use True assms n in \<open>simp_all add: cmd_default_def Let_def\<close>)
next
  case here: False
  obtain res es1 where a: "attach_attempt E 0 sock detach shown quiet = (res, es1)" by fastforce
  obtain c es2 where n: "cmd_new_after_replay E 1 session cmd log_max detach shown quiet = (c, es2)"
    by fastforce
  have run: "(code, es) = (case res of None \<Rightarrow> (None, es0 @ es1)
      | Some (Inr outcome) \<Rightarrow> (Some (exit_code_for_outcome outcome), es0 @ es1)
      | Some (Inl e) \<Rightarrow> (c, es0 @ es1 @ es2))"
  proof (cases res)
    case None
    then show ?thesis using here assms a n by (simp add: cmd_default_def Let_def)
  next
    case (Some o')
    then show ?thesis using here assms a n by (cases o') (simp_all add: cmd_default_def Let_def)
  qed
  show ?thesis
  proof (cases res)
    case None
    show ?thesis by (rule going) (use None here run a in simp_all)
  next
    case (Some o')
    show ?thesis
    proof (cases o')
      case (Inl e)
      show ?thesis by (rule failed) (use Inl Some here run a n in simp_all)
    next
      case (Inr outcome)
      show ?thesis by (rule attached) (use Inr Some here run a in simp_all)
    qed
  qed
qed

lemma default_effects:
  assumes "cmd_default E (session # cmd) log_max detach quiet = (code, es)"
    and "replay E (log_path_for (socket_path_of (env_home E) (env_uid E) session)) = (shown, es0)"
  shows "replays es = replays es0" and "set (skip_flags es) \<subseteq> {shown}"
proof -
  note re = replay_effects [OF assms(2)]
  from assms(1) refl assms(2) have "replays es = replays es0 \<and> set (skip_flags es) \<subseteq> {shown}"
  proof (cases rule: default_cases)
    case (created es2)
    then show ?thesis using new_after_replay_effects [OF created(3)] re by auto
  next
    case (going es1)
    then show ?thesis using attempt_effects [OF going(4)] re by simp
  next
    case (attached outcome es1)
    then show ?thesis using attempt_effects [OF attached(4)] re by simp
  next
    case (failed e es1 es2)
    then show ?thesis using attempt_effects [OF failed(3)] new_after_replay_effects [OF failed(4)] re by auto
  qed
  then show "replays es = replays es0" and "set (skip_flags es) \<subseteq> {shown}" by blast+
qed

section \<open>Properties\<close>


definition stale_env :: "nat cli_env" where
  "stale_env = \<lparr>env_home = Some ''/h'', env_uid = 1000, env_shell = None, env_session = None,
     terminal = plain_tty, settings = 7,
     files_now = [''/h/.cache/hytch/a'' \<mapsto> SocketNode False, ''/h/.cache/hytch/a.log'' \<mapsto> FileNode [79, 75]],
     files_env = \<lparr>denied = (\<lambda>_. None), truncate_ok = True, undeletable = (\<lambda>_. False)\<rparr>,
     attempt = (\<lambda>n. \<lparr>connection = if n = 0 then Some ConnectionRefused else None, tty = plain_tty,
       hello1 = None, hello2 = None, happens = [ConnReady (Some []) True True]\<rparr>),
     launch = \<lparr>exe_error = None, start_error = None, exits = None,
       node_at = (\<lambda>_. Some (SocketNode True)), nap = (\<lambda>_. 0), exit_first = False\<rparr>,
     os_error = (\<lambda>_. OtherError ''I/O error'')\<rparr>"

lemma stale_socket: "socket_path_of (env_home stale_env) (env_uid stale_env) ''a'' = ''/h/.cache/hytch/a''"
proof -
  have "socket_path_of (Some ''/h'') 1000 ''a'' = ''/h/.cache/hytch/a''" by code_simp
  then show ?thesis by (simp add: stale_env_def)
qed


text \<open>
  What clap is relied on for: positional words in the declared order, numbers as the numeric types
  parse them, and everything after the program as its arguments. A word that starts with a dash
  would be taken for an option (a lone dash is a value), except among the arguments of the program,
  which may start with one unless it is an option of the command line itself.
\<close>

definition positional :: "string \<Rightarrow> bool" where
  "positional w \<longleftrightarrow> w \<noteq> [] \<and> (w = ''-'' \<or> hd w \<noteq> CHR ''-'')"

definition trailing_arg :: "string \<Rightarrow> bool" where
  "trailing_arg w \<longleftrightarrow>
     positional w \<or> (case w of a # b # _ \<Rightarrow> a = CHR ''-'' \<and> b \<notin> set ''eEqChV-'' | _ \<Rightarrow> False)"

definition takes_positionals :: "(string list \<Rightarrow> Command option) \<Rightarrow> bool" where
  "takes_positionals clap \<longleftrightarrow>
     (\<forall>sock log program rest m_word s_word r_word c_word m s r c.
        positional sock \<and> positional log \<and> positional program \<and> (rest = [] \<or> trailing_arg (hd rest))
        \<and> parse_uint 64 m_word = Some m \<and> parse_uint 64 s_word = Some s
        \<and> parse_uint 16 r_word = Some r \<and> parse_uint 16 c_word = Some c \<longrightarrow>
        clap ([DAEMON_SUBCOMMAND, sock, log, m_word, s_word, r_word, c_word, program] @ rest) =
          Some (DaemonRun sock log (word_of_nat m) s (word_of_nat r) (word_of_nat c) program rest))"

lemma build_spawn_request_props:
  assumes "build_spawn_request E session cmd log_max = Inr req"
  shows "req_socket req = socket_path_of (env_home E) (env_uid E) session"
    and "req_log req = (if log_max > 0 then Some (log_path_for (req_socket req)) else None)"
    and "req_log_max req = log_max" and "req_scrollback req = SCROLLBACK_SIZE"
    and "sep \<in> set session \<or> is_valid_bare_name session"
  using assms by (auto simp: build_spawn_request_def Let_def split: if_splits prod.splits)

lemma request_travels:
  assumes "takes_positionals clap"
    and "build_spawn_request E session cmd log_max = Inr req"
    and "req_socket req \<noteq> []" "hd (req_socket req) \<noteq> CHR ''-''"
    and "positional (req_program req)" "req_args req = [] \<or> trailing_arg (hd (req_args req))"
  shows "Option.bind (clap (daemon_run_args req)) run_request = Some req"
proof -
  note req = build_spawn_request_props [OF assms(2)]
  let ?log = "case req_log req of Some p \<Rightarrow> p | None \<Rightarrow> ''-''"
  have log: "positional ?log"
    using assms(3,4) by (auto simp: req(2) positional_def log_path_for_def)
  have again: "(if ?log \<noteq> ''-'' then Some ?log else None) = req_log req"
    using assms(3) by (cases "req_socket req") (auto simp: req(2) log_path_for_def)
  have small: "unat w < 2 ^ 16" for w :: u16 using unsigned_less [of w] by simp
  have "clap (daemon_run_args req) =
      Some (DaemonRun (req_socket req) ?log (req_log_max req) (req_scrollback req) (req_rows req)
        (req_cols req) (req_program req) (req_args req))"
  proof -
    have m: "parse_uint 64 (dec_string (unat (req_log_max req))) = Some (unat (req_log_max req))"
      using unsigned_less [of "req_log_max req"] by (intro parse_uint_dec) simp
    have s: "parse_uint 64 (dec_string (req_scrollback req)) = Some (req_scrollback req)"
      by (rule parse_uint_dec) (simp add: req(4) SCROLLBACK_SIZE_def)
    have r: "parse_uint 16 (dec_string (unat (req_rows req))) = Some (unat (req_rows req))"
      and c: "parse_uint 16 (dec_string (unat (req_cols req))) = Some (unat (req_cols req))"
      by (rule parse_uint_dec, rule small)+
    have "positional (req_socket req)" using assms(3,4) by (simp add: positional_def)
    with assms(1) [unfolded takes_positionals_def, rule_format,
        of "req_socket req" ?log "req_program req" "req_args req", OF conjI]
      log assms(5,6) m s r c
    show ?thesis by (simp add: daemon_run_args_def)
  qed
  then show ?thesis using again by simp
qed


fun word_parser :: "string list \<Rightarrow> Command option" where
  "word_parser (sub_cmd # sock # log # m_word # s_word # r_word # c_word # program # rest) =
     (if sub_cmd \<noteq> DAEMON_SUBCOMMAND then None
      else case (parse_uint 64 m_word, parse_uint 64 s_word, parse_uint 16 r_word, parse_uint 16 c_word) of
             (Some m, Some s, Some r, Some c) \<Rightarrow>
               Some (DaemonRun sock log (word_of_nat m) s (word_of_nat r) (word_of_nat c) program rest)
           | _ \<Rightarrow> None)"
| "word_parser _ = None"



text \<open>
  Start tells the truth, up to a point: it exits with success only after launching
  the daemon of exactly this request and seeing a socket at its path no later than the daemon
  process exited. But a socket that is already there is believed at once: whatever becomes of the
  daemon process a moment later, start reports success and says the session started.
\<close>

theorem start_believes_socket:
  assumes "cmd_start E session cmd log_max quiet = (code, es)"
  shows "(code = Some 0 \<longrightarrow> (\<exists>req t. build_spawn_request E session cmd log_max = Inr req \<and>
            es = Launched req # map Says (print_started session quiet) \<and> is_socket (node_at (launch E) t)
            \<and> (\<forall>x status. exits (launch E) = Some (x, status) \<longrightarrow> t \<le> x)))
    \<and> (exe_error (launch E) = None \<and> start_error (launch E) = None \<and> is_socket (node_at (launch E) 0)
        \<and> (\<forall>status. exits (launch E) \<noteq> Some (0, status))
        \<and> (\<exists>req. build_spawn_request E session cmd log_max = Inr req) \<longrightarrow> code = Some 0)"
proof (cases "build_spawn_request E session cmd log_max")
  case (Inl e)
  then show ?thesis using assms by (auto simp: cmd_start_def)
next
  case (Inr req)
  show ?thesis
  proof (cases "spawn_detached (launch E)")
    case None
    from spawn_detached_cases [OF None] obtain t where "is_socket (node_at (launch E) t)"
      "\<forall>x status. exits (launch E) = Some (x, status) \<longrightarrow> t \<le> x" by blast
    with None Inr assms show ?thesis by (auto simp: cmd_start_def)
  next
    case (Some e)
    then have "\<not> (exe_error (launch E) = None \<and> start_error (launch E) = None \<and> is_socket (node_at (launch E) 0)
        \<and> (\<forall>status. exits (launch E) \<noteq> Some (0, status)))"
      using spawn_detached_at_once [of "launch E"] by auto
    with Some Inr assms show ?thesis by (auto simp: cmd_start_def)
  qed
qed

text \<open>A session that is running: the new daemon fails to bind after 5 ms.\<close>

definition running_env :: "nat cli_env" where
  "running_env = stale_env\<lparr>env_session := Some ''/h/.cache/hytch/a'',
     launch := (launch stale_env)\<lparr>exits := Some (5, Inr ''exit status: 1'')\<rparr>\<rparr>"

theorem start_believes_socket_witness:
  "\<exists>es. cmd_start running_env ''a'' [''sh''] 100 False = (Some 0, es)
    \<and> (\<exists>req. es = Launched req # map Says (print_started ''a'' False) \<and> req_program req = ''sh'')"
proof -
  obtain code es where r: "cmd_start running_env ''a'' [''sh''] 100 False = (code, es)" by fastforce
  obtain req where b: "build_spawn_request running_env ''a'' [''sh''] 100 = Inr req" "req_program req = ''sh''"
    by (simp add: build_spawn_request_def Let_def is_valid_bare_name_def running_env_def stale_env_def
        plain_tty_def terminal_size_def)
  from start_believes_socket [OF r] b have "code = Some 0"
    by (simp add: running_env_def stale_env_def is_socket_def)
  with start_believes_socket [OF r] b r show ?thesis by auto
qed

section \<open>Attach or create\<close>

fun launches :: "cli_effect list \<Rightarrow> SpawnRequest list" where
  "launches [] = []"
| "launches (Launched req # es) = req # launches es"
| "launches (_ # es) = launches es"

lemma launches_append [simp]: "launches (xs @ ys) = launches xs @ launches ys"
  by (induction xs rule: launches.induct) auto

lemma says_launch_nothing [simp]: "launches (map Says xs) = []"
  by (induction xs) simp_all

lemma attempt_launches:
  "attach_attempt E n sock detach replayed quiet = (res, es) \<Longrightarrow> launches es = []"
  by (auto simp: attach_attempt_def split: prod.splits)

lemma attach_replayed_launches:
  assumes "cmd_attach_replayed E n session sock detach replayed quiet = (code, es)"
  shows "launches es = []"
proof -
  obtain res es0 where a: "attach_attempt E n sock detach replayed quiet = (res, es0)" by fastforce
  note al = attempt_launches [OF a]
  show ?thesis
  proof (cases res)
    case None
    then show ?thesis using assms a al by (simp add: cmd_attach_replayed_def)
  next
    case (Some r)
    then show ?thesis using assms a al by (cases r) (auto simp: cmd_attach_replayed_def)
  qed
qed

lemma new_launches:
  assumes "cmd_new_after_replay E n session cmd log_max detach replayed quiet = (code, es)"
  shows "launches es = (case build_spawn_request E session cmd log_max of Inr req \<Rightarrow> [req] | Inl _ \<Rightarrow> [])"
proof (cases "build_spawn_request E session cmd log_max")
  case (Inl e)
  then show ?thesis using assms by (auto simp: cmd_new_after_replay_def)
next
  case (Inr req)
  obtain c es0 where a: "cmd_attach_replayed E n session
      (socket_path_of (env_home E) (env_uid E) session) detach replayed quiet = (c, es0)" by fastforce
  note al = attach_replayed_launches [OF a]
  show ?thesis using assms Inr a al
    by (cases "spawn_detached (launch E)") (auto simp: cmd_new_after_replay_def Let_def)
qed

lemma replay_launches: "launches (snd (replay E path)) = []"
  by (auto simp: replay_def split: prod.splits bool.splits)

lemma attempt_from_within:
  assumes "ancestry_contains (env_session E) sock"
  shows "attach_attempt E n sock detach replayed quiet = (Some (Inl SelfAttach), [Attempted sock replayed])"
  using assms by (simp add: attach_attempt_def attach_foreground_def self_attach_error_def)



section \<open>Two divergences\<close>

text \<open>
  Without a name, clear goes by the display form of the chain; inside a nested session no file has
  that name, and it succeeds without doing anything.
\<close>

lemma clear_inside_nested:
  assumes "env_session E = Some chain"
    and "files_now E (log_path_for (socket_path_of (env_home E) (env_uid E) (short_name chain))) = None"
  shows "cmd_clear E None quiet = (0, [], files_now E)"
  using assms by (simp add: cmd_clear_def clear_log_def)

lemma clear_inside_nested_name: "short_name ''/s/a:/s/b'' = ''a > b''"
  by code_simp

text \<open>Two bytes of one character (e with an acute accent): the first is taken.\<close>

lemma multibyte_spec: "detach_option False (Some [0xc3, 0xa9]) = Some 0xc3"
  by code_simp

section \<open>Exit codes\<close>

lemma exit_code_90 [simp]: "exit_code_for_outcome outcome = 90 \<longleftrightarrow> outcome = SessionEnded"
  by (cases outcome) (simp_all add: exit_code_for_outcome_def EXIT_SESSION_ENDED_def)

definition ended :: "'tm cli_env \<Rightarrow> bool \<Rightarrow> cli_effect list \<Rightarrow> bool" where
  "ended E quiet es \<longleftrightarrow>
     (\<exists>n sock detach shown. fst (attach_attempt E n sock detach shown quiet) = Some (Inr SessionEnded)
        \<and> Attempted sock shown \<in> set es)"

lemma ended_append: "ended E quiet es \<Longrightarrow> ended E quiet (es0 @ es)"
  by (auto simp: ended_def)

lemma attempt_ended:
  assumes "attach_attempt E n sock detach shown quiet = (Some (Inr SessionEnded), es)"
  shows "ended E quiet es"
proof -
  have "Attempted sock shown \<in> set es"
    using assms by (auto simp: attach_attempt_def split: prod.splits)
  then show ?thesis using assms unfolding ended_def by (metis fst_conv)
qed

lemma attach_replayed_90:
  assumes "cmd_attach_replayed E n session sock detach shown quiet = (Some 90, es)"
  shows "ended E quiet es"
proof -
  obtain res es0 where a: "attach_attempt E n sock detach shown quiet = (res, es0)" by fastforce
  show ?thesis
  proof (cases res)
    case None
    then show ?thesis using assms a by (simp add: cmd_attach_replayed_def)
  next
    case (Some r)
    then have "r = Inr SessionEnded \<and> es = es0"
      using assms a by (cases r) (auto simp: cmd_attach_replayed_def)
    with a Some show ?thesis using attempt_ended by blast
  qed
qed

lemma new_90:
  assumes "cmd_new_after_replay E n session cmd log_max detach shown quiet = (Some 90, es)"
  shows "ended E quiet es"
proof -
  obtain c es0 where a: "cmd_attach_replayed E n session
      (socket_path_of (env_home E) (env_uid E) session) detach shown quiet = (c, es0)" by fastforce
  obtain req where b: "build_spawn_request E session cmd log_max = Inr req" and "spawn_detached (launch E) = None"
    using assms by (auto simp: cmd_new_after_replay_def split: sum.splits option.splits)
  with assms a have c: "c = Some 90" "\<exists>more. es = more @ es0"
    by (auto simp: cmd_new_after_replay_def Let_def)
  from a c(1) have "ended E quiet es0" using attach_replayed_90 by blast
  with c(2) show ?thesis using ended_append by blast
qed

lemma default_90:
  assumes "cmd_default E rest log_max detach quiet = (Some 90, es)"
  shows "ended E quiet es"
proof (cases rest)
  case Nil
  then show ?thesis using assms by (simp add: cmd_default_def)
next
  case (Cons session cmd)
  obtain shown es0 where r:
    "replay E (log_path_for (socket_path_of (env_home E) (env_uid E) session)) = (shown, es0)" by fastforce
  from assms [unfolded Cons] refl r show ?thesis
  proof (cases rule: default_cases)
    case (created es2)
    then show ?thesis using new_90 [of E 0 session cmd log_max detach shown quiet es2] by (simp add: ended_append)
  next
    case (attached outcome es1)
    then show ?thesis using attempt_ended by (auto intro!: ended_append)
  next
    case (failed e es1 es2)
    then show ?thesis using new_90 [of E 1 session cmd log_max detach shown quiet es2] by (simp add: ended_append)
  qed simp
qed

lemma other_codes:
  "fst (kill K name force quiet) \<in> {0, 1}"
  "fst (push_stdin conn name rs) \<in> {None, Some 0, Some 1}"
  "fst (clear_log F fs path name quiet) \<in> {0, 1}"
  "fst (rm_session F fs sock path name quiet) \<in> {0, 1}"
  "fst (list_sessions fs dir entries show_all quiet) \<in> {0, 1}"
  "fst (current_session chain) \<in> {0, 1}"
proof -
  show "fst (kill K name force quiet) \<in> {0, 1}"
    by (simp add: kill_def Let_def split: prod.split option.split bool.split)
  obtain code out sent where "push_loop name rs = (code, out, sent)" by (metis prod.exhaust)
  from this push_loop_sends [OF this] show "fst (push_stdin conn name rs) \<in> {None, Some 0, Some 1}"
    by (cases conn) (auto simp: push_stdin_def)
qed (auto simp: clear_log_def rm_session_def list_sessions_def current_session_def Let_def
    split: option.splits node.splits sum.splits)

lemma file_command_codes:
  "fst (cmd_clear E session quiet) \<in> {0, 1}" "fst (cmd_rm E all_of session quiet) \<in> {0, 1}"
  unfolding cmd_clear_def cmd_rm_def Let_def
  by (simp_all add: other_codes(3,4) [simplified] split: option.split)

lemma dispatched_90:
  assumes "run_command M cap detach quiet cmd = (Some 90, es, fs)" and "run_request cmd = None"
  shows "ended (io M) quiet es"
proof (cases cmd)
  case (AttachCmd session)
  then show ?thesis using assms
    by (auto simp: cmd_attach_def Let_def split: prod.splits dest!: attach_replayed_90 intro: ended_append)
next
  case (NewCmd session words)
  then show ?thesis using assms
    by (auto simp: cmd_new_def Let_def split: prod.splits dest!: new_90 intro: ended_append)
next
  case (StartCmd session words)
  then show ?thesis using assms
    by (auto simp: cmd_start_def split: prod.splits sum.splits option.splits)
next
  case (PushCmd session)
  then show ?thesis using assms other_codes(2) [of "push_connection M" session "stdin M"]
    by (auto split: prod.splits)
next
  case (KillCmd force session)
  then show ?thesis using assms other_codes(1) [of "killing M" session force quiet]
    by (auto split: prod.splits)
next
  case (ClearCmd session)
  then show ?thesis using assms file_command_codes(1) [of "io M" session quiet]
    by (auto split: prod.splits)
next
  case (ListCmd show_all)
  then show ?thesis using assms other_codes(5) [of "files_now (io M)"
      "session_dir (env_home (io M)) (env_uid (io M))" "dir_entries M" show_all quiet]
    by (auto split: prod.splits)
next
  case (RmCmd all_of session)
  then show ?thesis using assms file_command_codes(2) [of "io M" all_of session quiet]
    by (auto split: prod.splits)
next
  case CurrentCmd
  then show ?thesis using assms other_codes(6) [of "env_session (io M)"] by (auto split: prod.splits)
next
  case (DefaultCmd rest)
  then show ?thesis using assms by (auto split: prod.splits intro: default_90)
next
  case (DaemonRun sock log log_max ring_size r c program rest)
  then show ?thesis using assms by simp
qed


definition ending_main :: "nat main_env" where
  "ending_main = \<lparr>io = stale_env\<lparr>attempt := (\<lambda>_. (attempt stale_env) 1)\<rparr>, push_connection = None, stdin = [],
     killing = vanishing, dir_entries = Inl None, daemon_body = (\<lambda>_. Inr DaemonSignaled)\<rparr>"

lemma ending_foreground:
  "fst (attach_foreground ((attempt stale_env) 1) None ''/h/.cache/hytch/a'' None True True 7) = Some (Inr SessionEnded)"
proof -
  have "fst (attach_foreground \<lparr>connection = None, tty = plain_tty, hello1 = None, hello2 = None,
      happens = [ConnReady (Some []) True True]\<rparr> None ''/h/.cache/hytch/a'' None True True 7) = Some (Inr SessionEnded)"
    by code_simp
  then show ?thesis by (simp add: stale_env_def)
qed

lemma fst_attempt: "fst (attach_attempt E n sock detach replayed quiet) =
    fst (attach_foreground (attempt E n) (env_session E) sock detach replayed quiet (settings E))"
  by (simp add: attach_attempt_def split: prod.split)


lemma calm_starts:
  assumes "is_power_of_two (scrollback_size config)" and "open_session_log calm config = Ok (log, es0)"
  shows "\<exists>(d :: (int, hist_chan) loop) es. daemon_start hist_bcast calm cwd config = (Started (d, log), es)
    \<and> phase d = Looping \<and> control_rx d = []"
proof -
  have "\<exists>dirs. create_parent calm config = Some dirs"
    by (auto simp: create_parent_def calm_def split: option.split)
  moreover have "\<exists>p calls. spawn_child calm config = (Inr p, calls)"
    by (simp add: spawn_child_def pty_spawn_def calm_def good_os_def pid_from_raw_def
        setup_calls_def child_calls_def)
  moreover have "fst (bind_listener (bind_call calm) (bind_dirs calm) cwd (socket_path config)) = Inr ()"
    by (auto simp: bind_listener_def calm_def any_dir_def lift_call_def Let_def split: option.split)
  moreover have "sigterm_ok calm" "sigint_ok calm" by (simp_all add: calm_def)
  ultimately show ?thesis using assms
    by (auto simp: daemon_start_def fan_new_def new_ring_def loop_start_def Let_def)
qed


section \<open>Starting over a running session\<close>

text \<open>
  Property C27. Starting a session that is already running does damage and reports success: with its
  socket in place the command says the session started, exits with 0 and has launched a daemon with
  the request; that daemon, which fails because it cannot bind the socket, has by then started the
  program a second time in a complete terminal and, unless the log is switched off, has opened the
  log the running daemon is writing to, cut to the cap.
\<close>

theorem start_over_running:
  assumes "build_spawn_request E session cmd log_max = Inr req"
    and "exe_error (launch E) = None" "start_error (launch E) = None"
    and "is_socket (node_at (launch E) 0)" "\<And>status. exits (launch E) \<noteq> Some (0, status)"
    and "daemon_start B M cwd (config_of req) = (Failed (BindFailed e), des)"
  shows "cmd_start E session cmd log_max quiet = (Some 0, Launched req # map Says (print_started session quiet))
    \<and> PtyCalls (spawn_calls (req_program req) (req_args req) (req_rows req) (req_cols req) SESSION_ENVVAR
        (extend_ancestry (inherited M) (req_socket req))) \<in> set des
    \<and> (0 < log_max \<longrightarrow> (\<exists>l. spawn_log_writer M (log_path_for (req_socket req)) log_max = Ok l
        \<and> OpenedLog (log_path_for (req_socket req)) l \<in> set des))"
proof -
  note req = build_spawn_request_props [OF assms(1)]
  have "spawn_detached (launch E) = None" by (rule spawn_detached_at_once [OF assms(2-5)])
  then have "cmd_start E session cmd log_max quiet = (Some 0, Launched req # map Says (print_started session quiet))"
    using assms(1) by (simp add: cmd_start_def)
  then show ?thesis using bind_fails_late [OF assms(6)] req(2,3) by (simp add: config_of_def)
qed

lemma taken_socket_fails:
  assumes "is_power_of_two (scrollback_size config)" and "open_session_log taken_socket config = Ok (log, es)"
  shows "fst (daemon_start hist_bcast taken_socket cwd config :: (string, (int, hist_chan) loop \<times> SessionLog option) started \<times> start_effect list)
    = Failed (BindFailed (CallError ''EADDRINUSE''))"
proof -
  have "\<exists>dirs. create_parent taken_socket config = Some dirs"
    by (auto simp: create_parent_def taken_socket_def split: option.split)
  moreover have "\<exists>p calls. spawn_child taken_socket config = (Inr p, calls)"
    by (simp add: spawn_child_def pty_spawn_def taken_socket_def good_os_def pid_from_raw_def
        setup_calls_def child_calls_def)
  moreover have "fst (bind_listener (bind_call taken_socket) (bind_dirs taken_socket) cwd (socket_path config))
      = Inl (CallError ''EADDRINUSE'')"
    by (auto simp: bind_listener_def taken_socket_def any_dir_def lift_call_def Let_def split: option.split)
  ultimately show ?thesis using assms
    by (auto simp: daemon_start_def fan_new_def new_ring_def Let_def)
qed

theorem start_over_running_witness:
  "\<exists>req des. cmd_start running_env ''a'' [''sh''] 2 True = (Some 0, [Launched req])
    \<and> daemon_start hist_bcast taken_socket ''/'' (config_of req) =
        ((Failed (BindFailed (CallError ''EADDRINUSE'')), des)
          :: (string, (int, hist_chan) loop \<times> SessionLog option) started \<times> start_effect list)
    \<and> PtyCalls (spawn_calls ''sh'' [] 50 132 SESSION_ENVVAR ''/h/.cache/hytch/a'') \<in> set des
    \<and> OpenedLog ''/h/.cache/hytch/a.log'' \<lparr>log_file = \<lparr>content = [2, 3], pos = 2\<rparr>, max_size = 2, current_size = 2\<rparr> \<in> set des"
proof -
  let ?sock = "''/h/.cache/hytch/a''"
  let ?req = "\<lparr>req_socket = ?sock, req_log = Some ''/h/.cache/hytch/a.log'', req_log_max = 2,
    req_scrollback = SCROLLBACK_SIZE, req_rows = 50, req_cols = 132, req_program = ''sh'', req_args = []\<rparr>"
  let ?r = "daemon_start hist_bcast taken_socket ''/'' (config_of ?req)
    :: (string, (int, hist_chan) loop \<times> SessionLog option) started \<times> start_effect list"
  have s: "socket_path_of (env_home running_env) (env_uid running_env) ''a'' = ?sock"
    using stale_socket by (simp add: running_env_def)
  have b: "build_spawn_request running_env ''a'' [''sh''] 2 = Inr ?req"
    by (simp add: build_spawn_request_def s Let_def is_valid_bare_name_def log_path_for_def)
      (simp add: running_env_def stale_env_def plain_tty_def terminal_size_def)
  have l: "spawn_log_writer taken_socket ''/h/.cache/hytch/a.log'' 2 =
      Ok \<lparr>log_file = \<lparr>content = [2, 3], pos = 2\<rparr>, max_size = 2, current_size = 2\<rparr>" by code_simp
  have f: "fst ?r = Failed (BindFailed (CallError ''EADDRINUSE''))"
    by (rule taken_socket_fails) (simp_all add: config_of_def open_session_log_def l is_power_of_two_iff SCROLLBACK_SIZE_def exI [of _ 17])
  obtain des where d: "?r = (Failed (BindFailed (CallError ''EADDRINUSE'')), des)" using f by (cases ?r) simp
  have e: "exe_error (launch running_env) = None" "start_error (launch running_env) = None"
    "is_socket (node_at (launch running_env) 0)" "\<And>status. exits (launch running_env) \<noteq> Some (0, status)"
    by (simp_all add: running_env_def stale_env_def is_socket_def)
  from start_over_running [OF b e d, of True] d l show ?thesis
    by (intro exI [of _ ?req] exI [of _ des])
      (simp add: print_started_def log_path_for_def taken_socket_def extend_ancestry_def nonempty_def)
qed

section \<open>How an attach ends\<close>

text \<open>The environment in which one more thing happens in the \<open>n\<close>-th attempt.\<close>

definition then_happens :: "'tm cli_env \<Rightarrow> nat \<Rightarrow> attach_event \<Rightarrow> 'tm cli_env" where
  "then_happens E n e =
     E\<lparr>attempt := (attempt E)(n := (attempt E n)\<lparr>happens := happens (attempt E n) @ [e]\<rparr>)\<rparr>"

definition code_of :: "(cli_error + AttachOutcome) option \<Rightarrow> int option" where
  "code_of r = map_option (case_sum (\<lambda>_. 1) exit_code_for_outcome) r"

lemma fst_attach_replayed:
  "fst (cmd_attach_replayed E n session sock detach shown quiet) =
    code_of (fst (attach_attempt E n sock detach shown quiet))"
  by (auto simp: cmd_attach_replayed_def code_of_def split: prod.split option.split sum.split)

lemma fst_cmd_attach:
  "fst (cmd_attach E session detach quiet) =
    (let sock = socket_path_of (env_home E) (env_uid E) session
     in code_of (fst (attach_attempt E 0 sock detach (fst (replay E (log_path_for sock))) quiet)))"
  by (simp add: cmd_attach_def Let_def split_def fst_attach_replayed)

lemma attach_goes_on:
  assumes "fst (cmd_attach E session detach quiet) = None"
  obtains opts k where "detach_char opts = detach" "suspend_char opts = None"
    "\<And>e. fst (cmd_attach (then_happens E 0 e) session detach quiet) = code_of (as_cli (fst (attach_step opts k e)))"
proof -
  let ?sock = "socket_path_of (env_home E) (env_uid E) session"
  let ?shown = "fst (replay E (log_path_for ?sock))"
  obtain st' said c where "attach_foreground (attempt E 0) (env_session E) ?sock detach ?shown quiet (settings E)
      = (None, st', said, c)"
    using assms by (cases "attach_foreground (attempt E 0) (env_session E) ?sock detach ?shown quiet (settings E)")
      (simp add: fst_cmd_attach fst_attempt code_of_def)
  then obtain opts k where o: "detach_char opts = detach" "suspend_char opts = None"
    "\<And>e. fst (attach_foreground ((attempt E 0)\<lparr>happens := happens (attempt E 0) @ [e]\<rparr>) (env_session E) ?sock
        detach ?shown quiet (settings E)) = as_cli (fst (attach_step opts k e))"
    by (rule foreground_more) (rule that)
  have "fst (cmd_attach (then_happens E 0 e) session detach quiet) = code_of (as_cli (fst (attach_step opts k e)))" for e
  proof -
    have "replay (then_happens E 0 e) p = replay E p" for p by (simp add: replay_def then_happens_def)
    then show ?thesis by (simp add: fst_cmd_attach fst_attempt o(3)) (simp add: then_happens_def o(3))
  qed
  with that o show ?thesis by blast
qed

text \<open>
  Property C24. How an attach ends: whatever has happened in an attach that goes on, the daemon
  closing the connection ends it with code 90, the detach byte anywhere in what is typed and the end of the
  input end it with 0, an error of the connection with 1, and output does not end it.
\<close>

theorem attach_ends:
  assumes "fst (cmd_attach E session detach quiet) = None"
  shows "fst (cmd_attach (then_happens E 0 (ConnReady (Some []) wr fl)) session detach quiet) = Some 90
    \<and> fst (cmd_attach (then_happens E 0 (InputReady (Some []) s1 s2)) session detach quiet) = Some 0
    \<and> fst (cmd_attach (then_happens E 0 (ConnReady None wr fl)) session detach quiet) = Some 1
    \<and> fst (cmd_attach (then_happens E 0 (ConnReady (Some (x # xs)) True True)) session detach quiet) = None
    \<and> (detach = Some b \<and> b \<notin> set xs \<and> length xs < IO_BUFFER \<longrightarrow>
        fst (cmd_attach (then_happens E 0 (InputReady (Some (xs @ b # ys)) None s2)) session detach quiet) = Some 0)"
proof -
  obtain opts k where o: "detach_char opts = detach" "suspend_char opts = None"
    and ends: "\<And>e. fst (cmd_attach (then_happens E 0 e) session detach quiet) = code_of (as_cli (fst (attach_step opts k e)))"
    using attach_goes_on [OF assms] by blast
  have "fst (attach_step opts k (InputReady (Some (xs @ b # ys)) None s2)) = Some (Inr Detached)"
    if d: "detach = Some b" "b \<notin> set xs" "length xs < IO_BUFFER"
  proof -
    obtain n where n: "IO_BUFFER - length xs = Suc n" using d(3) by (cases "IO_BUFFER - length xs") auto
    have "take IO_BUFFER (xs @ b # ys) = xs @ b # take n ys" using d(3) by (simp add: n)
    then show ?thesis using find_special_first [OF d(2)]
      by (simp add: on_input_def o d(1) send_def Let_def)
  qed
  then have "detach = Some b \<and> b \<notin> set xs \<and> length xs < IO_BUFFER \<longrightarrow>
      fst (cmd_attach (then_happens E 0 (InputReady (Some (xs @ b # ys)) None s2)) session detach quiet) = Some 0"
    unfolding ends by (simp add: code_of_def as_cli_def exit_code_for_outcome_def)
  then show ?thesis unfolding ends
    by (simp add: code_of_def as_cli_def on_input_def on_conn_def exit_code_for_outcome_def
        EXIT_SESSION_ENDED_def IO_BUFFER_def Let_def)
qed

text \<open>An attach that is shown a prompt, then detached.\<close>

theorem attach_ends_witness:
  "\<exists>E :: nat cli_env. fst (cmd_attach E ''a'' (Some 0x1c) True) = None
    \<and> fst (cmd_attach (then_happens E 0 (InputReady (Some ([108, 115] @ 0x1c # [120])) None None)) ''a'' (Some 0x1c) True) = Some 0
    \<and> fst (cmd_attach (then_happens E 0 (ConnReady (Some []) True True)) ''a'' (Some 0x1c) True) = Some 90"
proof -
  let ?A = "\<lparr>connection = None, tty = plain_tty, hello1 = None, hello2 = None,
    happens = [ConnReady (Some [36, 32]) True True]\<rparr> :: nat attempt_env"
  let ?E = "stale_env\<lparr>attempt := (\<lambda>_. ?A), files_now := Map.empty\<rparr>"
  have f: "fst (attach_foreground ?A None ''/h/.cache/hytch/a'' (Some 0x1c) False True 7) = None" by code_simp
  have "socket_path_of (env_home ?E) (env_uid ?E) ''a'' = ''/h/.cache/hytch/a''"
    using stale_socket by simp
  moreover have "env_session ?E = None" "settings ?E = 7" by (simp_all add: stale_env_def)
  moreover have "replay ?E p = (False, [])" for p by (simp add: replay_def read_file_def replay_log_to_stdout_def)
  ultimately have g: "fst (cmd_attach ?E ''a'' (Some 0x1c) True) = None"
    using f by (simp add: fst_cmd_attach fst_attempt code_of_def)
  from attach_ends [OF g, where xs = "[108, 115]" and b = "0x1c" and ys = "[120]"] g show ?thesis
    by (intro exI [of _ ?E]) (simp add: IO_BUFFER_def)
qed

section \<open>The log cap\<close>

text \<open>The suffixes of a cap and what they multiply by.\<close>

definition cap_unit :: "string \<Rightarrow> nat \<Rightarrow> bool" where
  "cap_unit u k \<longleftrightarrow> (u, k) \<in> {('''', 1), (''k'', 2 ^ 10), (''K'', 2 ^ 10), (''m'', 2 ^ 20), (''M'', 2 ^ 20)}"

lemma last_not_unit: "last (dec_string n) \<notin> {CHR ''k'', CHR ''K'', CHR ''m'', CHR ''M''}"
proof -
  have "last (dec_string n) \<in> set (dec_string n)" by simp
  moreover have "c \<notin> set (dec_string n)" if "c \<in> {CHR ''k'', CHR ''K'', CHR ''m'', CHR ''M''}" for c
    using that by (intro dec_string_digits) (auto simp: digit_val_def)
  ultimately show ?thesis by metis
qed

text \<open>
  The cap given on the command line is the number times its unit modulo 2 to the 64:
  exact below that bound (with no suffix always), zero, which switches the log off, for the first
  number that overflows its unit; and without a cap it is one mebibyte.
\<close>

theorem log_cap_wraps:
  assumes "n < 2 ^ 64" and "cap_unit u k"
  shows "unat (parse_log_cap (Some (dec_string n @ u))) = n * k mod 2 ^ 64
    \<and> unat (parse_log_cap None) = 2 ^ 20"
proof -
  note parsed = parse_uint_dec [OF assms(1)]
  have "parse_log_cap (Some (dec_string n @ u)) = word_of_nat (n * k)"
  proof (cases "u = ''''")
    case True
    with assms(2) have "k = 1" by (simp add: cap_unit_def)
    with True last_not_unit [of n] parsed show ?thesis by (simp add: parse_log_cap_def)
  next
    case False
    with assms(2) parsed show ?thesis by (auto simp: parse_log_cap_def cap_unit_def)
  qed
  moreover have "unat (parse_log_cap None) = 2 ^ 20"
    by (simp add: parse_log_cap_def DEFAULT_LOG_MAX_SIZE_def)
  ultimately show ?thesis by (simp add: unat_of_nat del: of_nat_mult)
qed

text \<open>Sixteen exbibytes asked for: no log.\<close>

theorem log_cap_wraps_witness:
  "dec_string 17592186044416 = ''17592186044416'' \<and> parse_log_cap (Some (''17592186044416'' @ ''m'')) = 0
    \<and> parse_log_cap (Some (''64'' @ ''k'')) = 65536"
proof -
  have d: "dec_string 17592186044416 = ''17592186044416''" "dec_string 64 = ''64''"
    by (simp_all add: dec_string.simps digit_char_def) code_simp+
  have "unat (parse_log_cap (Some (dec_string 17592186044416 @ ''m''))) = 0"
    using log_cap_wraps [of 17592186044416 "''m''" "2 ^ 20"] by (simp add: cap_unit_def)
  moreover have "unat (parse_log_cap (Some (dec_string 64 @ ''k''))) = 65536"
    using log_cap_wraps [of 64 "''k''" "2 ^ 10"] by (simp add: cap_unit_def)
  ultimately show ?thesis unfolding d by (simp add: word_unat_eq_iff)
qed

end
