(* ===== verification/Lifetime.thy ===== *)
theory Lifetime
  imports System_Spec Terminal
begin

text \<open>
  A session from a client's side over its whole life: the history it finds on disk before it attaches
  (\<open>replay_log_to_stdout\<close> of crates/cli/src/attach.rs, what the writer thread of
  crates/daemon/src/daemon.rs had written by then), the stream it is sent from then on, and the end
  of the daemon's process (\<open>main\<close> of crates/cli/src/main.rs), which does not wait for its clients.
\<close>

section \<open>Staying where one was let in\<close>

text \<open>An action by which client \<open>i\<close> attaches (again).\<close>

fun attaching :: "nat \<Rightarrow> 'sig action \<Rightarrow> bool" where
  "attaching i (ClientEvent j e) \<longleftrightarrow> i = j \<and> attaches e"
| "attaching i (LoopTurn t) \<longleftrightarrow> False"

lemma do_step_outs:
  assumes "do_step B S s a = Some s'"
  shows "prefix (outs s) (outs s') \<and> length (conns s) \<le> length (conns s')"
  using assms by (cases a) (auto split: if_splits option.splits)

lemma sys_run_outs:
  "sys_run B S s as = Some s' \<Longrightarrow> prefix (outs s) (outs s') \<and> length (conns s) \<le> length (conns s')"
proof (induction as arbitrary: s)
  case (Cons a as)
  then obtain t where t: "do_step B S s a = Some t" "sys_run B S t as = Some s'"
    by (auto split: option.splits)
  from do_step_outs [OF t(1)] Cons.IH [OF t(2)] show ?case by (auto intro: prefix_order.order_trans)
qed simp

context broadcast
begin

lemma let_in_action:
  assumes "do_step B S s a = Some s'" and "reachable B S sc s" and "i < length (conns s)" and "\<not> attaching i a"
    and "let_in P (fanout (main_loop s)) (outs s) (conns s ! i)"
  shows "let_in P (fanout (main_loop s')) (outs s') (conns s' ! i)"
proof (cases a)
  case (LoopTurn t)
  then obtain d where t: "t_attach t = 0" "loop_turn B (main_loop s) t = Some d" "s' = after_turn s t d"
    using assms(1) by (auto split: if_splits)
  have "ring_wf (ring (fanout (main_loop s)))" using reachable_ring [OF assms(2)] by blast
  from turn_tx [OF this t(1,2)]
  have "tx (fanout d) = tx (fanout (main_loop s)) \<and> read_in (main_loop s) t = [] \<or>
      (\<exists>c. tx (fanout d) = bc_send B (tx (fanout (main_loop s))) c \<and> read_in (main_loop s) t = [c])"
    by auto
  from let_in_turn [OF assms(5) this] show ?thesis using assms(3) by (simp add: t(3) nth_append)
next
  case (ClientEvent j e)
  then obtain k efs where e: "j < length (conns s)" "of_client e" "s' = after_event S s j e k efs"
    "task_step B S ((c_task (conns s ! j))\<lparr>shared := fanout (main_loop s)\<rparr>) e = Some (k, efs)"
    using assms(1) by (auto split: if_splits option.splits)
  show ?thesis
  proof (cases "i = j")
    case True
    then have "\<not> attaches e" using assms(4) ClientEvent by simp
    with let_in_self [OF e(4,2) this, where P = P and os = "outs s" and g = "c_got (conns s ! j)"] assms(3,5) True
    show ?thesis by (simp add: e(3) let_in_def)
  next
    case False
    from let_in_other [OF e(4,2), of P "outs s" "conns s ! i"] assms(5) False show ?thesis by (simp add: e(3))
  qed
qed

lemma let_in_run:
  assumes "sys_run B S s as = Some s'" and "reachable B S sc s" and "i < length (conns s)"
    and "\<forall>a \<in> set as. \<not> attaching i a"
    and "let_in P (fanout (main_loop s)) (outs s) (conns s ! i)"
  shows "let_in P (fanout (main_loop s')) (outs s') (conns s' ! i)"
  using assms
proof (induction as arbitrary: s)
  case (Cons a as)
  then obtain t where t: "do_step B S s a = Some t" "sys_run B S t as = Some s'"
    by (auto split: option.splits)
  have "reachable B S sc t" using Cons.prems(2) do_step_sound [OF t(1)] by (rule reachable.step)
  moreover have "i < length (conns t)" using Cons.prems(3) do_step_outs [OF t(1)] by simp
  moreover have "let_in P (fanout (main_loop t)) (outs t) (conns t ! i)"
    using let_in_action [OF t(1)] Cons.prems by auto
  ultimately show ?case using Cons.IH [OF t(2)] Cons.prems(4) by simp
qed simp

lemma attach_action:
  assumes "do_step B S s (ClientEvent i (FromClient (Inr (Attach skip)) ok)) = Some s'" and "reachable B S sc s"
  shows "i < length (conns s') \<and> outs s' = outs s
    \<and> let_in ((=) (entry sc skip (concat (outs s)))) (fanout (main_loop s')) (outs s') (conns s' ! i)"
proof -
  let ?k = "(c_task (conns s ! i))\<lparr>shared := fanout (main_loop s)\<rparr>" and ?e = "FromClient (Inr (Attach skip)) ok"
  obtain k efs where e: "i < length (conns s)" "s' = after_event S s i ?e k efs" "task_step B S ?k ?e = Some (k, efs)"
    using assms(1) by (auto split: if_splits option.splits)
  have "fan_wf (shared ?k)" "contents (ring (shared ?k)) = lastn sc (concat (outs s))"
    using reachable_ring [OF assms(2)] by (simp_all add: fan_wf_def)
  from attach_lets_in [OF e(3) this] e(1) show ?thesis by (simp add: e(2))
qed

text \<open>What a client is shown from when it attaches until it detaches or is left behind.\<close>

lemma shown_since_attach:
  assumes "reachable B S sc s" and "sys_run B S s (ClientEvent i (FromClient (Inr (Attach skip)) ok) # as) = Some s'"
    and "\<forall>a \<in> set as. \<not> attaching i a"
    and "running (c_task (conns s' ! i))" and "attached (c_task (conns s' ! i)) = Some rx"
  shows "concat (outs s') = entry sc skip (concat (outs s)) @ c_got (conns s' ! i)
    @ concat (backlog (tx (fanout (main_loop s'))) rx)"
proof -
  obtain t where t: "do_step B S s (ClientEvent i (FromClient (Inr (Attach skip)) ok)) = Some t"
    "sys_run B S t as = Some s'" using assms(2) by (auto split: option.splits)
  have "reachable B S sc t" using assms(1) do_step_sound [OF t(1)] by (rule reachable.step)
  from let_in_run [OF t(2) this _ assms(3)] attach_action [OF t(1) assms(1)]
  have "let_in ((=) (entry sc skip (concat (outs s)))) (fanout (main_loop s')) (outs s') (conns s' ! i)" by blast
  then show ?thesis using assms(4,5) by (simp add: let_in_def)
qed

end

section \<open>History, then the stream\<close>


section \<open>The end of a session\<close>

text \<open>
  Once \<open>run\<close> has returned, \<open>main\<close> exits the process (\<open>std::process::exit\<close>) without waiting for the
  tasks that serve clients: what has been written to a connection by then is all its client can
  read before the end of the stream, whatever still waits for it.
\<close>

definition process_exit :: "('sig, 'ch, 'rx) system \<Rightarrow> bytes list option" where
  "process_exit s =
     (case phase (main_loop s) of Stopped _ \<Rightarrow> Some (map c_got (conns s)) | _ \<Rightarrow> None)"

lemma process_exit_Some:
  "process_exit s = Some got \<longleftrightarrow> (\<exists>r. phase (main_loop s) = Stopped r) \<and> got = map c_got (conns s)"
  by (auto simp: process_exit_def split: phase.splits)


section \<open>A session that is watched from the middle to its end\<close>

text \<open>
  The program writes 1 2 3, a client connects and finds that in the log, the program writes 4, the
  client attaches, 5 is written and sent, 6 is written, and the program exits.
\<close>

definition empty_log :: SessionLog where
  "empty_log = \<lparr>log_file = \<lparr>content = [], pos = 0\<rparr>, max_size = 100, current_size = 0\<rparr>"

definition fan_of :: "bytes \<Rightarrow> nat \<Rightarrow> bytes list \<Rightarrow> hist_chan Fanout" where
  "fan_of b h os = \<lparr>ring = \<lparr>buf = b, head = h, len = 2\<rparr>, tx = \<lparr>hist = os, kept_cap = 4\<rparr>\<rparr>"

definition moment ::
    "hist_chan Fanout \<Rightarrow> phase \<Rightarrow> (int, hist_chan, nat) conn list \<Rightarrow> (int, hist_chan, nat) system" where
  "moment f p cs = \<lparr>main_loop = (loop_start f \<lparr>pgid = 4711, winsize = (24, 80)\<rparr> None)
       \<lparr>logged := Some (hist (tx f)), clients := length cs, phase := p\<rparr>,
     conns = cs, outs = hist (tx f), queue_log = [], command_log = []\<rparr>"

definition writes :: "bytes \<Rightarrow> int action" where
  "writes bs = LoopTurn (quiet_turn\<lparr>t_read := [IoOk bs]\<rparr>)"

definition attach_at_once :: "int action" where
  "attach_at_once = ClientEvent 0 (FromClient (Inr (Attach True)) True)"

definition watched :: "int action list" where
  "watched = [writes [5], ClientEvent 0 (PollOutput True), writes [6],
     LoopTurn (quiet_turn\<lparr>t_read := [IoError], t_exit := Some (Some 0)\<rparr>)]"

definition found :: "(int, hist_chan, nat) system" where
  "found = moment (fan_of [2, 3] 0 [[1, 2, 3]]) Looping [new_conn (fan_of [2, 3] 0 [[1, 2, 3]])]"

definition missed :: "(int, hist_chan, nat) system" where
  "missed = moment (fan_of [4, 3] 1 [[1, 2, 3], [4]]) Looping [new_conn (fan_of [2, 3] 0 [[1, 2, 3]])]"

definition ended :: "(int, hist_chan, nat) system" where
  "ended = moment (fan_of [6, 5] 1 [[1, 2, 3], [4], [5], [6]]) (Stopped (ChildExited (Some 0)))
     [\<lparr>c_task = \<lparr>shared = fan_of [4, 5] 0 [[1, 2, 3], [4], [5]], attached = Some 3, running = True\<rparr>,
       c_got = [5], c_asked = [], c_orders = []\<rparr>]"

lemma watched_runs:
  "sys_run hist_bcast linux_sigs (moment small_fan Looping [])
    [writes [1, 2, 3], LoopTurn (quiet_turn\<lparr>t_accept := Some True\<rparr>)] = Some found"
  "sys_run hist_bcast linux_sigs found [writes [4]] = Some missed"
  "sys_run hist_bcast linux_sigs missed (attach_at_once # watched) = Some ended"
  by code_simp+

lemma reach_found: "reachable hist_bcast linux_sigs 2 found"
proof (rule run_reachable [OF watched_runs(1)])
  have "moment small_fan Looping [] = \<lparr>main_loop = loop_start small_fan \<lparr>pgid = 4711, winsize = (24, 80)\<rparr> (Some empty_log),
      conns = [], outs = [], queue_log = [], command_log = []\<rparr>"
    by (simp add: moment_def loop_start_def small_fan_def)
  then show "reachable hist_bcast linux_sigs 2 (moment small_fan Looping [])"
    using reachable.start [OF small_fan_new] by metis
qed

lemma watched_states:
  "logged (main_loop found) = Some [[1, 2, 3]]" "outs missed = [[1, 2, 3], [4]]"
  "outs ended = [[1, 2, 3], [4], [5], [6]]" "process_exit ended = Some [[5]]" "length (conns ended) = 1"
  "running (c_task (conns ended ! 0))" "attached (c_task (conns ended ! 0)) = Some 3"
  "c_got (conns ended ! 0) = [5]" "logged (main_loop ended) = Some [[1, 2, 3], [4], [5], [6]]"
  "hist (tx (fanout (main_loop ended))) = [[1, 2, 3], [4], [5], [6]]"
  by (simp_all add: found_def missed_def ended_def moment_def fan_of_def loop_start_def process_exit_def)

lemma watched_stays: "\<forall>a \<in> set watched. \<not> attaching 0 a"
  by (simp add: watched_def writes_def)

lemma watched_log: "log_open fine_io True (Some []) 100 = Ok empty_log"
  by code_simp



end
