(* ===== verification/Recovery.thy ===== *)
theory Recovery
  imports Cli
begin

text \<open>
  What the commands of crates/cli/src/main.rs do about a session whose daemon was killed, or did not
  survive a reboot: its socket is still in place, and nothing listens on it.
\<close>

section \<open>Attempts that are refused\<close>

lemma refused_attempt:
  assumes "connection (attempt E n) = Some e" and "\<not> ancestry_contains (env_session E) sock"
  shows "attach_attempt E n sock detach shown quiet = (Some (Inl (ConnectFailed e)), [Attempted sock shown])"
  using assms by (simp add: attach_attempt_def attach_foreground_def self_attach_error_def)

lemma refused_attach:
  assumes "connection (attempt E n) = Some e" and "\<not> ancestry_contains (env_session E) sock"
  shows "cmd_attach_replayed E n session sock detach shown quiet =
    (Some 1, [Attempted sock shown, Says (print_connect_error session e)])"
  by (simp add: cmd_attach_replayed_def refused_attempt [OF assms] cli_error_line_def)

section \<open>After a crash\<close>


text \<open>The session of the dead socket, refused at every attempt.\<close>

definition crashed_env :: "nat cli_env" where
  "crashed_env = stale_env\<lparr>attempt := (\<lambda>n. (attempt stale_env 0))\<rparr>"


end
