(* ===== verification/Expectations.thy ===== *)
theory Expectations
  imports Framing Session Ring_Buffer Session_Log Age Attach_Loop
begin

text \<open>
  What the repository's own unit tests expect of the code, of the model: the test vectors by
  evaluation, the property tests (\<open>proptest!\<close>) for all inputs. Each lemma has the name of its test,
  or stands for a group of tests of one function.
\<close>

section \<open>crates/proto/src/tests.rs\<close>

definition sent_and_read :: "Message \<Rightarrow> bool" where
  "sent_and_read m \<longleftrightarrow> decode default_codec (encode m []) = (Inr (Some m), [])"

lemma sent_and_readI: "encodable default_codec m \<Longrightarrow> sent_and_read m"
  using decode_encode_aux [of default_codec m "[]"] by (simp add: sent_and_read_def)

text \<open>Also up to the limit, where the test stops at 8192 bytes.\<close>

lemma proptest_push_roundtrips_any_length: "length payload \<le> DEFAULT_MAX_FRAME_LEN \<Longrightarrow> sent_and_read (Push payload)"
  by (rule sent_and_readI) (simp add: encodable_def default_codec_def DEFAULT_MAX_FRAME_LEN_def)

lemma roundtrip_other_messages:
  "sent_and_read (Attach skip)" "sent_and_read Detach" "sent_and_read (Winch r w)"
  "sent_and_read (Redraw method r w)" "sent_and_read (Kill signal)"
  by (rule sent_and_readI, simp add: encodable_def default_codec_def DEFAULT_MAX_FRAME_LEN_def put_u16_def)+

lemma strict_prefix_take: "n < length xs \<Longrightarrow> strict_prefix (take n xs) xs"
  by (auto simp: strict_prefix_def take_is_prefix dest: arg_cong [where f = length])

lemma decode_returns_none_on_partial_frame:
  assumes "n < length (encode (Push (as_bytes ''hello world'')) [])"
  shows "decode default_codec (take n (encode (Push (as_bytes ''hello world'')) [])) =
    (Inr None, take n (encode (Push (as_bytes ''hello world'')) []))"
proof (rule decode_prefix)
  show "encodable default_codec (Push (as_bytes ''hello world''))"
    by (simp add: encodable_def default_codec_def DEFAULT_MAX_FRAME_LEN_def)
qed (rule strict_prefix_take [OF assms])

lemma decode_handles_two_frames_in_one_buffer:
  "feed default_codec [] [encode Detach [] @ encode (Kill 15) []] = ([Detach, Kill 15], None, [])"
  by (rule ctl.fd_any_split) (simp_all add: encodable_def default_codec_def DEFAULT_MAX_FRAME_LEN_def)

lemma decode_rejects_frame_over_max_len:
  "DEFAULT_MAX_FRAME_LEN + 1 = 65537" "fst (decode default_codec [0, 0, 1, 0, 1]) = Inl (FrameTooLong 65537 65536)"
  by (simp_all add: decode_def default_codec_def DEFAULT_MAX_FRAME_LEN_def HEADER_LEN_def be32_def Let_def)

lemma decode_never_panics_on_garbage:
  "decode default_codec [] = (Inr None, [])" "decode default_codec [0xFF] = (Inr None, [0xFF])"
  "fst (decode default_codec [0xFF, 0xFF, 0xFF, 0xFF, 0xFF]) = Inl (FrameTooLong 4294967295 65536)"
  "fst (decode default_codec [2, 0, 0, 0, 1, 0]) = Inl (BadPayloadLen 0 1)"
  "fst (decode default_codec [0, 0xFF, 0xFF, 0xFF, 0xFF]) = Inl (FrameTooLong 4294967295 65536)"
  by (simp_all add: decode_def default_codec_def DEFAULT_MAX_FRAME_LEN_def HEADER_LEN_def be32_def Let_def
      decode_payload_def require_len_def type_tags)

lemma digits: "digit_char 0 = CHR ''0''" "digit_char (Suc 0) = CHR ''1''" "digit_char 2 = CHR ''2''"
  "digit_char 3 = CHR ''3''" "digit_char 4 = CHR ''4''" "digit_char 5 = CHR ''5''" "digit_char 6 = CHR ''6''"
  "digit_char 7 = CHR ''7''" "digit_char 8 = CHR ''8''" "digit_char 9 = CHR ''9''"
  by code_simp+

section \<open>crates/session/src/tests.rs\<close>

lemma session_dir_tests:
  "resolve_session_dir (Some ''/home/alice'') None ''hytch'' 1000 = ''/home/alice/.cache/hytch''"
  "resolve_session_dir None (Some ''/home/bob'') ''hytch'' 1000 = ''/home/bob/.cache/hytch''"
  "resolve_session_dir (Some '''') (Some ''/home/bob'') ''hytch'' 1000 = ''/home/bob/.cache/hytch''"
  "resolve_session_dir (Some ''/'') None ''hytch'' 1000 = ''/tmp/.hytch-1000''"
  "resolve_session_dir None None ''hytch'' 1000 = ''/tmp/.hytch-1000''"
  "resolve_session_dir None (Some '''') ''hytch'' 1000 = ''/tmp/.hytch-1000''"
  "resolve_session_dir (Some '''') (Some ''/'') ''hytch'' 1000 = ''/tmp/.hytch-1000''"
  by (simp_all add: resolve_session_dir_def usable_home_def dec_string.simps digits)

lemma socket_path_tests:
  "resolve_socket_path ''work'' ''/home/alice/.cache/hytch'' = ''/home/alice/.cache/hytch/work''"
  "resolve_socket_path ''/tmp/mysession'' ''/home/alice/.cache/hytch'' = ''/tmp/mysession''"
  "resolve_socket_path ''sub/dir/name'' ''/home/alice/.cache/hytch'' = ''sub/dir/name''"
  by code_simp+

lemma ancestry_tests:
  "extend_ancestry None ''/a'' = ''/a''" "extend_ancestry (Some ''/a'') ''/b'' = ''/a:/b''"
  "extend_ancestry (Some '''') ''/a'' = ''/a''"
  "\<not> ancestry_contains None ''/a''" "ancestry_contains (Some ''/a'') ''/a''"
  "ancestry_contains (Some ''/a:/b'') ''/a''" "ancestry_contains (Some ''/a:/b'') ''/b''"
  "\<not> ancestry_contains (Some ''/path/ab'') ''/path/a''" "\<not> ancestry_contains (Some ''/a:/b'') ''/c''"
  by code_simp+

lemma shorten_tests:
  "shorten_for_unix_socket ''/home/x/.cache/hytch/work'' = None"
  "shorten_for_unix_socket (CHR ''/'' # replicate 106 CHR ''a'') = None"
  by (simp_all add: shorten_for_unix_socket_def MAX_SOCKET_PATH_LEN_def)

lemma bare_name_tests:
  "list_all is_valid_bare_name [''work'', ''my session'', ''a.b.c'', ''.hidden'', ''..two-leading-dots-but-not-just-dots'']"
  "list_all (\<lambda>n. \<not> is_valid_bare_name n) ['''', ''.'', ''..'', ''a/b'', ''/etc/passwd'']"
  by code_simp+

section \<open>crates/daemon/src/ring_buffer/tests.rs\<close>

definition ring_shows :: "nat \<Rightarrow> string list \<Rightarrow> bytes option" where
  "ring_shows cap appends = Option.bind (new_ring cap)
     (\<lambda>r. Option.bind (fold_opt ring_append r (map as_bytes appends)) snapshot)"

lemma ring_tests:
  "ring_shows 8 [] = Some []" "new_ring 6 = None" "ring_shows 8 [''AB'', ''CD''] = Some (as_bytes ''ABCD'')"
  "ring_shows 4 [''ABCD''] = Some (as_bytes ''ABCD'')" "ring_shows 4 [''AB'', ''CDE''] = Some (as_bytes ''BCDE'')"
  "ring_shows 4 [''AB'', ''CDE'', ''F''] = Some (as_bytes ''CDEF'')"
  "ring_shows 4 [''ABCDEFGH''] = Some (as_bytes ''EFGH'')" "ring_shows 4 [''AB'', ''''] = Some (as_bytes ''AB'')"
  "ring_shows 8 (map (\<lambda>c. [c]) ''abcdefghijklmnopqrstuvwxyz'') = Some (as_bytes ''stuvwxyz'')"
  by code_simp+

text \<open>
  The reference model of the property test: a deque that drops its oldest byte when it is full. The
  ring agrees with it for every capacity and all appends.
\<close>

definition deque_push :: "nat \<Rightarrow> bytes \<Rightarrow> u8 \<Rightarrow> bytes" where
  "deque_push cap q b = (if length q = cap then tl q else q) @ [b]"

lemma deque_keeps_tail:
  assumes "0 < cap"
  shows "foldl (deque_push cap) (lastn cap xs) ys = lastn cap (xs @ ys)"
proof (induction ys arbitrary: xs)
  case (Cons y ys)
  have "deque_push cap (lastn cap xs) y = lastn cap (xs @ [y])"
    using assms by (auto simp: deque_push_def lastn_def tl_drop drop_Suc [symmetric] Suc_diff_le min_def)
  then show ?case using Cons.IH [of "xs @ [y]"] by simp
qed simp

lemma matches_vecdeque_reference_model:
  assumes "new_ring cap = Some r"
  shows "Option.bind (fold_opt ring_append r chunks) snapshot = Some (foldl (deque_push cap) [] (concat chunks))"
proof -
  have r: "ring_wf r" "capacity r = cap" "snapshot r = Some []"
    using new_ring_wf [OF assms] by (simp_all add: snapshot_contents)
  have "0 < cap" using assms is_power_of_two.simps [of 0] by (cases cap) (simp_all add: new_ring_def)
  from deque_keeps_tail [OF this, of "[]"] rb.app_all [OF r(1,3), of chunks] r(2) show ?thesis
    by (auto simp: lastn_def)
qed

section \<open>crates/daemon/src/age.rs\<close>

lemma age_tests:
  "map format_age [0, 45, 65, 3599, 3661, 86399, 90065] =
    [''0s'', ''45s'', ''1m 5s'', ''59m 59s'', ''1h 1m 1s'', ''23h 59m 59s'', ''1d 1h 1m 5s'']"
  by (simp add: format_age_def dec_string.simps digits Let_def)

section \<open>crates/daemon/src/session_log/tests.rs\<close>

definition rotates_to :: "bytes \<Rightarrow> nat \<Rightarrow> bytes" where
  "rotates_to bs cap = content (snd (rotate_log_file fine_io \<lparr>content = bs, pos = 0\<rparr> cap))"

lemma rotate_tests:
  "rotates_to (as_bytes ''short'') 100 = as_bytes ''short''" "rotates_to (as_bytes ''1234'') 4 = as_bytes ''1234''"
  "rotates_to (as_bytes ''0123456789'') 4 = as_bytes ''6789''"
  "rotates_to (as_bytes ''AB'' @ [0x1b] @ as_bytes ''[123GXYZW'') 6 = [0x1b] @ as_bytes ''[123GXYZW''"
  "rotates_to (as_bytes ''AB'' @ [0xe2, 0x94, 0x80] @ as_bytes ''XYZW'') 6 = as_bytes ''XYZW''"
  by code_simp+

definition log_after :: "bytes \<Rightarrow> nat \<Rightarrow> string list \<Rightarrow> bytes option" where
  "log_after existing cap appends =
     (case log_open fine_io True (Some existing) cap of
        Ok l \<Rightarrow> Some (content (log_file (log_append_all fine_io l (map as_bytes appends))))
      | _ \<Rightarrow> None)"

lemma session_log_tests:
  "log_after [] 1024 [''hello '', ''world''] = Some (as_bytes ''hello world'')"
  "log_after [] 8 [''01234567'', ''89''] = Some (as_bytes ''23456789'')"
  "log_after (as_bytes ''0123456789'') 4 [''X''] = Some (as_bytes ''789X'')"
  by code_simp+

section \<open>crates/client/src/attach/tests.rs\<close>

definition attaching_with :: "u8 option \<Rightarrow> u8 option \<Rightarrow> attach_event list \<Rightarrow> AttachOutcome option \<times> bytes \<times> bytes" where
  "attaching_with detach suspend es =
     (case attach_run \<lparr>detach_char = detach, suspend_char = suspend, redraw_method = WinchRedraw, rows = 24,
             cols = 80, skip_ring = False\<rparr> (Some ([(50, 120)], False)) None None es of
        (Some (Inr outcome), c) \<Rightarrow> (Some outcome, drop 16 (conn_out c), screen c)
      | (_, c) \<Rightarrow> (None, drop 16 (conn_out c), screen c))"

text \<open>After the two messages of the handshake (16 bytes): what is sent, what is shown, how it ends.\<close>

lemma attach_tests:
  "attaching_with (Some 0x1c) None [InputReady (Some (as_bytes ''hello'')) None None,
      ConnReady (Some (as_bytes ''echo-back'')) True True, ConnReady (Some []) True True] =
    (Some SessionEnded, encode (Push (as_bytes ''hello'')) [], as_bytes ''echo-back'')"
  "attaching_with (Some 0x1c) None [InputReady (Some []) None None] = (Some InputClosed, [], [])"
  "attaching_with (Some 0x1c) None [InputReady (Some (as_bytes ''ab'' @ [0x1c] @ as_bytes ''c'')) None None] =
    (Some Detached, encode (Push (as_bytes ''ab'')) [], [])"
  "attaching_with (Some 0x1c) (Some 0x1a) [InputReady (Some (as_bytes ''x'' @ [0x1a])) None None] =
    (Some Suspended, encode (Push (as_bytes ''x'')) [] @ encode Detach [], [])"
  "attaching_with (Some 0x1c) None [ResizePolled None, ConnReady (Some []) True True] =
    (Some SessionEnded, encode (Winch 50 120) [], [])"
  by code_simp+

end
