(* ===== verification/Spec2Isabelle.thy ===== *)
theory Spec2Isabelle
  imports Framing Session Ring_Buffer Fanout Session_Log Age Client_Task
    Sockets Pty Daemon System System_Spec Attach_Loop Commands Terminal Launch Cli
    Lifetime Recovery Expectations
begin

text \<open>
A verification of hytch: terminal sessions that outlive the terminal.

  THE PROGRAM. A session is a daemon process that owns a pseudo-terminal with a program on it and
  a Unix socket. Clients connect to the socket and speak a small framed protocol: they attach, type,
  resize, kill. The daemon keeps the last output in a ring, copies all output to a log on disk, and
  broadcasts it to attached clients. The crates: proto (messages and codec), session (names, paths,
  the chain of nested sessions), daemon, client (the attach loop), cli.

  THE THEORIES, each after the code it models, with its state as a record and one definition per
  function, handler or branch:
  \<^item> \<open>Hytch_Prelude\<close>: widths, byte order, the last elements of a list, shared list facts.
  \<^item> \<open>Proto\<close> (crates/proto): \<open>Message\<close>, \<open>encode\<close>, \<open>decode\<close>. \<open>Framing\<close>: the readers built on the
    decoder, and the locale \<open>framing\<close> (what stream reassembly needs of a codec), interpreted on it.
  \<^item> \<open>Unix_Path\<close>: \<open>std::path\<close> on byte strings, decimal numbers. \<open>Session\<close> (crates/session, and
    log_path_for of crates/cli/src/paths.rs).
  \<^item> \<open>Ring_Buffer\<close> (ring_buffer.rs): the ring with its panics; it refines the list of the last bytes.
    The locale \<open>scrollback\<close> is the contract the fanout relies on. \<open>Fanout\<close> (fanout.rs): push and
    attach under one lock; the locale \<open>broadcast\<close> states the laws of tokio's broadcast channel.
  \<^item> \<open>Session_Log\<close> (session_log.rs): open, append, rotation over a file model in which every system
    call can fail. \<open>Age\<close> (age.rs).
  \<^item> \<open>Pty\<close> (pty.rs): spawn as its sequence of system calls, retrying reads and writes, the bounded
    write of the loop. \<open>Sockets\<close> (bind_listener of daemon.rs, sockets.rs of cli): long paths.
  \<^item> \<open>Client_Task\<close> (handle_client of daemon.rs): a step function over what its select yields.
    \<open>Daemon\<close> (run of daemon.rs): start, one turn of the biased select (\<open>loop_turn\<close>), the end.
    \<open>System\<close>: the loop and any number of client tasks as a step relation over the state they share,
    the two bounded channels included, with its reachable states, and as a function of a given step (\<open>do_step\<close>, \<open>sys_run\<close>), which decides that relation.
    \<open>System_Spec\<close>: what that promises, as two small machines, a session whose clients look at
    windows of one stream and a bounded queue; the locale \<open>simulation\<close> is the contract between
    detailed and abstract steps. It holds of the session wherever the laws of \<open>broadcast\<close> do (a
    sublocale), and is interpreted on both queues.
  \<^item> \<open>Attach_Loop\<close> (crates/client/src/attach.rs), \<open>Terminal\<close> (raw_mode.rs, resize.rs, and attach.rs
    of cli): the raw-mode guard over a state of terminal settings, an attach attempt, log replay.
  \<^item> \<open>Commands\<close> (commands.rs), \<open>Launch\<close> (spawn.rs, paths.rs), \<open>Cli\<close> (main.rs): each command with its
    exit code and effects in order, and the dispatch of main. \<open>Polling\<close>: the locale \<open>polling\<close> of
    the two loops that wait for a socket to come or go, interpreted on both.
  \<^item> \<open>Lifetime\<close>: a session from a client's side, over runs given as lists of actions: the history on
    disk, the stream from the attach on, the end of the process. \<open>Recovery\<close>: the commands and a
    session whose daemon crashed. \<open>Expectations\<close>: what the repository's own unit and property tests of
    the modelled modules assert, each as a lemma about the model.
  This theory holds the properties that span components.

  HOW THEY INTERACT. Keys go through \<open>attach_run\<close>, \<open>encode\<close>, the socket (any cutting of the stream
  into reads), \<open>decode\<close>, \<open>task_run\<close>, the push channel, \<open>loop_run\<close> and the bounded write to the
  terminal; output from the loop's read through \<open>fan_push\<close> to the ring, the log writer and, by the
  broadcast channel, the client tasks and their clients' screens. Commands open connections of their
  own. The launcher passes a request as arguments to the daemon process and watches for the socket.

  WHAT THE LEMMAS SHOW. Codec: round trips, exact frames, limits, streams cut anywhere. Ring, fanout
  and client task: an attached client gets the scrollback and then every chunk once. Log: bounded,
  a suffix of the output, cut at a character and outside an escape sequence. Daemon: output is
  recorded, commands come first, input keeps its order and gets through when the program takes it,
  an exit is noticed in spite of a backlog.
  System: in every reachable state each client is in sync with the output, the input of several
  clients keeps its order, the channels are bounded, and no next step panics; every run is one of
  the abstract session (\<open>system_refines_session\<close>) and of the abstract queues, a client that is
  polled catches up, and a run goes forward
  through the phases of a daemon (an instance of \<open>order\<close>).
  Pty and sockets: what the child gets, which file a short name reaches. Client and terminal: typed
  input arrives, the terminal is given back. Commands: kill, push and rm tell the truth; history is
  shown once; a launched daemon gets the request; exit code 90 means the session ended, and each end
  of an attach has its code. Across components: keys reach the program and output the screen, window
  sizes the program's terminal, a kill its process group, the program's exit code the exit of the
  daemon process. Where the
  code does not do what it means to, a property states what it does (\<open>start_over_running\<close>,
  \<open>attach_or_create\<close>, \<open>output_shuts_out\<close>; \<open>history_then_stream\<close>: output between the replay and the
  attach is not shown; \<open>session_end_seen\<close>: a client that is behind loses the end of the output, which
  is in the log; \<open>after_a_crash\<close>: a dead socket is in the way until \<open>rm\<close> takes it and the log
  away); the theorems \<open>start_believes_socket\<close>, \<open>closed_pty_blocks_loop\<close>,
  \<open>log_cap_wraps\<close> and the lemmas next to them show more of it.

  CONVENTIONS. Panics and errors are values: \<open>None\<close>, \<open>Inl\<close> or a constructor. What the system does
  is an argument: a list of results of system calls, a list of events of a select, a clock's delays,
  a map from paths to what is there. A run that is not over at the end of its events has no
  result yet (\<open>None\<close>); no fuel is used, loops are recursive on the events or have a measure (polls:
  the time left to the deadline). Machine integers have their width where it matters: sizes of log
  caps wrap as in a release build. Strings are their UTF-8 bytes.

  PARAMETERS. tokio's broadcast channel (laws: locale \<open>broadcast\<close>, interpreted on a channel that keeps
  its history), the kernel's socket, terminal and file calls, signal numbers, terminal settings, and
  clap's parser (\<open>takes_positionals\<close>). mpsc channels are first in, first out, and a client whose send
  finds its channel full waits: its event happens once there is room (\<open>room\<close>).

  NOT MODELLED. The scheduling of tokio's tasks beyond the order of events (so no claim that a ready
  task is run); the moves of bytes below a system call; tracing output,
  the build script, the text of help. Of the tests, those that run the built program against the system
  and the benchmarks have no counterpart here.
\<close>

section \<open>Properties across components\<close>





text \<open>
  Property C9. From \<open>hytch kill\<close> to the program: what the command sends, however the connection cuts
  it into reads, is decoded to the one request for the signal asked for; and in every reachable state
  of a daemon that is looping and serves this client, with room in the command queue, the request is
  queued as this client's, and the signal has reached the program's process group after the commands
  queued before it and its own turn: at most 16 turns, in which no time is spent, whatever else is ready.
\<close>

theorem kill_reaches_program:
  assumes "kill E name force quiet = (code, out, sent, took)" and "conn1 E = None" "write1 E = None"
    and "concat rds = hd sent"
    and "reachable B S sc s" and "phase (main_loop s) = Looping"
    and "i < length (conns s)" "running (c_task (conns s ! i))"
    and "length (control_rx (main_loop s)) < 16"
  shows "\<exists>n s'. feed default_codec [] rds = ([Kill n], None, []) \<and> n = (if force then 9 else 15)
    \<and> sys_step B S s s' \<and> command_log s' = command_log s @ [(i, Signal (signal_for S n))]
    \<and> (\<forall>ts. length ts = Suc (length (control_rx (main_loop s))) \<and> (\<forall>t \<in> set ts. t_signal_ok t) \<longrightarrow>
        (\<exists>d. loop_run B (main_loop s') ts = Some d \<and> phase d = Looping
          \<and> (pgid (pty (main_loop s)), signal_for S n) \<in> set (delivered d)
          \<and> clock d = clock (main_loop s)))"
proof -
  define n :: u8 where "n = (if force then 9 else 15)"
  have "hd sent = encode (Kill n) []"
    using assms(1-3) by (auto simp: kill_def Let_def n_def split: if_splits prod.splits bool.splits)
  then have "feed default_codec [] rds = ([Kill n], None, [])"
    using assms(4) by (intro ctl.fd_any_split) (simp_all add: encodable_def default_codec_def DEFAULT_MAX_FRAME_LEN_def)
  moreover have "length (control_rx (main_loop s)) < CONTROL_CAPACITY"
    using assms(9) by (simp add: CONTROL_CAPACITY_def)
  ultimately show ?thesis using kill_delivered [OF assms(5-8), of n] n_def by blast
qed

theorem kill_reaches_program_witness:
  "\<exists>(s' :: (int, hist_chan, nat) system) d. command_log s' = [(0, Signal 15), (0, Signal 9)]
    \<and> loop_run hist_bcast (main_loop s') [quiet_turn, quiet_turn] = Some d \<and> (4711, 9) \<in> set (delivered d)"
proof -
  obtain code out sent took where k: "kill vanishing ''a'' True True = (code, out, sent, took)"
    by (metis prod_cases4)
  have c: "conn1 vanishing = None" "write1 vanishing = None" "concat [hd sent] = hd sent"
    by (simp_all add: vanishing_def)
  have "phase (main_loop typed_state) = Looping" "0 < length (conns typed_state)"
    "running (c_task (conns typed_state ! 0))" "length (control_rx (main_loop typed_state)) < 16"
    by (simp_all add: typed_state_def run_defs)
  from kill_reaches_program [OF k c reach_typed this]
  obtain s' :: "(int, hist_chan, nat) system" where l: "command_log s' = command_log typed_state @ [(0, Signal (signal_for linux_sigs 9))]"
    and r: "\<forall>ts. length ts = Suc (length (control_rx (main_loop typed_state))) \<and> (\<forall>t \<in> set ts. t_signal_ok t) \<longrightarrow>
      (\<exists>d. loop_run hist_bcast (main_loop s') ts = Some d \<and> phase d = Looping
        \<and> (pgid (pty (main_loop typed_state)), signal_for linux_sigs 9) \<in> set (delivered d)
        \<and> clock d = clock (main_loop typed_state))"
    unfolding if_True by blast
  have "\<exists>d. loop_run hist_bcast (main_loop s') [quiet_turn, quiet_turn] = Some d \<and> (4711, 9) \<in> set (delivered d)"
    using r [rule_format, of "[quiet_turn, quiet_turn]"]
    by (auto simp del: loop_run_simps simp: typed_state_def run_defs quiet_turn_def signal_for_def linux_sigs_def)
  then show ?thesis using l by (auto simp del: loop_run_simps simp: typed_state_def signal_for_def linux_sigs_def)
qed

lemma sendable_controls:
  "\<forall>m \<in> set ms. sendable m \<Longrightarrow> concat (map (control_of S) ms) = map (case_prod Resize) (concat (map winch_of ms))"
proof (induction ms)
  case (Cons m ms)
  then show ?case by (cases m) simp_all
qed simp



end
